(* ===== verification/Prelude.thy ===== *)
theory Prelude
  imports Main "HOL-Library.Word" "HOL-Library.List_Lexorder" "HOL-Library.Sublist"
begin

text \<open>
  Shared vocabulary of the development: machine integers, the standard containers the C++ code
  iterates over (\<^verbatim>\<open>std::map\<close> and \<^verbatim>\<open>std::set\<close>, both ordered), the result type that carries
  C++ exceptions and aborts, and the generic facts about them that the component theories use.
\<close>

section \<open>Machine integers\<close>

type_synonym u8 = "8 word"
type_synonym u32 = "32 word"
type_synonym u64 = "64 word"
type_synonym u128 = "128 word"
type_synonym u256 = "256 word"

abbreviation UINT32_MAX :: u32 where "UINT32_MAX \<equiv> - 1"
abbreviation UINT64_MAX :: u64 where "UINT64_MAX \<equiv> - 1"

text \<open>Words are read as natural numbers; the library would turn \<open>int (unat w)\<close> into \<open>uint w\<close>.\<close>

declare of_nat_unat [simp del]

named_theorems word_nat \<open>readings of word terms as natural numbers\<close>

lemma unat_UINT32_MAX [word_nat]: "unat UINT32_MAX = 4294967295"
  by (simp add: unsigned_minus_1_eq_mask mask_eq_exp_minus_1)

lemma unat_UINT64_MAX [word_nat]: "unat UINT64_MAX = 18446744073709551615"
  by (simp add: unsigned_minus_1_eq_mask mask_eq_exp_minus_1)

lemma u32_le_MAX [simp]: "(n :: u32) \<le> UINT32_MAX"
  by simp

lemma u32_less_imp_le_pred: "(a :: u32) < b \<Longrightarrow> unat (b - 1) = unat b - 1"
  by (metis unat_minus_one word_not_simps(1))

lemma unat_dec [word_nat]: "(w :: 'a::len word) \<noteq> 0 \<Longrightarrow> unat (w - 1) = unat w - 1"
  by (simp add: unat_minus_one)

section \<open>Results: exceptions and aborts as values\<close>

text \<open>
  A computation that may throw or abort returns \<open>Inl\<close> of the error. \<open>bindR\<close> sequences two such
  computations: the second does not run after an error, as an exception that propagates.
\<close>

definition bindR :: "'e + 'a \<Rightarrow> ('a \<Rightarrow> 'e + 'b) \<Rightarrow> 'e + 'b" where
  "bindR r f = (case r of Inl e \<Rightarrow> Inl e | Inr a \<Rightarrow> f a)"

lemma bindR_simps [simp]:
  "bindR (Inl e) f = Inl e"
  "bindR (Inr a) f = f a"
  by (simp_all add: bindR_def)

lemma bindR_Inr_iff: "bindR r f = Inr b \<longleftrightarrow> (\<exists>a. r = Inr a \<and> f a = Inr b)"
  by (cases r) simp_all

lemma bindR_InrE [elim!]:
  assumes "bindR r f = Inr b"
  obtains a where "r = Inr a" and "f a = Inr b"
  using assms by (auto simp: bindR_Inr_iff)

lemma bindR_Inl_iff: "bindR r f = Inl e \<longleftrightarrow> r = Inl e \<or> (\<exists>a. r = Inr a \<and> f a = Inl e)"
  by (cases r) auto

lemma bindR_cong [fundef_cong]:
  "r = r' \<Longrightarrow> (\<And>a. r' = Inr a \<Longrightarrow> f a = g a) \<Longrightarrow> bindR r f = bindR r' g"
  by (cases r') simp_all

lemma bindR_assoc: "bindR (bindR r f) g = bindR r (\<lambda>a. bindR (f a) g)"
  by (cases r) simp_all

section \<open>Ordered maps\<close>

text \<open>
  \<^verbatim>\<open>std::map\<close> keeps its entries sorted by key and iterates in that order. The model is the list of
  entries in iteration order; \<open>map_put\<close> is \<^verbatim>\<open>insert\<close> of a fresh key or assignment to a present one.
\<close>

fun map_put :: "'k::linorder \<Rightarrow> 'v \<Rightarrow> ('k \<times> 'v) list \<Rightarrow> ('k \<times> 'v) list" where
  "map_put k v [] = [(k, v)]"
| "map_put k v ((k', v') # m) =
     (if k < k' then (k, v) # (k', v') # m
      else if k = k' then (k, v) # m
      else (k', v') # map_put k v m)"

definition map_erase_if :: "('k \<Rightarrow> bool) \<Rightarrow> ('k \<times> 'v) list \<Rightarrow> ('k \<times> 'v) list" where
  "map_erase_if P m = filter (\<lambda>(k, v). \<not> P k) m"

definition map_invar :: "('k::linorder \<times> 'v) list \<Rightarrow> bool" where
  "map_invar m = sorted_wrt (<) (map fst m)"

text \<open>The contract of an ordered map, and what its clients derive from it.\<close>

locale ordered_map =
  fixes empty :: "'m"
    and put :: "'k::linorder \<Rightarrow> 'v \<Rightarrow> 'm \<Rightarrow> 'm"
    and find :: "'m \<Rightarrow> 'k \<Rightarrow> 'v option"
    and entries :: "'m \<Rightarrow> ('k \<times> 'v) list"
    and invar :: "'m \<Rightarrow> bool"
  assumes find_empty: "find empty = (\<lambda>_. None)"
    and find_put: "invar m \<Longrightarrow> find (put k v m) = (find m)(k \<mapsto> v)"
    and invar_empty: "invar empty"
    and invar_put: "invar m \<Longrightarrow> invar (put k v m)"
    and find_entries: "invar m \<Longrightarrow> find m k = map_of (entries m) k"
    and sorted_entries: "invar m \<Longrightarrow> sorted_wrt (<) (map fst (entries m))"
begin

lemma entries_iff: "invar m \<Longrightarrow> (k, v) \<in> set (entries m) \<longleftrightarrow> find m k = Some v"
  using sorted_entries find_entries
  by (simp add: strict_sorted_iff)

lemma distinct_keys: "invar m \<Longrightarrow> distinct (map fst (entries m))"
  using sorted_entries strict_sorted_iff by blast

lemma entry_after_put:
  assumes "invar m" and "(k', v') \<in> set (entries (put k v m))"
  shows "k' = k \<and> v' = v \<or> (k', v') \<in> set (entries m)"
  using assms by (auto simp: entries_iff invar_put find_put split: if_splits)

lemma put_other: "invar m \<Longrightarrow> k' \<noteq> k \<Longrightarrow> find (put k v m) k' = find m k'"
  by (simp add: find_put)

lemma all_entries_put:
  assumes "invar m" and "P k v" and "\<forall>(k', v') \<in> set (entries m). P k' v'"
  shows "\<forall>(k', v') \<in> set (entries (put k v m)). P k' v'"
  using assms entry_after_put by fastforce

end

lemma map_put_keys: "set (map fst (map_put k v m)) = insert k (set (map fst m))"
  by (induction k v m rule: map_put.induct) auto

lemma map_put_invar: "map_invar m \<Longrightarrow> map_invar (map_put k v m)"
proof (induction k v m rule: map_put.induct)
  case (2 k v k' v' m)
  then show ?case
    using map_put_keys [of k v m] by (fastforce simp: map_invar_def)
qed (simp add: map_invar_def)

lemma map_of_map_put: "map_invar m \<Longrightarrow> map_of (map_put k v m) = (map_of m)(k \<mapsto> v)"
proof (induction k v m rule: map_put.induct)
  case (2 k v k' v' m)
  then show ?case by (auto simp: map_invar_def fun_eq_iff)
qed simp

interpretation stdmap: ordered_map "[]" map_put map_of "\<lambda>m. m" map_invar
  by unfold_locales (auto simp: map_of_map_put map_put_invar, simp_all add: map_invar_def)

lemma map_erase_if_invar: "map_invar m \<Longrightarrow> map_invar (map_erase_if P m)"
  unfolding map_invar_def map_erase_if_def
  by (induction m) auto

lemma map_of_map_erase_if:
  "map_of (map_erase_if P m) k = (if P k then None else map_of m k)"
  by (induction m) (auto simp: map_erase_if_def)

section \<open>Ordered sets\<close>

text \<open>
  \<^verbatim>\<open>std::set\<close> is the sorted list of its elements; insertion is the library's \<open>insort_insert\<close>.
\<close>

abbreviation set_insert :: "'a::linorder \<Rightarrow> 'a list \<Rightarrow> 'a list" where
  "set_insert \<equiv> insort_insert"

definition set_invar :: "'a::linorder list \<Rightarrow> bool" where
  "set_invar xs = sorted_wrt (<) xs"

definition set_insert_all :: "'a::linorder list \<Rightarrow> 'a list \<Rightarrow> 'a list" where
  "set_insert_all xs s = fold set_insert xs s"

lemma set_invar_iff: "set_invar xs \<longleftrightarrow> sorted xs \<and> distinct xs"
  by (simp add: set_invar_def strict_sorted_iff)

lemma set_invar_Nil [simp]: "set_invar []"
  by (simp add: set_invar_def)

lemma set_insert_invar [simp]: "set_invar s \<Longrightarrow> set_invar (set_insert x s)"
  by (simp add: set_invar_iff sorted_insort_insert distinct_insort_insert)

lemma set_set_insert [simp]: "set (set_insert x s) = insert x (set s)"
  by (simp add: set_insort_insert)

lemma set_insert_all_invar [simp]: "set_invar s \<Longrightarrow> set_invar (set_insert_all xs s)"
  unfolding set_insert_all_def by (induction xs arbitrary: s) auto

lemma set_set_insert_all [simp]: "set (set_insert_all xs s) = set xs \<union> set s"
  unfolding set_insert_all_def by (induction xs arbitrary: s) auto

lemma set_invar_unique: "set_invar s \<Longrightarrow> set_invar t \<Longrightarrow> set s = set t \<Longrightarrow> s = t"
  by (simp add: set_invar_iff sorted_distinct_set_unique)

end
