(* ===== verification/Numeric.thy ===== *)
theory Numeric
  imports Prelude
begin

text \<open>
  The 64-bit and 128-bit arithmetic of \<^verbatim>\<open>util/numeric.cpp\<close>: multiply-then-divide with an exact
  128-bit intermediate and explicit rounding. \<^verbatim>\<open>int64_t\<close> values are \<open>int\<close>s with the conversions
  to and from \<^verbatim>\<open>uint64_t\<close> written out; \<^verbatim>\<open>uint128_t\<close> is \<open>128 word\<close>. An out parameter that
  the code leaves unassigned is \<open>None\<close>.
\<close>

section \<open>Definitions\<close>

datatype Rounding = ROUND_DOWN | ROUND_UP

datatype arith_error = DomainError | OverflowError | AssertError

abbreviation INT64_MAX :: int where "INT64_MAX \<equiv> 9223372036854775807"

definition bigDivide_u64 :: "u64 \<Rightarrow> u64 \<Rightarrow> u64 \<Rightarrow> Rounding \<Rightarrow> arith_error + (bool \<times> u64)" where
  "bigDivide_u64 A B C rounding =
     (let a = ucast A :: u128; b = ucast B :: u128; c = ucast C :: u128 in
      if c = 0 then Inl DomainError
      else let x = (if rounding = ROUND_DOWN then (a * b) div c else (a * b + c - 1) div c)
           in Inr (x \<le> ucast UINT64_MAX, ucast x))"

definition bigDivide_i64 :: "int \<Rightarrow> int \<Rightarrow> int \<Rightarrow> Rounding \<Rightarrow> arith_error + (bool \<times> int option)" where
  "bigDivide_i64 A B C rounding =
     (if \<not> (A \<ge> 0 \<and> B \<ge> 0 \<and> C > 0) then Inl AssertError
      else bindR (bigDivide_u64 (word_of_int A) (word_of_int B) (word_of_int C) rounding)
             (\<lambda>(res, r2). if res then Inr (uint r2 \<le> INT64_MAX, Some (sint r2))
                          else Inr (False, None)))"

definition bigDivide_throw :: "int \<Rightarrow> int \<Rightarrow> int \<Rightarrow> Rounding \<Rightarrow> arith_error + int" where
  "bigDivide_throw A B C rounding =
     bindR (bigDivide_i64 A B C rounding)
       (\<lambda>(ok, res). case (ok, res) of (True, Some r) \<Rightarrow> Inr r | _ \<Rightarrow> Inl OverflowError)"

definition bigDivide128_u64 :: "u128 \<Rightarrow> u64 \<Rightarrow> Rounding \<Rightarrow> arith_error + (bool \<times> u64 option)" where
  "bigDivide128_u64 a B rounding =
     (if B = 0 then Inl AssertError
      else let b = ucast B :: u128 in
        if rounding = ROUND_UP \<and> a > - 1 - (b - 1) then Inr (False, None)
        else let x = (if rounding = ROUND_DOWN then a div b else (a + b - 1) div b)
             in Inr (x \<le> ucast UINT64_MAX, Some (ucast x)))"

definition bigDivide128_i64 :: "u128 \<Rightarrow> int \<Rightarrow> Rounding \<Rightarrow> arith_error + (bool \<times> int option)" where
  "bigDivide128_i64 a B rounding =
     (if \<not> B > 0 then Inl AssertError
      else bindR (bigDivide128_u64 a (word_of_int B) rounding)
             (\<lambda>(res, r2). case (res, r2) of
                 (True, Some r) \<Rightarrow> Inr (uint r \<le> INT64_MAX, Some (sint r))
               | _ \<Rightarrow> Inr (False, None)))"

definition bigDivide128_throw :: "u128 \<Rightarrow> int \<Rightarrow> Rounding \<Rightarrow> arith_error + int" where
  "bigDivide128_throw a B rounding =
     bindR (bigDivide128_i64 a B rounding)
       (\<lambda>(ok, res). case (ok, res) of (True, Some r) \<Rightarrow> Inr r | _ \<Rightarrow> Inl OverflowError)"

definition bigMultiply_u64 :: "u64 \<Rightarrow> u64 \<Rightarrow> u128" where
  "bigMultiply_u64 a b = ucast a * ucast b"

definition bigMultiply_i64 :: "int \<Rightarrow> int \<Rightarrow> arith_error + u128" where
  "bigMultiply_i64 a b =
     (if \<not> (a \<ge> 0 \<and> b \<ge> 0) then Inl AssertError
      else Inr (bigMultiply_u64 (word_of_int a) (word_of_int b)))"

text \<open>The mathematical quotient the routines are meant to compute.\<close>

definition exact_quotient :: "nat \<Rightarrow> nat \<Rightarrow> Rounding \<Rightarrow> nat" where
  "exact_quotient n d rounding =
     (case rounding of ROUND_DOWN \<Rightarrow> n div d | ROUND_UP \<Rightarrow> (n + d - 1) div d)"

section \<open>No intermediate overflow\<close>

lemma unat_u64_less: "unat (A :: u64) < 18446744073709551616"
  using unsigned_less [of A, where 'a = nat] by simp

lemma u64_prod_bound:
  "unat (A :: u64) * unat (B :: u64) \<le> 18446744073709551615 * 18446744073709551615"
  using unat_u64_less [of A] unat_u64_less [of B] by (intro mult_le_mono) auto

lemma unat_ucast_u64_u128 [word_nat]: "unat (ucast (A :: u64) :: u128) = unat A"
  using unat_u64_less [of A] by (simp add: unsigned_ucast_eq take_bit_eq_mod)

lemma unat_mult_u128:
  "unat ((ucast (A :: u64) :: u128) * ucast (B :: u64)) = unat A * unat B"
  using u64_prod_bound [of A B]
  by (subst unat_mult_lem [THEN iffD1]) (simp_all add: word_nat)

lemma unat_bigMultiply_u64: "unat (bigMultiply_u64 A B) = unat A * unat B"
  by (simp add: bigMultiply_u64_def unat_mult_u128)

lemma unat_roundup_u128:
  assumes "(c :: u128) \<noteq> 0" and "unat a + unat c - 1 < 2 ^ 128"
  shows "unat (a + c - 1) = unat a + unat c - 1"
proof -
  have c1: "unat (c - 1) = unat c - 1" and c0: "0 < unat c"
    using assms(1) by (simp_all add: word_nat unat_gt_0)
  have "unat (a + (c - 1)) = unat a + unat (c - 1)"
    using assms(2) c0 by (subst unat_add_lem [THEN iffD1]) (simp_all add: c1)
  then show ?thesis using c0 by (simp add: c1 add_diff_eq)
qed

lemma u128_le_u64_max: "(x :: u128) \<le> ucast UINT64_MAX \<longleftrightarrow> unat x \<le> 18446744073709551615"
  by (simp add: word_le_nat_alt word_nat)

lemma unat_ucast_u128_u64:
  "unat (x :: u128) \<le> 18446744073709551615 \<Longrightarrow> unat (ucast x :: u64) = unat x"
  by (simp add: unsigned_ucast_eq take_bit_eq_mod)

section \<open>Correctness\<close>

lemma bigDivide_u64_spec:
  assumes "C \<noteq> 0"
  obtains q where "bigDivide_u64 A B C r = Inr (exact_quotient (unat A * unat B) (unat C) r
                     \<le> 18446744073709551615, q)"
    and "exact_quotient (unat A * unat B) (unat C) r \<le> 18446744073709551615 \<Longrightarrow>
           unat q = exact_quotient (unat A * unat B) (unat C) r"
proof -
  let ?a = "ucast A :: u128" and ?b = "ucast B :: u128" and ?c = "ucast C :: u128"
  let ?x = "if r = ROUND_DOWN then (?a * ?b) div ?c else (?a * ?b + ?c - 1) div ?c"
  have uc: "unat ?c = unat C" by (rule unat_ucast_u64_u128)
  have c0: "?c \<noteq> 0" using assms by (metis uc unat_eq_zero)
  have "unat (?a * ?b) + unat ?c - 1 < 2 ^ 128"
    using u64_prod_bound [of A B] unat_u64_less [of C] by (simp add: unat_mult_u128 uc)
  then have up: "unat (?a * ?b + ?c - 1) = unat A * unat B + unat C - 1"
    using unat_roundup_u128 [OF c0] by (simp add: unat_mult_u128 uc)
  have x: "unat ?x = exact_quotient (unat A * unat B) (unat C) r"
    by (cases r) (simp_all add: exact_quotient_def unat_div unat_mult_u128 uc up)
  show ?thesis
  proof (rule that [of "ucast ?x"])
    show "bigDivide_u64 A B C r
        = Inr (exact_quotient (unat A * unat B) (unat C) r \<le> 18446744073709551615, ucast ?x)"
      using c0 by (simp only: bigDivide_u64_def Let_def if_False u128_le_u64_max x)
    show "unat (ucast ?x :: u64) = exact_quotient (unat A * unat B) (unat C) r"
      if "exact_quotient (unat A * unat B) (unat C) r \<le> 18446744073709551615"
      using that by (simp only: unat_ucast_u128_u64 x)
  qed
qed

lemma bigDivide128_u64_spec:
  assumes "B \<noteq> 0"
  shows "\<exists>q. bigDivide128_u64 a B r = Inr (exact_quotient (unat a) (unat B) r
            \<le> 18446744073709551615, q)
       \<and> (exact_quotient (unat a) (unat B) r \<le> 18446744073709551615 \<longrightarrow>
            map_option unat q = Some (exact_quotient (unat a) (unat B) r))"
proof -
  let ?b = "ucast B :: u128"
  let ?E = "exact_quotient (unat a) (unat B) r"
  have ub: "unat ?b = unat B" by (rule unat_ucast_u64_u128)
  have b0: "?b \<noteq> 0" using assms by (metis ub unat_eq_zero)
  have bpos: "0 < unat B" using assms by (simp add: unat_gt_0)
  have lim: "unat (- 1 - (?b - 1) :: u128) = 340282366920938463463374607431768211455 - (unat B - 1)"
  proof -
    have "unat (- 1 - (?b - 1) :: u128) = unat (- 1 :: u128) - unat (?b - 1)"
      by (rule unat_sub) simp
    then show ?thesis
      by (simp only: unat_dec [OF b0] ub) (simp add: unsigned_minus_1_eq_mask mask_eq_exp_minus_1)
  qed
  then have lim': "unat (- ?b) = 340282366920938463463374607431768211455 - (unat B - 1)"
    by simp
  show ?thesis
  proof (cases "r = ROUND_UP \<and> a > - 1 - (?b - 1)")
    case True
    then have big: "340282366920938463463374607431768211455 < unat a + (unat B - 1)"
      using unat_u64_less [of B] by (auto simp: word_less_nat_alt lim')
    then have "18446744073709551616 * unat B \<le> unat a + unat B - 1"
      using unat_u64_less [of B] bpos by linarith
    then have "18446744073709551616 \<le> (unat a + unat B - 1) div unat B"
      using bpos by (simp add: less_eq_div_iff_mult_less_eq mult.commute)
    with True have "\<not> ?E \<le> 18446744073709551615"
      by (simp add: exact_quotient_def)
    with True assms show ?thesis by (simp add: bigDivide128_u64_def)
  next
    case False
    have "unat (a + ?b - 1) = unat a + unat B - 1" if "r = ROUND_UP"
    proof -
      have "unat a \<le> 340282366920938463463374607431768211455 - (unat B - 1)"
        using False that by (simp add: word_less_nat_alt lim' not_less)
      then have "unat a + unat ?b - 1 < 2 ^ 128"
        using unat_u64_less [of B] bpos by (simp add: ub)
      then show ?thesis using unat_roundup_u128 [OF b0] by (simp add: ub)
    qed
    then have x: "unat (if r = ROUND_DOWN then a div ?b else (a + ?b - 1) div ?b) = ?E"
      by (cases r) (simp_all add: exact_quotient_def unat_div ub)
    show ?thesis
    proof (intro exI conjI impI)
      show "bigDivide128_u64 a B r = Inr (?E \<le> 18446744073709551615,
          Some (ucast (if r = ROUND_DOWN then a div ?b else (a + ?b - 1) div ?b)))"
        using False assms by (simp only: bigDivide128_u64_def Let_def if_False u128_le_u64_max x)
      show "map_option unat (Some (ucast (if r = ROUND_DOWN then a div ?b
               else (a + ?b - 1) div ?b) :: u64)) = Some ?E"
        if "?E \<le> 18446744073709551615"
        using that by (simp only: option.map unat_ucast_u128_u64 x)
    qed
  qed
qed

lemma unat_word_of_int_u64:
  "0 \<le> A \<Longrightarrow> A \<le> INT64_MAX \<Longrightarrow> unat (word_of_int A :: u64) = nat A"
  by (simp add: unsigned_of_int take_bit_int_eq_self)

lemma sint_u64_small: "uint (q :: u64) \<le> INT64_MAX \<Longrightarrow> sint q = uint q"
  using signed_take_bit_int_eq_self [of 63 "uint q"] order_trans [OF _ uint_ge_0 [of q]]
  by (simp add: sint_uint)

lemma uint_le_INT64_MAX: "uint (q :: u64) \<le> INT64_MAX \<longleftrightarrow> unat q \<le> 9223372036854775807"
proof -
  have "uint q \<le> INT64_MAX \<longleftrightarrow> int (unat q) \<le> INT64_MAX" by (simp only: uint_nat)
  also have "\<dots> \<longleftrightarrow> unat q \<le> 9223372036854775807" by linarith
  finally show ?thesis .
qed

lemma sint_u64_nat: "unat (q :: u64) \<le> 9223372036854775807 \<Longrightarrow> sint q = int (unat q)"
  using sint_u64_small [of q] uint_le_INT64_MAX [of q] uint_nat [of q] by simp

lemma bigDivide_throw_cases:
  assumes "0 \<le> A" "A \<le> INT64_MAX" "0 \<le> B" "B \<le> INT64_MAX" "0 < C" "C \<le> INT64_MAX"
  shows "bigDivide_throw A B C r =
    (let q = exact_quotient (nat A * nat B) (nat C) r
     in if q \<le> 9223372036854775807 then Inr (int q) else Inl OverflowError)"
proof -
  have C0: "(word_of_int C :: u64) \<noteq> 0"
    using assms unat_word_of_int_u64 [of C] by (metis nat_0_iff not_le order_less_imp_le unat_0)
  define E where "E = exact_quotient (nat A * nat B) (nat C) r"
  obtain q where q: "bigDivide_u64 (word_of_int A) (word_of_int B) (word_of_int C) r
      = Inr (E \<le> 18446744073709551615, q)"
    and qv: "E \<le> 18446744073709551615 \<Longrightarrow> unat q = E"
    using bigDivide_u64_spec [OF C0, of "word_of_int A" "word_of_int B" r] assms
    by (auto simp: E_def unat_word_of_int_u64)
  show ?thesis
    using assms qv
    by (auto simp: bigDivide_throw_def bigDivide_i64_def q E_def [symmetric] uint_le_INT64_MAX
        sint_u64_nat )
qed

lemma bigDivide128_throw_cases:
  assumes "0 < B" "B \<le> INT64_MAX"
  shows "bigDivide128_throw a B r =
    (let q = exact_quotient (unat a) (nat B) r
     in if q \<le> 9223372036854775807 then Inr (int q) else Inl OverflowError)"
proof -
  have B0: "(word_of_int B :: u64) \<noteq> 0"
    using assms unat_word_of_int_u64 [of B] by (metis nat_0_iff not_le order_less_imp_le unat_0)
  define E where "E = exact_quotient (unat a) (nat B) r"
  obtain q where q: "bigDivide128_u64 a (word_of_int B) r = Inr (E \<le> 18446744073709551615, q)"
    and qv: "E \<le> 18446744073709551615 \<Longrightarrow> map_option unat q = Some E"
    using bigDivide128_u64_spec [OF B0, of a r] assms
    by (auto simp: E_def unat_word_of_int_u64)
  show ?thesis
    using assms qv
    by (cases "E \<le> 18446744073709551615")
      (auto simp: bigDivide128_throw_def bigDivide128_i64_def q E_def [symmetric]
        uint_le_INT64_MAX sint_u64_nat  split: option.splits bool.splits)
qed

text \<open>Rounding up is the least integer above the quotient, rounding down the greatest below it.\<close>

lemma exact_quotient_up_le: "0 < d \<Longrightarrow> exact_quotient n d ROUND_UP \<le> m \<longleftrightarrow> n \<le> m * d"
proof -
  assume d: "0 < d"
  have "exact_quotient n d ROUND_UP \<le> m \<longleftrightarrow> (n + d - 1) div d < Suc m"
    by (auto simp: exact_quotient_def)
  also have "\<dots> \<longleftrightarrow> n + d - 1 < Suc m * d"
    using d by (simp add: div_less_iff_less_mult)
  also have "\<dots> \<longleftrightarrow> n + d \<le> m * d + d" using d by auto
  also have "\<dots> \<longleftrightarrow> n \<le> m * d" by simp
  finally show ?thesis .
qed

lemma le_exact_quotient_down: "0 < d \<Longrightarrow> m \<le> exact_quotient n d ROUND_DOWN \<longleftrightarrow> m * d \<le> n"
  by (simp add: exact_quotient_def less_eq_div_iff_mult_less_eq)

section \<open>Properties\<close>

lemma exact_quotient_bracket:
  assumes "0 < d"
  shows "q = exact_quotient n d r \<longleftrightarrow>
    (case r of ROUND_DOWN \<Rightarrow> q * d \<le> n \<and> n < (q + 1) * d
             | ROUND_UP \<Rightarrow> n \<le> q * d \<and> q * d < n + d)"
proof (cases r)
  case ROUND_DOWN
  then show ?thesis using assms
    by (auto simp: exact_quotient_def div_nat_eqI dividend_less_times_div mult.commute)
next
  case ROUND_UP
  have "q * d \<le> n + d - 1 \<and> n + d - 1 < (q + 1) * d \<longleftrightarrow> n \<le> q * d \<and> q * d < n + d"
    using assms by auto
  moreover have "q = (n + d - 1) div d \<longleftrightarrow> q * d \<le> n + d - 1 \<and> n + d - 1 < (q + 1) * d"
    using assms dividend_less_times_div [of d "n + d - 1"]
    by (auto simp: div_nat_eqI mult.commute)
  ultimately show ?thesis using ROUND_UP by (simp add: exact_quotient_def)
qed

text \<open>C25: On non-negative 64-bit operands with a positive divisor \<^verbatim>\<open>bigDivide\<close> returns exactly the
  mathematical quotient of \<open>A * B\<close> by \<open>C\<close>, rounded the way the caller asked, whenever that quotient
  fits an \<^verbatim>\<open>int64_t\<close>; otherwise, and only then, it throws the overflow error. No other outcome exists.\<close>

theorem bigDivide_correct:
  assumes "0 \<le> A" "A \<le> INT64_MAX" "0 \<le> B" "B \<le> INT64_MAX" "0 < C" "C \<le> INT64_MAX"
  shows "(bigDivide_throw A B C r = Inr (int q) \<longleftrightarrow>
            q \<le> 9223372036854775807 \<and>
            (case r of ROUND_DOWN \<Rightarrow> q * nat C \<le> nat A * nat B \<and> nat A * nat B < (q + 1) * nat C
                     | ROUND_UP \<Rightarrow> nat A * nat B \<le> q * nat C \<and> q * nat C < nat A * nat B + nat C)) \<and>
         (bigDivide_throw A B C r = Inl OverflowError \<or> (\<exists>q. bigDivide_throw A B C r = Inr (int q)))"
  using exact_quotient_bracket [of "nat C" q "nat A * nat B" r] assms
  by (auto simp: bigDivide_throw_cases [OF assms] Let_def)

theorem bigDivide_correct_witness:
  "bigDivide_throw 7 5 4 ROUND_UP = Inr (int 9) \<and> bigDivide_throw 7 5 4 ROUND_DOWN = Inr (int 8)"
  using bigDivide_correct [of 7 5 4 ROUND_UP 9] bigDivide_correct [of 7 5 4 ROUND_DOWN 8] by simp

text \<open>C26: Multiplying into 128 bits and dividing the product with the 128-bit routine is the same as
  the one-step \<^verbatim>\<open>bigDivide\<close>, errors included: the extra overflow test of the 128-bit rounding never
  fires on a product of two \<^verbatim>\<open>int64_t\<close> values.\<close>

theorem bigMultiply_bigDivide128_equiv:
  assumes "0 \<le> A" "A \<le> INT64_MAX" "0 \<le> B" "B \<le> INT64_MAX" "0 < C" "C \<le> INT64_MAX"
  shows "bindR (bigMultiply_i64 A B) (\<lambda>p. bigDivide128_throw p C r) = bigDivide_throw A B C r"
  using assms
  by (simp add: bigMultiply_i64_def bigDivide_throw_cases bigDivide128_throw_cases
      unat_bigMultiply_u64 unat_word_of_int_u64)

theorem bigMultiply_bigDivide128_equiv_witness:
  "bindR (bigMultiply_i64 INT64_MAX INT64_MAX) (\<lambda>p. bigDivide128_throw p INT64_MAX ROUND_UP)
     = Inr INT64_MAX"
  using bigMultiply_bigDivide128_equiv [of INT64_MAX INT64_MAX INT64_MAX ROUND_UP]
  by (simp add: bigDivide_throw_cases exact_quotient_def)

end
