(* ===== verification/SCPTypes.thy ===== *)
theory SCPTypes
  imports Prelude
begin

text \<open>
  The wire types of the consensus protocol (\<^verbatim>\<open>xdr/Stellar-SCP.x\<close>): values, ballots, quorum sets,
  the four kinds of statements and their envelopes. A node identifier and a hash are 32 opaque
  bytes, compared as byte strings, hence as 256-bit unsigned words; a value is a byte string with
  the lexicographic order of \<^verbatim>\<open>std::vector\<close>.
\<close>

type_synonym Value = "u8 list"
type_synonym NodeID = u256
type_synonym Hash = u256
type_synonym Signature = "u8 list"

datatype SCPBallot = SCPBallot (counter: u32) (bvalue: Value)

datatype SCPQuorumSet =
  SCPQuorumSet (threshold: u32) (validators: "NodeID list") (innerSets: "SCPQuorumSet list")

datatype SCPPledges =
    SCP_ST_PREPARE (quorumSetHash: Hash) (ballot: SCPBallot) (prepared: "SCPBallot option")
      (preparedPrime: "SCPBallot option") (nC: u32) (nH: u32)
  | SCP_ST_CONFIRM (ballot: SCPBallot) (nPrepared: u32) (nCommit: u32) (nH: u32)
      (quorumSetHash: Hash)
  | SCP_ST_EXTERNALIZE (commit: SCPBallot) (nH: u32) (commitQuorumSetHash: Hash)
  | SCP_ST_NOMINATE (quorumSetHash: Hash) (votes: "Value list") (accepted: "Value list")

record SCPStatement =
  nodeID :: NodeID
  slotIndex :: u64
  pledges :: SCPPledges

record SCPEnvelope =
  statement :: SCPStatement
  signature :: Signature

text \<open>The discriminant of the union: the numeric order of \<^verbatim>\<open>enum SCPStatementType\<close>.\<close>

fun pledgeType :: "SCPPledges \<Rightarrow> nat" where
  "pledgeType (SCP_ST_PREPARE _ _ _ _ _ _) = 0"
| "pledgeType (SCP_ST_CONFIRM _ _ _ _ _) = 1"
| "pledgeType (SCP_ST_EXTERNALIZE _ _ _) = 2"
| "pledgeType (SCP_ST_NOMINATE _ _ _) = 3"

abbreviation isNominate :: "SCPPledges \<Rightarrow> bool" where
  "isNominate pl \<equiv> is_SCP_ST_NOMINATE pl"

text \<open>
  XDR structures compare field by field, so ballots are ordered by counter and then by value; this
  is the order of \<^verbatim>\<open>std::set<SCPBallot>\<close>.
\<close>

instantiation SCPBallot :: linorder
begin

definition less_SCPBallot :: "SCPBallot \<Rightarrow> SCPBallot \<Rightarrow> bool" where
  "less_SCPBallot a b \<longleftrightarrow> counter a < counter b \<or> counter a = counter b \<and> bvalue a < bvalue b"

definition less_eq_SCPBallot :: "SCPBallot \<Rightarrow> SCPBallot \<Rightarrow> bool" where
  "less_eq_SCPBallot a b \<longleftrightarrow> counter a < counter b \<or> counter a = counter b \<and> bvalue a \<le> bvalue b"

instance
proof
  fix x y z :: SCPBallot
  show "x < y \<longleftrightarrow> x \<le> y \<and> \<not> y \<le> x"
    by (auto simp: less_SCPBallot_def less_eq_SCPBallot_def)
  show "x \<le> x" by (simp add: less_eq_SCPBallot_def)
  show "x \<le> y \<Longrightarrow> y \<le> z \<Longrightarrow> x \<le> z" by (auto simp: less_eq_SCPBallot_def)
  show "x \<le> y \<Longrightarrow> y \<le> x \<Longrightarrow> x = y"
    by (cases x; cases y) (auto simp: less_eq_SCPBallot_def)
  show "x \<le> y \<or> y \<le> x" by (auto simp: less_eq_SCPBallot_def)
qed

end

lemma ballot_less_simps [simp]:
  "SCPBallot n x < SCPBallot m y \<longleftrightarrow> n < m \<or> n = m \<and> x < y"
  "SCPBallot n x \<le> SCPBallot m y \<longleftrightarrow> n < m \<or> n = m \<and> x \<le> y"
  by (simp_all add: less_SCPBallot_def less_eq_SCPBallot_def)

lemma ballot_eqI: "counter a = counter b \<Longrightarrow> bvalue a = bvalue b \<Longrightarrow> a = b"
  by (rule SCPBallot.expand) simp

lemma ballot_le_counter: "(a :: SCPBallot) \<le> b \<Longrightarrow> counter a \<le> counter b"
  by (auto simp: less_eq_SCPBallot_def)

lemma ballot_less_counter: "counter a < counter b \<Longrightarrow> (a :: SCPBallot) < b"
  by (simp add: less_SCPBallot_def)

lemma ballot_compatible_le: "bvalue a = bvalue b \<Longrightarrow> (a \<le> b) = (counter a \<le> counter b)"
  by (auto simp: less_eq_SCPBallot_def)

end
