(* ===== verification/QuorumSetUtils.thy ===== *)
theory QuorumSetUtils
  imports SCPTypes
begin

text \<open>
  Quorum sets: the sanity check and the normal form of \<^verbatim>\<open>scp/QuorumSetUtils.cpp\<close>.
\<close>

section \<open>Sanity check\<close>

text \<open>
  The checker's state is the set of nodes met so far and the number of validators counted; each
  early \<^verbatim>\<open>return false\<close> of the code leaves the state as it is at that point.
\<close>

fun insertKnownNodes :: "NodeID list \<Rightarrow> NodeID list \<Rightarrow> bool \<times> NodeID list" where
  "insertKnownNodes [] known = (True, known)"
| "insertKnownNodes (n # ns) known =
     (if n \<in> set known then (False, known) else insertKnownNodes ns (set_insert n known))"

fun checkSanity :: "bool \<Rightarrow> SCPQuorumSet \<Rightarrow> int \<Rightarrow> NodeID list \<times> nat \<Rightarrow> bool \<times> (NodeID list \<times> nat)"
  and checkSanityInner ::
    "bool \<Rightarrow> SCPQuorumSet list \<Rightarrow> int \<Rightarrow> NodeID list \<times> nat \<Rightarrow> bool \<times> (NodeID list \<times> nat)" where
  "checkSanity extraChecks (SCPQuorumSet t v i) depth (mKnownNodes, mCount) =
     (if depth > 2 then (False, (mKnownNodes, mCount))
      else if t < 1 then (False, (mKnownNodes, mCount))
      else
        let totEntries = length v + length i;
            vBlockingSize = int totEntries - int (unat t) + 1;
            mCount = mCount + length v
        in if unat t > totEntries then (False, (mKnownNodes, mCount))
           else if extraChecks \<and> int (unat t) < vBlockingSize then (False, (mKnownNodes, mCount))
           else case insertKnownNodes v mKnownNodes of
               (False, known) \<Rightarrow> (False, (known, mCount))
             | (True, known) \<Rightarrow> checkSanityInner extraChecks i depth (known, mCount))"
| "checkSanityInner extraChecks [] depth st = (True, st)"
| "checkSanityInner extraChecks (iSet # iSets) depth st =
     (case checkSanity extraChecks iSet (depth + 1) st of
        (False, st') \<Rightarrow> (False, st')
      | (True, st') \<Rightarrow> checkSanityInner extraChecks iSets depth st')"

definition isQuorumSetSane :: "SCPQuorumSet \<Rightarrow> bool \<Rightarrow> bool" where
  "isQuorumSetSane qSet extraChecks =
     (case checkSanity extraChecks qSet 0 ([], 0) of
        (ok, (mKnownNodes, mCount)) \<Rightarrow> ok \<and> mCount \<ge> 1 \<and> mCount \<le> 1000)"

section \<open>Normal form\<close>

definition isSingleton :: "SCPQuorumSet \<Rightarrow> bool" where
  "isSingleton q \<longleftrightarrow> threshold q = 1 \<and> length (validators q) = 1 \<and> length (innerSets q) = 0"

fun normalizeQSet :: "SCPQuorumSet \<Rightarrow> NodeID option \<Rightarrow> SCPQuorumSet"
  and normalizeInner ::
    "SCPQuorumSet list \<Rightarrow> NodeID option \<Rightarrow> NodeID list \<times> SCPQuorumSet list" where
  "normalizeQSet (SCPQuorumSet t v i) idToRemove =
     (let v0 = (case idToRemove of None \<Rightarrow> v | Some x \<Rightarrow> filter (\<lambda>n. n \<noteq> x) v);
          t0 = t - of_nat (length v - length v0);
          (merged, i') = normalizeInner i idToRemove;
          v' = v0 @ merged
      in if t0 = 1 \<and> length v' = 0 \<and> length i' = 1 then last i' else SCPQuorumSet t0 v' i')"
| "normalizeInner [] idToRemove = ([], [])"
| "normalizeInner (q # qs) idToRemove =
     (let q' = normalizeQSet q idToRemove;
          (merged, i') = normalizeInner qs idToRemove
      in if isSingleton q' then (hd (validators q') # merged, i') else (merged, q' # i'))"

section \<open>What a sane quorum set is\<close>

text \<open>All validators of a quorum set in the order of traversal, its nesting depth, and the
  condition on thresholds, level by level.\<close>

fun qset_nodes :: "SCPQuorumSet \<Rightarrow> NodeID list" where
  "qset_nodes (SCPQuorumSet t v i) = v @ concat (map qset_nodes i)"

fun qset_depth :: "SCPQuorumSet \<Rightarrow> nat" where
  "qset_depth (SCPQuorumSet t v i) = (if i = [] then 0 else Suc (Max (set (map qset_depth i))))"

fun thresholds_ok :: "bool \<Rightarrow> SCPQuorumSet \<Rightarrow> bool" where
  "thresholds_ok extra (SCPQuorumSet t v i) \<longleftrightarrow>
     1 \<le> unat t \<and> unat t \<le> length v + length i \<and>
     (extra \<longrightarrow> length v + length i + 1 \<le> 2 * unat t) \<and>
     list_all (thresholds_ok extra) i"

lemma insertKnownNodes_ok:
  "fst (insertKnownNodes ns known) \<longleftrightarrow> distinct ns \<and> set ns \<inter> set known = {}"
  by (induction ns known rule: insertKnownNodes.induct) auto

lemma insertKnownNodes_set:
  "fst (insertKnownNodes ns known) \<Longrightarrow> set (snd (insertKnownNodes ns known)) = set ns \<union> set known"
  by (induction ns known rule: insertKnownNodes.induct) auto

definition sane_at :: "bool \<Rightarrow> int \<Rightarrow> SCPQuorumSet \<Rightarrow> bool" where
  "sane_at extra depth q \<longleftrightarrow> depth + int (qset_depth q) \<le> 2 \<and> thresholds_ok extra q"

lemma sane_at_simps:
  "sane_at extra depth (SCPQuorumSet t v i) \<longleftrightarrow>
     depth \<le> 2 \<and> 1 \<le> unat t \<and> unat t \<le> length v + length i \<and>
     (extra \<longrightarrow> length v + length i + 1 \<le> 2 * unat t) \<and> (\<forall>q \<in> set i. sane_at extra (depth + 1) q)"
proof -
  have "depth + int (qset_depth (SCPQuorumSet t v i)) \<le> 2 \<longleftrightarrow>
      depth \<le> 2 \<and> (\<forall>q \<in> set i. depth + 1 + int (qset_depth q) \<le> 2)"
  proof (cases "i = []")
    case False
    let ?M = "Max (qset_depth ` set i)"
    have "\<forall>q \<in> set i. qset_depth q \<le> ?M" and "?M \<in> qset_depth ` set i"
      using False by (auto intro: Max_in)
    then show ?thesis using False by (force simp: image_iff)
  qed simp
  then show ?thesis by (auto simp: sane_at_def list_all_iff)
qed

definition sanity_result ::
  "bool \<Rightarrow> NodeID list \<Rightarrow> NodeID list \<times> nat \<Rightarrow> bool \<times> (NodeID list \<times> nat) \<Rightarrow> bool" where
  "sanity_result shape nodes st r \<longleftrightarrow>
     (fst r \<longleftrightarrow> shape \<and> distinct nodes \<and> set nodes \<inter> set (fst st) = {}) \<and>
     (fst r \<longrightarrow> set (fst (snd r)) = set nodes \<union> set (fst st) \<and>
                snd (snd r) = snd st + length nodes)"

lemma checkSanity_result:
  "sanity_result (sane_at extra depth q) (qset_nodes q) st (checkSanity extra q depth st)"
  "sanity_result (\<forall>q \<in> set qs. sane_at extra (depth + 1) q) (concat (map qset_nodes qs)) st
     (checkSanityInner extra qs depth st)"
proof (induction extra q depth st and extra qs depth st rule: checkSanity_checkSanityInner.induct)
  case (1 extra t v i depth known count)
  show ?case
  proof (cases "depth > 2 \<or> t < 1 \<or> unat t > length v + length i \<or>
      extra \<and> int (unat t) < int (length v + length i) - int (unat t) + 1")
    case True
    then show ?thesis
      by (auto simp: sanity_result_def sane_at_simps Let_def unat_eq_zero word_less_nat_alt
           simp flip: word_gt_0)
  next
    case False
    then have shape: "sane_at extra depth (SCPQuorumSet t v i) \<longleftrightarrow>
        (\<forall>q \<in> set i. sane_at extra (depth + 1) q)"
      by (auto simp: sane_at_simps word_less_nat_alt )
    obtain ok known' where ins: "insertKnownNodes v known = (ok, known')" by fastforce
    have eq: "checkSanity extra (SCPQuorumSet t v i) depth (known, count) =
        (if ok then checkSanityInner extra i depth (known', count + length v)
         else (False, (known', count + length v)))"
      using False ins by (auto simp: Let_def)
    have ok: "ok \<longleftrightarrow> distinct v \<and> set v \<inter> set known = {}"
      and known': "ok \<Longrightarrow> set known' = set v \<union> set known"
      using insertKnownNodes_ok [of v known] insertKnownNodes_set [of v known] ins by auto
    have IH: "ok \<Longrightarrow> sanity_result (\<forall>q \<in> set i. sane_at extra (depth + 1) q)
        (concat (map qset_nodes i)) (known', count + length v)
        (checkSanityInner extra i depth (known', count + length v))"
      using "1.IH" False ins by (auto simp: Let_def)
    show ?thesis
    proof (cases ok)
      case True
      with IH known' ok show ?thesis
        unfolding eq shape by (simp add: sanity_result_def) blast
    next
      case False
      with ok show ?thesis unfolding eq by (auto simp: sanity_result_def)
    qed
  qed
next
  case (3 extra q qs depth st)
  obtain ok st' where q: "checkSanity extra q (depth + 1) st = (ok, st')"
    by (cases "checkSanity extra q (depth + 1) st")
  show ?case
    using "3.IH" q by (cases ok) (auto simp: sanity_result_def)
qed (simp add: sanity_result_def)

theorem isQuorumSetSane_iff:
  "isQuorumSetSane q extra \<longleftrightarrow>
     qset_depth q \<le> 2 \<and> thresholds_ok extra q \<and> distinct (qset_nodes q) \<and>
     1 \<le> length (qset_nodes q) \<and> length (qset_nodes q) \<le> 1000"
  using checkSanity_result(1) [of extra 0 q "([], 0)"]
  by (auto simp: isQuorumSetSane_def sanity_result_def sane_at_def split: prod.splits)

end
