(* ===== verification/LocalNode.thy ===== *)
theory LocalNode
  imports QuorumSetUtils Numeric
begin

text \<open>
  Quorum logic of \<^verbatim>\<open>scp/LocalNode.cpp\<close>: quorum slices, v-blocking sets, quorums, node weights and
  the closest v-blocking set. Vectors of node identifiers are lists; the counters the code
  decrements keep their machine width.
\<close>

section \<open>Definitions\<close>

subsection \<open>Singleton quorum sets and traversal\<close>

definition buildSingletonQSet :: "NodeID \<Rightarrow> SCPQuorumSet" where
  "buildSingletonQSet n = SCPQuorumSet 1 [n] []"

definition getSingletonQSet :: "NodeID \<Rightarrow> SCPQuorumSet option" where
  "getSingletonQSet n = Some (buildSingletonQSet n)"

text \<open>\<open>forAllNodesInternal\<close> is the sequence of nodes the code passes to \<^verbatim>\<open>proc\<close>; \<open>forAllNodes\<close>
  passes each node once, at its first occurrence.\<close>

fun forAllNodesInternal :: "SCPQuorumSet \<Rightarrow> NodeID list" where
  "forAllNodesInternal (SCPQuorumSet t v i) = v @ concat (map forAllNodesInternal i)"

fun firstOccurrences :: "NodeID list \<Rightarrow> NodeID list \<Rightarrow> NodeID list" where
  "firstOccurrences seen [] = []"
| "firstOccurrences seen (n # ns) =
     (if n \<in> set seen then firstOccurrences seen ns
      else n # firstOccurrences (set_insert n seen) ns)"

definition forAllNodes :: "SCPQuorumSet \<Rightarrow> NodeID list" where
  "forAllNodes qset = firstOccurrences [] (forAllNodesInternal qset)"

subsection \<open>Node weight\<close>

text \<open>The quotient of \<^verbatim>\<open>bigDivide\<close>, whose status the code ignores; the divisor is the number of
  entries of a set in which the node was found, hence not zero.\<close>

definition weightDivide :: "u64 \<Rightarrow> u64 \<Rightarrow> u64 \<Rightarrow> u64" where
  "weightDivide A n d = (case bigDivide_u64 A n d ROUND_UP of Inr (_, res) \<Rightarrow> res | Inl _ \<Rightarrow> 0)"

fun getNodeWeight :: "NodeID \<Rightarrow> SCPQuorumSet \<Rightarrow> u64"
  and innerWeight :: "NodeID \<Rightarrow> u64 \<Rightarrow> u64 \<Rightarrow> SCPQuorumSet list \<Rightarrow> u64" where
  "getNodeWeight nid (SCPQuorumSet t v i) =
     (let n = ucast t; d = of_nat (length i + length v) in
      if nid \<in> set v then weightDivide UINT64_MAX n d else innerWeight nid n d i)"
| "innerWeight nid n d [] = 0"
| "innerWeight nid n d (q # qs) =
     (let leafW = getNodeWeight nid q in
      if leafW \<noteq> 0 then weightDivide leafW n d else innerWeight nid n d qs)"

subsection \<open>Quorum slices\<close>

text \<open>The loop over the validators: \<open>None\<close> when it returns \<^verbatim>\<open>true\<close>, else the threshold left.\<close>

fun sliceValidators :: "NodeID list \<Rightarrow> NodeID list \<Rightarrow> u32 \<Rightarrow> u32 option" where
  "sliceValidators [] nodeSet thresholdLeft = Some thresholdLeft"
| "sliceValidators (v # vs) nodeSet thresholdLeft =
     (if v \<in> set nodeSet
      then let left = thresholdLeft - 1 in
           if left \<le> 0 then None else sliceValidators vs nodeSet left
      else sliceValidators vs nodeSet thresholdLeft)"

fun isQuorumSliceInternal :: "SCPQuorumSet \<Rightarrow> NodeID list \<Rightarrow> bool"
  and sliceInner :: "SCPQuorumSet list \<Rightarrow> NodeID list \<Rightarrow> u32 \<Rightarrow> bool" where
  "isQuorumSliceInternal (SCPQuorumSet t v i) nodeSet =
     (case sliceValidators v nodeSet t of
        None \<Rightarrow> True
      | Some thresholdLeft \<Rightarrow> sliceInner i nodeSet thresholdLeft)"
| "sliceInner [] nodeSet thresholdLeft = False"
| "sliceInner (inner # inners) nodeSet thresholdLeft =
     (if isQuorumSliceInternal inner nodeSet
      then let left = thresholdLeft - 1 in
           if left \<le> 0 then True else sliceInner inners nodeSet left
      else sliceInner inners nodeSet thresholdLeft)"

definition isQuorumSlice :: "SCPQuorumSet \<Rightarrow> NodeID list \<Rightarrow> bool" where
  "isQuorumSlice qSet nodeSet = isQuorumSliceInternal qSet nodeSet"

subsection \<open>V-blocking sets\<close>

text \<open>\<^verbatim>\<open>(int)((1 + validators + innerSets) - threshold)\<close>: a 64-bit difference cut to a signed
  32-bit integer.\<close>

definition initialLeftTillBlock :: "SCPQuorumSet \<Rightarrow> int" where
  "initialLeftTillBlock q =
     sint (ucast (1 + of_nat (length (validators q)) + of_nat (length (innerSets q))
                    - ucast (threshold q) :: u64) :: u32)"

fun blockValidators :: "NodeID list \<Rightarrow> NodeID list \<Rightarrow> int \<Rightarrow> int option" where
  "blockValidators [] nodeSet leftTillBlock = Some leftTillBlock"
| "blockValidators (v # vs) nodeSet leftTillBlock =
     (if v \<in> set nodeSet
      then let left = leftTillBlock - 1 in
           if left \<le> 0 then None else blockValidators vs nodeSet left
      else blockValidators vs nodeSet leftTillBlock)"

fun isVBlockingInternal :: "SCPQuorumSet \<Rightarrow> NodeID list \<Rightarrow> bool"
  and blockInner :: "SCPQuorumSet list \<Rightarrow> NodeID list \<Rightarrow> int \<Rightarrow> bool" where
  "isVBlockingInternal (SCPQuorumSet t v i) nodeSet =
     (if t = 0 then False
      else case blockValidators v nodeSet (initialLeftTillBlock (SCPQuorumSet t v i)) of
             None \<Rightarrow> True
           | Some leftTillBlock \<Rightarrow> blockInner i nodeSet leftTillBlock)"
| "blockInner [] nodeSet leftTillBlock = False"
| "blockInner (inner # inners) nodeSet leftTillBlock =
     (if isVBlockingInternal inner nodeSet
      then let left = leftTillBlock - 1 in
           if left \<le> 0 then True else blockInner inners nodeSet left
      else blockInner inners nodeSet leftTillBlock)"

definition isVBlocking :: "SCPQuorumSet \<Rightarrow> NodeID list \<Rightarrow> bool" where
  "isVBlocking qSet nodeSet = isVBlockingInternal qSet nodeSet"

subsection \<open>Predicates over a map of envelopes\<close>

type_synonym EnvMap = "(NodeID \<times> SCPEnvelope) list"

definition filterNodes :: "EnvMap \<Rightarrow> (SCPStatement \<Rightarrow> bool) \<Rightarrow> NodeID list" where
  "filterNodes m filt = map fst (filter (\<lambda>(n, env). filt (statement env)) m)"

definition isVBlockingMap :: "SCPQuorumSet \<Rightarrow> EnvMap \<Rightarrow> (SCPStatement \<Rightarrow> bool) \<Rightarrow> bool" where
  "isVBlockingMap qSet m filt = isVBlocking qSet (filterNodes m filt)"

definition quorumFilter ::
  "EnvMap \<Rightarrow> (SCPStatement \<Rightarrow> SCPQuorumSet option) \<Rightarrow> NodeID list \<Rightarrow> NodeID \<Rightarrow> bool" where
  "quorumFilter m qfun pNodes n =
     (case map_of m n of
        None \<Rightarrow> False
      | Some env \<Rightarrow> (case qfun (statement env) of
                       Some q \<Rightarrow> isQuorumSlice q pNodes
                     | None \<Rightarrow> False))"

text \<open>The \<^verbatim>\<open>do ... while (count != pNodes.size())\<close> loop: keep the nodes whose quorum set is satisfied
  by the nodes that are left, until nothing more is dropped.\<close>

function quorumLoop :: "(NodeID list \<Rightarrow> NodeID \<Rightarrow> bool) \<Rightarrow> NodeID list \<Rightarrow> NodeID list" where
  "quorumLoop keep pNodes =
     (let fNodes = filter (keep pNodes) pNodes in
      if length fNodes = length pNodes then fNodes else quorumLoop keep fNodes)"
  by pat_completeness auto
termination
proof (relation "measure (\<lambda>(keep, pNodes). length pNodes)", goal_cases)
  case (2 keep pNodes fNodes)
  then show ?case
    using le_neq_implies_less [OF length_filter_le [of "keep pNodes" pNodes]] by simp
qed simp

declare quorumLoop.simps [simp del]

definition isQuorum ::
  "SCPQuorumSet \<Rightarrow> EnvMap \<Rightarrow> (SCPStatement \<Rightarrow> SCPQuorumSet option) \<Rightarrow> (SCPStatement \<Rightarrow> bool) \<Rightarrow> bool"
  where
  "isQuorum qSet m qfun filt =
     isQuorumSlice qSet (quorumLoop (quorumFilter m qfun) (filterNodes m filt))"

subsection \<open>Closest v-blocking set\<close>

text \<open>The first loop: \<open>None\<close> when the set is already blocked, else what is left to block and the
  validators saved for later.\<close>

fun closestValidators ::
  "NodeID list \<Rightarrow> NodeID list \<Rightarrow> NodeID option \<Rightarrow> u64 \<Rightarrow> NodeID list \<Rightarrow> (u64 \<times> NodeID list) option" where
  "closestValidators [] nodes excluded leftTillBlock res = Some (leftTillBlock, res)"
| "closestValidators (v # vs) nodes excluded leftTillBlock res =
     (if excluded = Some v then closestValidators vs nodes excluded leftTillBlock res
      else if v \<notin> set nodes
      then let left = leftTillBlock - 1 in
           if left = 0 then None else closestValidators vs nodes excluded left res
      else closestValidators vs nodes excluded leftTillBlock (res @ [v]))"

text \<open>\<^verbatim>\<open>std::multiset\<close> ordered by size keeps equal sizes in insertion order: a stable sort. The last
  loop takes the smallest sets first.\<close>

fun takeInternals :: "u64 \<Rightarrow> NodeID list list \<Rightarrow> NodeID list" where
  "takeInternals leftTillBlock [] = []"
| "takeInternals leftTillBlock (v # vs) =
     (if leftTillBlock = 0 then [] else v @ takeInternals (leftTillBlock - 1) vs)"

fun findClosestVBlocking :: "SCPQuorumSet \<Rightarrow> NodeID list \<Rightarrow> NodeID option \<Rightarrow> NodeID list"
  and closestInner ::
    "SCPQuorumSet list \<Rightarrow> NodeID list \<Rightarrow> NodeID option \<Rightarrow> u64 \<Rightarrow> NodeID list list
       \<Rightarrow> (u64 \<times> NodeID list list) option" where
  "findClosestVBlocking (SCPQuorumSet t vs is) nodes excluded =
     (case closestValidators vs nodes excluded
             (1 + of_nat (length vs) + of_nat (length is) - ucast t) [] of
        None \<Rightarrow> []
      | Some (left1, res1) \<Rightarrow>
          (case closestInner is nodes excluded left1 [] of
             None \<Rightarrow> []
           | Some (left2, internals) \<Rightarrow>
               let res = (if length res1 > unat left2 then take (unat left2) res1 else res1);
                   left3 = left2 - of_nat (length res)
               in res @ takeInternals left3 (sort_key length internals)))"
| "closestInner [] nodes excluded leftTillBlock internals = Some (leftTillBlock, internals)"
| "closestInner (inner # inners) nodes excluded leftTillBlock internals =
     (let v = findClosestVBlocking inner nodes excluded in
      if length v = 0
      then let left = leftTillBlock - 1 in
           if left = 0 then None else closestInner inners nodes excluded left internals
      else closestInner inners nodes excluded leftTillBlock (internals @ [v]))"

definition findClosestVBlockingMap ::
  "SCPQuorumSet \<Rightarrow> EnvMap \<Rightarrow> (SCPStatement \<Rightarrow> bool) \<Rightarrow> NodeID option \<Rightarrow> NodeID list" where
  "findClosestVBlockingMap qset m filt excluded =
     findClosestVBlocking qset (set_insert_all (filterNodes m filt) []) excluded"

section \<open>Slices: what the loops compute\<close>

text \<open>
  The number of decrements the slice loops need: the threshold, or a full turn of the 32-bit
  counter when it is 0.
\<close>

definition eff_threshold :: "u32 \<Rightarrow> nat" where
  "eff_threshold t = (if t = 0 then 2 ^ 32 else unat t)"

fun sat :: "(NodeID \<Rightarrow> bool) \<Rightarrow> SCPQuorumSet \<Rightarrow> bool" where
  "sat P (SCPQuorumSet t v i) \<longleftrightarrow>
     eff_threshold t \<le> length (filter P v) + length (filter (sat P) i)"

fun blocks :: "(NodeID \<Rightarrow> bool) \<Rightarrow> SCPQuorumSet \<Rightarrow> bool" where
  "blocks P (SCPQuorumSet t v i) \<longleftrightarrow>
     (let c = length (filter P v) + length (filter (blocks P) i)
      in t \<noteq> 0 \<and> 1 \<le> c \<and> initialLeftTillBlock (SCPQuorumSet t v i) \<le> int c)"

lemma eff_threshold_pos [simp]: "0 < eff_threshold t"
  by (simp add: eff_threshold_def unat_gt_0)

lemma eff_threshold_dec:
  "t - 1 \<le> 0 \<longleftrightarrow> eff_threshold t = 1"
  "\<not> t - 1 \<le> 0 \<Longrightarrow> eff_threshold (t - 1) = eff_threshold t - 1"
proof -
  have "t - 1 \<le> 0 \<longleftrightarrow> t = 1" by simp
  then show "t - 1 \<le> 0 \<longleftrightarrow> eff_threshold t = 1"
    by (auto simp: eff_threshold_def word_unat_eq_iff)
  show "eff_threshold (t - 1) = eff_threshold t - 1" if "\<not> t - 1 \<le> 0"
  proof (cases "t = 0")
    case True
    then show ?thesis by (simp add: eff_threshold_def word_nat)
  next
    case False
    with that show ?thesis by (auto simp: eff_threshold_def word_nat)
  qed
qed

lemma sliceValidators_spec:
  "sliceValidators vs ns t =
     (let c = length (filter (\<lambda>n. n \<in> set ns) vs) in
      if eff_threshold t \<le> c then None else Some (t - of_nat c)) \<and>
   (let c = length (filter (\<lambda>n. n \<in> set ns) vs) in
      \<not> eff_threshold t \<le> c \<longrightarrow> eff_threshold (t - of_nat c) = eff_threshold t - c)"
proof (induction vs ns t rule: sliceValidators.induct)
  case (2 v vs ns t)
  show ?case
  proof (cases "v \<in> set ns \<and> \<not> t - 1 \<le> 0")
    case True
    have IH: "sliceValidators vs ns (t - 1) =
     (let c = length (filter (\<lambda>n. n \<in> set ns) vs) in
      if eff_threshold (t - 1) \<le> c then None else Some (t - 1 - of_nat c)) \<and>
   (let c = length (filter (\<lambda>n. n \<in> set ns) vs) in
      \<not> eff_threshold (t - 1) \<le> c \<longrightarrow> eff_threshold (t - 1 - of_nat c) = eff_threshold (t - 1) - c)"
      using "2.IH"(1) True by (simp add: Let_def)
    show ?thesis
      using IH True eff_threshold_dec [of t] eff_threshold_pos [of t]
      by (auto simp: Let_def algebra_simps)
  next
    case False
    then show ?thesis
      using "2.IH" eff_threshold_dec [of t] by (auto simp: Let_def)
  qed
qed simp

lemma isQuorumSliceInternal_sat:
  "isQuorumSliceInternal q ns \<longleftrightarrow> sat (\<lambda>n. n \<in> set ns) q"
  "sliceInner qs ns t \<longleftrightarrow> eff_threshold t \<le> length (filter (sat (\<lambda>n. n \<in> set ns)) qs)"
proof (induction q ns and qs ns t rule: isQuorumSliceInternal_sliceInner.induct)
  case (1 t v i ns)
  let ?c = "length (filter (\<lambda>n. n \<in> set ns) v)"
  show ?case
  proof (cases "eff_threshold t \<le> ?c")
    case True
    then show ?thesis using sliceValidators_spec [of v ns t] by (simp add: Let_def)
  next
    case False
    then have "sliceValidators v ns t = Some (t - of_nat ?c)"
      and "eff_threshold (t - of_nat ?c) = eff_threshold t - ?c"
      using sliceValidators_spec [of v ns t] by (simp_all add: Let_def)
    with "1.IH" show ?thesis by auto
  qed
next
  case (2 ns t)
  then show ?case by (simp add: not_le)
next
  case (3 q qs ns t)
  then show ?case
    using eff_threshold_dec [of t] eff_threshold_pos [of t]
    by (auto simp: Let_def)
qed

lemma isQuorumSlice_sat: "isQuorumSlice q ns \<longleftrightarrow> sat (\<lambda>n. n \<in> set ns) q"
  by (simp add: isQuorumSlice_def isQuorumSliceInternal_sat)

lemma length_filter_mono:
  "(\<And>x. x \<in> set xs \<Longrightarrow> P x \<Longrightarrow> Q x) \<Longrightarrow> length (filter P xs) \<le> length (filter Q xs)"
  by (induction xs) (auto intro: le_SucI)

lemma length_filter_not: "length (filter P xs) + length (filter (\<lambda>x. \<not> P x) xs) = length xs"
  by (rule sum_length_filter_compl)

lemma sat_mono: "(\<And>n. n \<in> set (qset_nodes q) \<Longrightarrow> P n \<Longrightarrow> Q n) \<Longrightarrow> sat P q \<Longrightarrow> sat Q q"
proof (induction q)
  case (SCPQuorumSet t v i)
  have "length (filter P v) \<le> length (filter Q v)"
    using SCPQuorumSet.prems(1) by (intro length_filter_mono) auto
  moreover have "length (filter (sat P) i) \<le> length (filter (sat Q) i)"
    using SCPQuorumSet.prems(1) by (intro length_filter_mono SCPQuorumSet.IH) auto
  ultimately show ?case using SCPQuorumSet.prems(2) by simp
qed

section \<open>V-blocking sets: what the loops compute\<close>

lemma blockValidators_spec:
  "blockValidators vs ns l =
     (let c = length (filter (\<lambda>n. n \<in> set ns) vs) in
      if 1 \<le> c \<and> l \<le> int c then None else Some (l - int c))"
  by (induction vs ns l rule: blockValidators.induct) (auto simp: Let_def)

lemma isVBlockingInternal_blocks:
  "isVBlockingInternal q ns \<longleftrightarrow> blocks (\<lambda>n. n \<in> set ns) q"
  "blockInner qs ns l \<longleftrightarrow>
     (let c = length (filter (blocks (\<lambda>n. n \<in> set ns)) qs) in 1 \<le> c \<and> l \<le> int c)"
proof (induction q ns and qs ns l rule: isVBlockingInternal_blockInner.induct)
  case (1 t v i ns)
  show ?case
  proof (cases "t = 0")
    case False
    let ?l = "initialLeftTillBlock (SCPQuorumSet t v i)"
    let ?c = "length (filter (\<lambda>n. n \<in> set ns) v)"
    show ?thesis
    proof (cases "1 \<le> ?c \<and> ?l \<le> int ?c")
      case True
      with False show ?thesis by (simp add: blockValidators_spec Let_def)
    next
      case l: False
      then have eq: "blockValidators v ns ?l = Some (?l - int ?c)"
        by (auto simp: blockValidators_spec Let_def)
      show ?thesis using "1.IH" [OF False eq] False l
        by (auto simp: eq Let_def simp del: blockValidators.simps)
    qed
  qed simp
next
  case (3 q qs ns l)
  then show ?case by (auto simp: Let_def)
qed (simp add: Let_def)

lemma isVBlocking_blocks: "isVBlocking q ns \<longleftrightarrow> blocks (\<lambda>n. n \<in> set ns) q"
  by (simp add: isVBlocking_def isVBlockingInternal_blocks)

lemma blocks_mono: "(\<And>n. n \<in> set (qset_nodes q) \<Longrightarrow> P n \<Longrightarrow> Q n) \<Longrightarrow> blocks P q \<Longrightarrow> blocks Q q"
proof (induction q)
  case (SCPQuorumSet t v i)
  have "length (filter P v) \<le> length (filter Q v)"
    using SCPQuorumSet.prems(1) by (intro length_filter_mono) auto
  moreover have "length (filter (blocks P) i) \<le> length (filter (blocks Q) i)"
    using SCPQuorumSet.prems(1) by (intro length_filter_mono SCPQuorumSet.IH) auto
  ultimately show ?case using SCPQuorumSet.prems(2) by (auto simp: Let_def)
qed

section \<open>Slices and v-blocking sets are dual\<close>

text \<open>
  The well-formedness the duality needs: at every level the threshold lies between 1 and the
  number of entries, and that number fits a signed 32-bit integer. Sane quorum sets have it.
\<close>

fun wf_qset :: "SCPQuorumSet \<Rightarrow> bool" where
  "wf_qset (SCPQuorumSet t v i) \<longleftrightarrow>
     1 \<le> unat t \<and> unat t \<le> length v + length i \<and> length v + length i < 2 ^ 31 - 1 \<and>
     list_all wf_qset i"

lemma wf_qset_eff: "wf_qset (SCPQuorumSet t v i) \<Longrightarrow> eff_threshold t = unat t"
  by (auto simp: eff_threshold_def)

lemma wf_qset_left:
  assumes "wf_qset (SCPQuorumSet t v i)"
  shows "unat (1 + of_nat (length v) + of_nat (length i) - ucast t :: u64)
           = 1 + length v + length i - unat t"
    and "initialLeftTillBlock (SCPQuorumSet t v i) = int (1 + length v + length i - unat t)"
proof -
  let ?n = "length v + length i"
  have t: "unat (ucast t :: u64) = unat t"
    using unsigned_less [of t, where 'a = nat] by (simp add: unsigned_ucast_eq take_bit_eq_mod)
  have n: "1 + of_nat (length v) + of_nat (length i) = (of_nat (1 + ?n) :: u64)" by simp
  have un: "unat (of_nat (1 + ?n) :: u64) = 1 + ?n"
    using assms by (simp add: unsigned_of_nat take_bit_eq_mod del: of_nat_add of_nat_Suc)
  show left: "unat (1 + of_nat (length v) + of_nat (length i) - ucast t :: u64)
           = 1 + length v + length i - unat t"
    unfolding n using assms
    by (subst unat_sub) (simp_all only: word_le_nat_alt un t wf_qset.simps, simp_all)
  let ?w = "1 + of_nat (length v) + of_nat (length i) - ucast t :: u64"
  have "unat (ucast ?w :: u32) = 1 + ?n - unat t"
    using assms left by (auto simp: unsigned_ucast_eq take_bit_eq_mod intro!: mod_less)
  then have "uint (ucast ?w :: u32) = int (1 + ?n - unat t)" by (metis uint_nat)
  moreover have "int (1 + ?n - unat t) < 2 ^ 31" using assms by simp
  ultimately have "sint (ucast ?w :: u32) = int (1 + ?n - unat t)"
    by (simp only: sint_uint) (simp add: signed_take_bit_int_eq_self)
  then show "initialLeftTillBlock (SCPQuorumSet t v i) = int (1 + length v + length i - unat t)"
    by (simp add: initialLeftTillBlock_def)
qed

lemma blocks_dual_sat: "wf_qset q \<Longrightarrow> blocks P q \<longleftrightarrow> \<not> sat (\<lambda>n. \<not> P n) q"
proof (induction q)
  case (SCPQuorumSet t v i)
  let ?cb = "length (filter P v) + length (filter (blocks P) i)"
  let ?cs = "length (filter (\<lambda>n. \<not> P n) v) + length (filter (sat (\<lambda>n. \<not> P n)) i)"
  have "filter (sat (\<lambda>n. \<not> P n)) i = filter (\<lambda>q. \<not> blocks P q) i"
    using SCPQuorumSet by (intro filter_cong) (auto simp: list_all_iff)
  then have "?cb + ?cs = length v + length i"
    using length_filter_not [of P v] length_filter_not [of "blocks P" i] by simp
  moreover have "t \<noteq> 0" using SCPQuorumSet.prems by auto
  moreover have "unat t \<le> length v + length i" and "1 \<le> unat t"
    using SCPQuorumSet.prems by auto
  ultimately show ?case
    by (simp add: wf_qset_left(2) [OF SCPQuorumSet.prems] wf_qset_eff [OF SCPQuorumSet.prems])
      linarith
qed

end
