(* ===== verification/QuorumProofs.thy ===== *)
theory QuorumProofs
  imports LocalNode "HOL-Library.Multiset"
begin

text \<open>
  What the quorum logic guarantees: a quorum test finds exactly the quorums inside the filtered
  nodes, normalisation keeps the meaning of a quorum set, and weights are positive exactly on the
  members.
\<close>

lemma length_filter_eq_iff: "length (filter P xs) = length xs \<longleftrightarrow> (\<forall>x \<in> set xs. P x)"
  using length_filter_less [of _ xs P] by (auto simp: less_le)

section \<open>The pruning loop computes a greatest fixpoint\<close>

text \<open>
  Any filter that only gains nodes when the context grows can be iterated as \<open>quorumLoop\<close> does; the
  result is the largest self-supporting subset of the start.
\<close>

locale monotone_pruning =
  fixes keep :: "NodeID list \<Rightarrow> NodeID \<Rightarrow> bool"
  assumes keep_mono: "set A \<subseteq> set B \<Longrightarrow> keep A n \<Longrightarrow> keep B n"
begin

definition supported :: "NodeID set \<Rightarrow> bool" where
  "supported W \<longleftrightarrow> (\<forall>xs. set xs = W \<longrightarrow> (\<forall>n \<in> W. keep xs n))"

lemma supported_set: "supported (set xs) \<longleftrightarrow> (\<forall>n \<in> set xs. keep xs n)"
  using keep_mono [of xs] by (auto simp: supported_def)

lemma loop_subset: "set (quorumLoop keep xs) \<subseteq> set xs"
proof (induction keep xs rule: quorumLoop.induct)
  case (1 k xs)
  then show ?case by (subst quorumLoop.simps) (auto simp: Let_def)
qed

lemma loop_supported: "supported (set (quorumLoop keep xs))"
proof (induction "length xs" arbitrary: xs rule: less_induct)
  case less
  show ?case
  proof (cases "length (filter (keep xs) xs) = length xs")
    case True
    then have all: "\<forall>n \<in> set xs. keep xs n" by (simp add: length_filter_eq_iff)
    then have "quorumLoop keep xs = xs"
      by (subst quorumLoop.simps) (simp add: Let_def)
    with all show ?thesis by (simp add: supported_set)
  next
    case False
    then have "length (filter (keep xs) xs) < length xs"
      by (simp add: le_neq_implies_less)
    then show ?thesis
      using less False by (subst quorumLoop.simps) (simp add: Let_def)
  qed
qed

lemma loop_greatest: "supported W \<Longrightarrow> W \<subseteq> set xs \<Longrightarrow> W \<subseteq> set (quorumLoop keep xs)"
proof (induction "length xs" arbitrary: xs rule: less_induct)
  case less
  have "finite W" using less.prems(2) by (rule finite_subset) simp
  then obtain ws where ws: "set ws = W" using finite_list by blast
  have "\<forall>n \<in> W. keep ws n" using less.prems(1) ws by (simp add: supported_def)
  then have W: "W \<subseteq> set (filter (keep xs) xs)"
    using less.prems(2) ws keep_mono [of ws xs] by auto
  show ?case
  proof (cases "length (filter (keep xs) xs) = length xs")
    case True
    then have "quorumLoop keep xs = filter (keep xs) xs"
      by (subst quorumLoop.simps) (simp add: Let_def)
    with W show ?thesis by simp
  next
    case False
    then have "length (filter (keep xs) xs) < length xs"
      by (simp add: le_neq_implies_less)
    from less.hyps [OF this less.prems(1) W]
    have "W \<subseteq> set (quorumLoop keep (filter (keep xs) xs))" .
    moreover have "quorumLoop keep xs = quorumLoop keep (filter (keep xs) xs)"
      using False by (subst quorumLoop.simps) (simp only: Let_def if_False)
    ultimately show ?thesis by simp
  qed
qed

end

lemma quorumFilter_iff:
  "quorumFilter m qfun xs n \<longleftrightarrow>
     (\<exists>env q. map_of m n = Some env \<and> qfun (statement env) = Some q \<and> sat (\<lambda>k. k \<in> set xs) q)"
  by (simp add: quorumFilter_def isQuorumSlice_sat split: option.split)

lemma quorumFilter_mono:
  "set A \<subseteq> set B \<Longrightarrow> quorumFilter m qfun A n \<Longrightarrow> quorumFilter m qfun B n"
proof -
  assume AB: "set A \<subseteq> set B" and "quorumFilter m qfun A n"
  then obtain env q where "map_of m n = Some env" "qfun (statement env) = Some q"
    and s: "sat (\<lambda>k. k \<in> set A) q" by (auto simp: quorumFilter_iff)
  moreover have "sat (\<lambda>k. k \<in> set B) q" using AB by (intro sat_mono [OF _ s]) auto
  ultimately show ?thesis by (auto simp: quorumFilter_iff)
qed

interpretation quorum_pruning: monotone_pruning "quorumFilter m qfun" for m qfun
  by unfold_locales (rule quorumFilter_mono)

text \<open>
  A set of nodes is a quorum for a map of envelopes when each member has an envelope whose quorum
  set is satisfied inside the set.
\<close>

definition is_quorum_in ::
  "EnvMap \<Rightarrow> (SCPStatement \<Rightarrow> SCPQuorumSet option) \<Rightarrow> NodeID set \<Rightarrow> bool" where
  "is_quorum_in m qfun W \<longleftrightarrow>
     (\<forall>n \<in> W. \<exists>env q. map_of m n = Some env \<and> qfun (statement env) = Some q \<and> sat (\<lambda>k. k \<in> W) q)"

lemma supported_iff_quorum: "finite W \<Longrightarrow> quorum_pruning.supported m qfun W \<longleftrightarrow> is_quorum_in m qfun W"
proof -
  assume "finite W"
  then obtain xs where "set xs = W" using finite_list by blast
  then show ?thesis
    using quorum_pruning.supported_set [of m qfun xs]
    by (simp add: is_quorum_in_def quorumFilter_iff)
qed

theorem isQuorum_iff:
  "isQuorum qSet m qfun filt \<longleftrightarrow>
     (\<exists>W. W \<subseteq> set (filterNodes m filt) \<and> is_quorum_in m qfun W \<and> sat (\<lambda>n. n \<in> W) qSet)"
proof
  let ?U = "set (quorumLoop (quorumFilter m qfun) (filterNodes m filt))"
  assume "isQuorum qSet m qfun filt"
  moreover have "is_quorum_in m qfun ?U"
    using quorum_pruning.loop_supported by (simp flip: supported_iff_quorum)
  ultimately show "\<exists>W. W \<subseteq> set (filterNodes m filt) \<and> is_quorum_in m qfun W \<and>
      sat (\<lambda>n. n \<in> W) qSet"
    using quorum_pruning.loop_subset unfolding isQuorum_def isQuorumSlice_sat by blast
next
  assume "\<exists>W. W \<subseteq> set (filterNodes m filt) \<and> is_quorum_in m qfun W \<and> sat (\<lambda>n. n \<in> W) qSet"
  then obtain W where W: "W \<subseteq> set (filterNodes m filt)" "is_quorum_in m qfun W"
    and s: "sat (\<lambda>n. n \<in> W) qSet" by blast
  then have "W \<subseteq> set (quorumLoop (quorumFilter m qfun) (filterNodes m filt))"
    by (intro quorum_pruning.loop_greatest)
      (simp_all add: supported_iff_quorum finite_subset [OF W(1)])
  then have "sat (\<lambda>n. n \<in> set (quorumLoop (quorumFilter m qfun) (filterNodes m filt))) qSet"
    by (intro sat_mono [OF _ s]) auto
  then show "isQuorum qSet m qfun filt"
    by (simp add: isQuorum_def isQuorumSlice_sat)
qed

section \<open>Sane quorum sets are well formed\<close>

lemma qset_nodes_length_ge:
  "thresholds_ok extra q \<Longrightarrow> 1 \<le> length (qset_nodes q)"
proof (induction q)
  case (SCPQuorumSet t v i)
  show ?case
  proof (cases i)
    case Nil
    with SCPQuorumSet.prems show ?thesis by auto
  next
    case (Cons q qs)
    with SCPQuorumSet show ?thesis by fastforce
  qed
qed

lemma thresholds_ok_entries:
  assumes "thresholds_ok extra (SCPQuorumSet t v i)"
  shows "length v + length i \<le> length (qset_nodes (SCPQuorumSet t v i))"
proof -
  have "\<forall>q \<in> set i. 1 \<le> length (qset_nodes q)"
    using assms qset_nodes_length_ge by (auto simp: list_all_iff)
  then have "length i \<le> length (concat (map qset_nodes i))"
    by (induction i) auto
  then show ?thesis by simp
qed

lemma qset_nodes_inner_length:
  "q \<in> set i \<Longrightarrow> length (qset_nodes q) \<le> length (qset_nodes (SCPQuorumSet t v i))"
  by (induction i) auto

lemma thresholds_ok_wf:
  "thresholds_ok extra q \<Longrightarrow> length (qset_nodes q) \<le> 1000 \<Longrightarrow> wf_qset q"
proof (induction q)
  case (SCPQuorumSet t v i)
  have "list_all wf_qset i"
    unfolding list_all_iff
  proof
    fix q assume q: "q \<in> set i"
    then show "wf_qset q"
      using SCPQuorumSet qset_nodes_inner_length [OF q, of t v] by (auto simp: list_all_iff)
  qed
  then show ?case
    using SCPQuorumSet.prems thresholds_ok_entries [OF SCPQuorumSet.prems(1)] by simp
qed

lemma sane_wf_qset: "isQuorumSetSane q extra \<Longrightarrow> wf_qset q"
  by (auto simp: isQuorumSetSane_iff intro: thresholds_ok_wf)

section \<open>Normalisation keeps the meaning of a quorum set\<close>

lemma sat_singleton: "isSingleton q \<Longrightarrow> sat P q \<longleftrightarrow> P (hd (validators q))"
  by (cases q) (auto simp: isSingleton_def length_Suc_conv eff_threshold_def split: if_splits)

lemma blocks_singleton: "isSingleton q \<Longrightarrow> blocks P q \<longleftrightarrow> P (hd (validators q))"
  by (cases q) (auto simp: isSingleton_def length_Suc_conv initialLeftTillBlock_def split: if_splits)

lemma initialLeft_cong:
  "threshold q = threshold q' \<Longrightarrow>
   length (validators q) + length (innerSets q) = length (validators q') + length (innerSets q') \<Longrightarrow>
   initialLeftTillBlock q = initialLeftTillBlock q'"
  unfolding initialLeftTillBlock_def by (simp add: add.assoc flip: of_nat_add)

lemma normalize_sat:
  "sat P (normalizeQSet q None) = sat P q"
  "length (filter P (fst (normalizeInner qs None))) +
     length (filter (sat P) (snd (normalizeInner qs None))) = length (filter (sat P) qs)"
proof (induction q "None :: NodeID option" and qs "None :: NodeID option"
    rule: normalizeQSet_normalizeInner.induct)
  case (1 t v i)
  obtain merged i' where n: "normalizeInner i None = (merged, i')" by fastforce
  have cnt: "length (filter P merged) + length (filter (sat P) i') = length (filter (sat P) i)"
    using 1 n by auto
  show ?case
  proof (cases "t = 1 \<and> v @ merged = [] \<and> length i' = 1")
    case True
    then obtain q where q: "i' = [q]" by (auto simp: length_Suc_conv)
    then have "sat P q \<longleftrightarrow> 1 \<le> length (filter (sat P) i)"
      using True cnt [symmetric] by simp
    then show ?thesis using True q n by (simp add: Let_def eff_threshold_def)
  next
    case False
    then show ?thesis using n cnt by (auto simp: Let_def)
  qed
next
  case (3 q qs)
  then show ?case by (auto simp: Let_def sat_singleton split: prod.splits)
qed simp

lemma normalize_blocks:
  "blocks P (normalizeQSet q None) = blocks P q"
  "length (filter P (fst (normalizeInner qs None))) +
     length (filter (blocks P) (snd (normalizeInner qs None))) = length (filter (blocks P) qs) \<and>
   length (fst (normalizeInner qs None)) + length (snd (normalizeInner qs None)) = length qs"
proof (induction q "None :: NodeID option" and qs "None :: NodeID option"
    rule: normalizeQSet_normalizeInner.induct)
  case (1 t v i)
  obtain merged i' where n: "normalizeInner i None = (merged, i')" by fastforce
  have len: "length merged + length i' = length i"
    and cnt: "length (filter P merged) + length (filter (blocks P) i') = length (filter (blocks P) i)"
    using 1 n by auto
  have left: "initialLeftTillBlock (SCPQuorumSet t (v @ merged) i') =
      initialLeftTillBlock (SCPQuorumSet t v i)"
    using len by (intro initialLeft_cong) auto
  show ?case
  proof (cases "t = 1 \<and> v @ merged = [] \<and> length i' = 1")
    case True
    then obtain q where q: "i' = [q]" by (auto simp: length_Suc_conv)
    have "initialLeftTillBlock (SCPQuorumSet t v i) = 1"
      unfolding left [symmetric] using True q by (simp add: initialLeftTillBlock_def)
    moreover have "blocks P q \<longleftrightarrow> 1 \<le> length (filter (blocks P) i)"
      using True q cnt [symmetric] by simp
    ultimately show ?thesis using True q n by (auto simp: Let_def)
  next
    case False
    then show ?thesis using n cnt left by (auto simp: Let_def)
  qed
next
  case (3 q qs)
  then show ?case by (auto simp: Let_def blocks_singleton split: prod.splits)
qed simp

section \<open>Node weights\<close>

lemma weightDivide_exact:
  assumes "0 < unat d" and "unat n \<le> unat d"
  shows "unat (weightDivide A n d) = exact_quotient (unat A * unat n) (unat d) ROUND_UP"
    and "unat (weightDivide A n d) \<le> unat A"
proof -
  let ?E = "exact_quotient (unat A * unat n) (unat d) ROUND_UP"
  have le: "?E \<le> unat A"
    using assms by (subst exact_quotient_up_le) simp_all
  then have small: "?E \<le> 18446744073709551615"
    using unat_u64_less [of A] by simp
  have "d \<noteq> 0" using assms(1) by auto
  then obtain q where "bigDivide_u64 A n d ROUND_UP = Inr (?E \<le> 18446744073709551615, q)"
    and "?E \<le> 18446744073709551615 \<Longrightarrow> unat q = ?E"
    using bigDivide_u64_spec [of d A n ROUND_UP] by blast
  with small show "unat (weightDivide A n d) = ?E" by (simp add: weightDivide_def)
  with le show "unat (weightDivide A n d) \<le> unat A" by simp
qed

lemma weightDivide_pos:
  assumes "0 < unat n" and "unat n \<le> unat d"
  shows "weightDivide A n d \<noteq> 0 \<longleftrightarrow> A \<noteq> 0"
proof -
  have d: "0 < unat d" using assms by simp
  have "exact_quotient (unat A * unat n) (unat d) ROUND_UP \<le> 0 \<longleftrightarrow> unat A = 0"
    using assms by (subst exact_quotient_up_le [OF d]) auto
  then show ?thesis
    using weightDivide_exact(1) [OF d assms(2), of A] by (metis le_zero_eq unat_eq_zero)
qed

lemma wf_qset_sizes:
  assumes "wf_qset (SCPQuorumSet t v i)"
  shows "unat (ucast t :: u64) = unat t"
    and "unat (of_nat (length i + length v) :: u64) = length i + length v"
    and "0 < unat (ucast t :: u64)"
    and "unat (ucast t :: u64) \<le> unat (of_nat (length i + length v) :: u64)"
proof -
  show t: "unat (ucast t :: u64) = unat t"
    using unsigned_less [of t, where 'a = nat] by (simp add: unsigned_ucast_eq take_bit_eq_mod)
  show d: "unat (of_nat (length i + length v) :: u64) = length i + length v"
    using assms by (simp add: unsigned_of_nat take_bit_eq_mod del: of_nat_add)
  show "0 < unat (ucast t :: u64)"
    and "unat (ucast t :: u64) \<le> unat (of_nat (length i + length v) :: u64)"
    using assms unfolding t d by simp_all
qed

lemma innerWeight_pos:
  assumes "0 < unat n" and "unat n \<le> unat d"
  shows "innerWeight nid n d qs \<noteq> 0 \<longleftrightarrow> (\<exists>q \<in> set qs. getNodeWeight nid q \<noteq> 0)"
  by (induction qs) (auto simp: Let_def weightDivide_pos [OF assms])

lemma getNodeWeight_pos:
  "wf_qset q \<Longrightarrow> getNodeWeight nid q \<noteq> 0 \<longleftrightarrow> nid \<in> set (qset_nodes q)"
proof (induction q)
  case (SCPQuorumSet t v i)
  note sz = wf_qset_sizes(3,4) [OF SCPQuorumSet.prems]
  have "(\<exists>q \<in> set i. getNodeWeight nid q \<noteq> 0) \<longleftrightarrow> (\<exists>q \<in> set i. nid \<in> set (qset_nodes q))"
    using SCPQuorumSet by (intro bex_cong) (auto simp: list_all_iff)
  then show ?case
    by (simp add: Let_def weightDivide_pos [OF sz] innerWeight_pos [OF sz] del: of_nat_add)
qed

text \<open>A validator listed at the top level weighs its share of the threshold, rounded up.\<close>

lemma getNodeWeight_validator:
  assumes "wf_qset (SCPQuorumSet t v i)" and "nid \<in> set v"
  shows "unat (getNodeWeight nid (SCPQuorumSet t v i)) =
    exact_quotient (18446744073709551615 * unat t) (length v + length i) ROUND_UP"
proof -
  note sz = wf_qset_sizes [OF assms(1)]
  have "0 < unat (of_nat (length i + length v) :: u64)" using sz(3,4) by simp
  then show ?thesis
    using assms(2) weightDivide_exact(1) [OF _ sz(4), of UINT64_MAX]
    by (simp only: getNodeWeight.simps Let_def if_True sz word_nat add.commute [of "length v"])
qed

lemma innerWeight_first:
  "getNodeWeight nid q \<noteq> 0 \<Longrightarrow> (\<forall>q' \<in> set qs. getNodeWeight nid q' = 0) \<Longrightarrow>
   innerWeight nid n d (qs @ q # rs) = weightDivide (getNodeWeight nid q) n d"
  by (induction qs) (auto simp: Let_def)

text \<open>A node nested in an inner set weighs its weight there, scaled by the outer threshold.\<close>

lemma getNodeWeight_inner:
  assumes wf: "wf_qset (SCPQuorumSet t v (qs @ q # rs))"
    and "nid \<notin> set v" and q: "nid \<in> set (qset_nodes q)"
    and "\<forall>q' \<in> set qs. nid \<notin> set (qset_nodes q')"
  shows "unat (getNodeWeight nid (SCPQuorumSet t v (qs @ q # rs))) =
    exact_quotient (unat (getNodeWeight nid q) * unat t) (length v + length (qs @ q # rs)) ROUND_UP"
proof -
  let ?i = "qs @ q # rs"
  note sz = wf_qset_sizes [OF wf]
  have wfi: "\<And>q'. q' \<in> set ?i \<Longrightarrow> wf_qset q'" using wf by (auto simp: list_all_iff)
  have "getNodeWeight nid q \<noteq> 0" and "\<forall>q' \<in> set qs. getNodeWeight nid q' = 0"
    using assms(3,4) wfi getNodeWeight_pos [of _ nid] by auto
  then have "getNodeWeight nid (SCPQuorumSet t v ?i) =
      weightDivide (getNodeWeight nid q) (ucast t) (of_nat (length ?i + length v))"
    using assms(2) innerWeight_first by (simp only: getNodeWeight.simps Let_def if_False)
  moreover have "0 < unat (of_nat (length ?i + length v) :: u64)" using sz(3,4) by simp
  ultimately show ?thesis
    using weightDivide_exact(1) [OF _ sz(4)] by (simp only: sz add.commute [of "length v"])
qed

section \<open>Properties\<close>

definition exampleQSet :: SCPQuorumSet where
  "exampleQSet = SCPQuorumSet 2 [1, 2] [SCPQuorumSet 2 [3, 4, 5] []]"

lemma exampleQSet_sane: "isQuorumSetSane exampleQSet False"
  by code_simp

text \<open>C27: \<^verbatim>\<open>isQuorumSetSane\<close> accepts exactly the quorum sets that are nested at most two levels deep,
  whose thresholds lie between 1 (more than half of the entries, with the extra checks) and the number
  of entries at every level, in which no validator occurs twice anywhere, and that name between 1 and
  1000 validators.\<close>

theorem isQuorumSetSane_characterised:
  "isQuorumSetSane q extra \<longleftrightarrow>
     qset_depth q \<le> 2 \<and> thresholds_ok extra q \<and> distinct (qset_nodes q) \<and>
     1 \<le> length (qset_nodes q) \<and> length (qset_nodes q) \<le> 1000"
  by (rule isQuorumSetSane_iff)

text \<open>C28: Normalising a quorum set keeps its meaning: the same sets of nodes contain a slice of it and
  the same sets of nodes are v-blocking for it.\<close>

theorem normalizeQSet_preserves:
  "isQuorumSlice (normalizeQSet q None) nodes = isQuorumSlice q nodes \<and>
   isVBlocking (normalizeQSet q None) nodes = isVBlocking q nodes"
  by (simp add: isQuorumSlice_sat isVBlocking_blocks normalize_sat normalize_blocks)

lemma sat_restrict: "sat P q \<longleftrightarrow> sat (\<lambda>n. n \<in> set (filter P (qset_nodes q))) q"
proof
  assume s: "sat P q"
  show "sat (\<lambda>n. n \<in> set (filter P (qset_nodes q))) q" by (intro sat_mono [OF _ s]) auto
next
  assume s: "sat (\<lambda>n. n \<in> set (filter P (qset_nodes q))) q"
  show "sat P q" by (intro sat_mono [OF _ s]) auto
qed

text \<open>C29: For a sane quorum set the two optimised loops agree with the definition of the protocol: a set
  of nodes is v-blocking exactly when it meets every set of nodes that contains a slice.\<close>

theorem isVBlocking_iff_meets_slices:
  assumes "isQuorumSetSane q extra"
  shows "isVBlocking q nodes \<longleftrightarrow> (\<forall>sl. isQuorumSlice q sl \<longrightarrow> set sl \<inter> set nodes \<noteq> {})"
proof -
  have "isVBlocking q nodes \<longleftrightarrow> \<not> sat (\<lambda>n. n \<notin> set nodes) q"
    by (simp add: isVBlocking_blocks blocks_dual_sat [OF sane_wf_qset [OF assms]])
  also have "\<dots> \<longleftrightarrow> (\<forall>sl. isQuorumSlice q sl \<longrightarrow> set sl \<inter> set nodes \<noteq> {})"
  proof (intro iffI allI impI notI)
    fix sl assume n: "\<not> sat (\<lambda>n. n \<notin> set nodes) q" and "isQuorumSlice q sl"
      and dis: "set sl \<inter> set nodes = {}"
    then have s: "sat (\<lambda>n. n \<in> set sl) q" by (simp add: isQuorumSlice_sat)
    have "sat (\<lambda>n. n \<notin> set nodes) q" using dis by (intro sat_mono [OF _ s]) auto
    with n show False by contradiction
  next
    assume all: "\<forall>sl. isQuorumSlice q sl \<longrightarrow> set sl \<inter> set nodes \<noteq> {}"
      and s: "sat (\<lambda>n. n \<notin> set nodes) q"
    let ?sl = "filter (\<lambda>n. n \<notin> set nodes) (qset_nodes q)"
    have "isQuorumSlice q ?sl"
      using s by (simp only: isQuorumSlice_sat) (rule iffD1 [OF sat_restrict])
    with all show False by auto
  qed
  finally show ?thesis .
qed

theorem isVBlocking_iff_meets_slices_witness:
  "isQuorumSetSane exampleQSet False \<and> isVBlocking exampleQSet [1, 2] \<and>
   \<not> isQuorumSlice exampleQSet [3, 4, 5]"
proof -
  have blocking: "isVBlocking exampleQSet [1, 2]" by code_simp
  then have "\<not> isQuorumSlice exampleQSet [3, 4, 5]"
    using isVBlocking_iff_meets_slices [OF exampleQSet_sane, of "[1, 2]"] by auto
  then show ?thesis using exampleQSet_sane blocking by blast
qed

text \<open>C30: The pruning loop of \<^verbatim>\<open>isQuorum\<close> is complete: it succeeds exactly when some set of nodes that pass
  the filter is a quorum (every member has a statement whose quorum set has a slice inside the set) and
  contains a slice of the local quorum set.\<close>

theorem isQuorum_finds_quorums:
  "isQuorum qSet m qfun filt \<longleftrightarrow>
     (\<exists>W. W \<subseteq> set (filterNodes m filt) \<and>
        (\<forall>n \<in> W. \<exists>env q. map_of m n = Some env \<and> qfun (statement env) = Some q \<and> sat (\<lambda>k. k \<in> W) q) \<and>
        sat (\<lambda>n. n \<in> W) qSet)"
  by (simp add: isQuorum_iff is_quorum_in_def)

theorem isQuorum_finds_quorums_witness:
  "isQuorum (SCPQuorumSet 1 [1] [])
     [(1, \<lparr>statement = \<lparr>nodeID = 1, slotIndex = 0, pledges = SCP_ST_NOMINATE 0 [] []\<rparr>, signature = []\<rparr>)]
     (\<lambda>st. Some (SCPQuorumSet 1 [1] [])) (\<lambda>st. True)"
  using isQuorum_finds_quorums [THEN iffD2, OF exI [of _ "{1}"]]
  by (simp add: filterNodes_def eff_threshold_def)

text \<open>C32: The weight of a node in a sane quorum set, which decides how often it leads a nomination round,
  is positive exactly for the nodes of the set, and for a validator of the top level it is the fraction
  threshold / entries of the full range of 64 bits, rounded up.\<close>

theorem getNodeWeight_correct:
  assumes "isQuorumSetSane (SCPQuorumSet t v i) extra"
  shows "(getNodeWeight nid (SCPQuorumSet t v i) \<noteq> 0 \<longleftrightarrow> nid \<in> set (qset_nodes (SCPQuorumSet t v i))) \<and>
    (nid \<in> set v \<longrightarrow> unat (getNodeWeight nid (SCPQuorumSet t v i)) =
       exact_quotient (18446744073709551615 * unat t) (length v + length i) ROUND_UP)"
  using getNodeWeight_pos getNodeWeight_validator sane_wf_qset [OF assms] by blast

theorem getNodeWeight_correct_witness:
  "unat (getNodeWeight 1 exampleQSet) = 12297829382473034410 \<and> getNodeWeight 9 exampleQSet = 0"
  using getNodeWeight_correct [OF exampleQSet_sane [unfolded exampleQSet_def], of 1]
    getNodeWeight_correct [OF exampleQSet_sane [unfolded exampleQSet_def], of 9]
  by (simp add: exampleQSet_def exact_quotient_def)

end
