(* ===== verification/ClosestBlocking.thy ===== *)
theory ClosestBlocking
  imports QuorumProofs
begin

text \<open>
  The closest v-blocking set (\<^verbatim>\<open>LocalNode::findClosestVBlocking\<close>): the nodes it returns block the quorum set
  together with those that are missing already, and no smaller choice does.
\<close>

section \<open>The result in closed form\<close>

text \<open>The nodes that may be chosen, and those that count as blocked already; the excluded node is neither.\<close>

abbreviation usable :: "NodeID list \<Rightarrow> NodeID option \<Rightarrow> NodeID \<Rightarrow> bool" where
  "usable nodes ex n \<equiv> n \<in> set nodes \<and> ex \<noteq> Some n"

abbreviation failed :: "NodeID list \<Rightarrow> NodeID option \<Rightarrow> NodeID \<Rightarrow> bool" where
  "failed nodes ex n \<equiv> n \<notin> set nodes \<and> ex \<noteq> Some n"

lemma unat_left_dec:
  "(w :: u64) \<noteq> 0 \<Longrightarrow> w - 1 \<noteq> 0 \<Longrightarrow> unat (w - 1) = unat w - 1 \<and> 1 < unat w"
  using unat_dec [of w] by (metis One_nat_def Suc_lessI diff_Suc_1 unat_gt_0 unat_0 word_unat_eq_iff)

lemma unat_left_one: "(w :: u64) \<noteq> 0 \<Longrightarrow> w - 1 = 0 \<Longrightarrow> unat w = 1"
  by simp

lemma closestValidators_spec:
  "left \<noteq> 0 \<Longrightarrow> closestValidators vs nodes ex left res =
     (let b = length (filter (failed nodes ex) vs) in
      if unat left \<le> b then None
      else Some (left - of_nat b, res @ filter (usable nodes ex) vs))"
proof (induction vs arbitrary: left res)
  case Nil
  then show ?case by (simp add: unat_gt_0)
next
  case (Cons v vs)
  show ?case
  proof (cases "failed nodes ex v")
    case False
    with Cons show ?thesis by (auto simp: Let_def)
  next
    case v: True
    show ?thesis
    proof (cases "left - 1 = 0")
      case True
      with v unat_left_one [OF Cons.prems True] show ?thesis by (simp add: Let_def)
    next
      case False
      with v Cons.IH [OF False] unat_left_dec [OF Cons.prems False] show ?thesis
        by (auto simp: Let_def algebra_simps)
    qed
  qed
qed

lemma closestInner_spec:
  "left \<noteq> 0 \<Longrightarrow> closestInner qs nodes ex left internals =
     (let f = (\<lambda>q. findClosestVBlocking q nodes ex);
          b = length (filter (\<lambda>q. f q = []) qs) in
      if unat left \<le> b then None
      else Some (left - of_nat b, internals @ filter (\<lambda>r. r \<noteq> []) (map f qs)))"
proof (induction qs arbitrary: left internals)
  case Nil
  then show ?case by (simp add: unat_gt_0)
next
  case (Cons q qs)
  show ?case
  proof (cases "findClosestVBlocking q nodes ex = []")
    case False
    with Cons show ?thesis by (simp add: Let_def)
  next
    case q: True
    show ?thesis
    proof (cases "left - 1 = 0")
      case True
      with q unat_left_one [OF Cons.prems True] show ?thesis by (simp add: Let_def)
    next
      case False
      with q Cons.IH [OF False] unat_left_dec [OF Cons.prems False] show ?thesis
        by (auto simp: Let_def algebra_simps)
    qed
  qed
qed

lemma takeInternals_concat: "takeInternals left xs = concat (take (unat left) xs)"
proof (induction xs arbitrary: left)
  case (Cons x xs)
  show ?case
  proof (cases "left = 0")
    case False
    then have "unat left = Suc (unat (left - 1))"
      using unat_dec [of left] by (simp add: unat_gt_0)
    with False Cons show ?thesis by simp
  qed simp
qed simp

text \<open>The result in closed form: the unblocked validators first, then the smallest inner sets.\<close>

lemma findClosest_closed:
  fixes v nodes :: "NodeID list" and ex :: "NodeID option"
  assumes "wf_qset (SCPQuorumSet t v i)"
  defines "f \<equiv> (\<lambda>q. findClosestVBlocking q nodes ex)"
  defines "need \<equiv> 1 + length v + length i - unat t"
  defines "blk \<equiv> length (filter (failed nodes ex) v) + length (filter (\<lambda>q. f q = []) i)"
  shows "findClosestVBlocking (SCPQuorumSet t v i) nodes ex =
    (if need \<le> blk then []
     else let res = take (need - blk) (filter (usable nodes ex) v) in
          res @ concat (take (need - blk - length res)
                          (sort_key length (filter (\<lambda>r. r \<noteq> []) (map f i)))))"
proof -
  let ?w = "1 + of_nat (length v) + of_nat (length i) - ucast t :: u64"
  let ?bv = "length (filter (failed nodes ex) v)"
  let ?bi = "length (filter (\<lambda>q. f q = []) i)"
  let ?R = "filter (usable nodes ex) v"
  have w: "unat ?w = need" unfolding need_def by (rule wf_qset_left(1) [OF assms(1)])
  have w0: "?w \<noteq> 0"
  proof
    assume "?w = 0"
    then have "need = 0" using w by simp
    then show False using assms(1) by (simp add: need_def)
  qed
  have sub: "unat (x - of_nat k) = unat x - k" if "k \<le> unat x" for x :: u64 and k
  proof -
    have k: "unat (of_nat k :: u64) = k"
      using that unsigned_less [of x, where 'a = nat]
      by (simp add: unsigned_of_nat take_bit_eq_mod)
    show ?thesis using that by (subst unat_sub) (simp_all add: word_le_nat_alt k)
  qed
  show ?thesis
  proof (cases "need \<le> ?bv")
    case True
    then show ?thesis
      using w by (simp add: closestValidators_spec [OF w0] Let_def blk_def)
  next
    case False
    let ?w1 = "?w - of_nat ?bv"
    have w1: "unat ?w1 = need - ?bv" using sub [of ?bv ?w] False w by simp
    have w10: "?w1 \<noteq> 0"
    proof
      assume "?w1 = 0"
      then have "unat ?w1 = 0" by (simp only: unat_0)
      then show False using w1 False by linarith
    qed
    have v1: "closestValidators v nodes ex ?w [] = Some (?w1, ?R)"
      using False w by (simp add: closestValidators_spec [OF w0] Let_def)
    show ?thesis
    proof (cases "need \<le> blk")
      case True
      then have "closestInner i nodes ex ?w1 [] = None"
        using w1 by (simp add: closestInner_spec [OF w10] Let_def blk_def f_def)
      with True show ?thesis by (simp add: v1 del: closestValidators.simps)
    next
      case nd: False
      let ?w2 = "?w1 - of_nat ?bi"
      have w2: "unat ?w2 = need - blk"
        using sub [of ?bi ?w1] w1 nd by (simp add: blk_def)
      have v2: "closestInner i nodes ex ?w1 [] =
          Some (?w2, filter (\<lambda>r. r \<noteq> []) (map f i))"
        using nd w1 by (simp add: closestInner_spec [OF w10] Let_def blk_def f_def)
      have tk: "(if length ?R > unat ?w2 then take (unat ?w2) ?R else ?R) = take (need - blk) ?R"
        by (simp add: w2)
      have w3: "unat (?w2 - of_nat (length (take (need - blk) ?R)))
          = need - blk - length (take (need - blk) ?R)"
        using sub [of "length (take (need - blk) ?R)" ?w2] w2 by simp
      show ?thesis
        using nd
        by (simp only: findClosestVBlocking.simps v1 v2 option.case prod.case Let_def tk
            takeInternals_concat w3 if_False)
    qed
  qed
qed

lemma length_filter_sort_key: "length (filter Q (sort_key g xs)) = length (filter Q xs)"
  by (metis mset_filter mset_sort size_mset)

lemma length_take_filter:
  "\<forall>x \<in> set (take k xs). Q x \<Longrightarrow> length (take k xs) \<le> length (filter Q xs)"
proof -
  assume "\<forall>x \<in> set (take k xs). Q x"
  then have "filter Q (take k xs) = take k xs" by simp
  then have "filter Q xs = take k xs @ filter Q (drop k xs)"
    by (metis append_take_drop_id filter_append)
  then show ?thesis by simp
qed

lemma length_filter_split:
  "length (filter (\<lambda>x. \<not> A x \<or> B x) xs)
     = length (filter (\<lambda>x. \<not> A x) xs) + length (filter B (filter A xs))"
  by (induction xs) auto

text \<open>
  The chosen entries, together with those already blocked, reach the number needed: the inner sets
  are counted through the multiset of their results.
\<close>

lemma chosen_inner_count:
  fixes i :: "SCPQuorumSet list"
  assumes "set (concat (take m (sort_key length (filter (\<lambda>r. r \<noteq> []) (map f i))))) \<subseteq> S"
  shows "length (filter (\<lambda>q. f q = []) i) + min m (length (filter (\<lambda>q. f q \<noteq> []) i))
     \<le> length (filter (\<lambda>q. set (f q) \<subseteq> S) i)"
proof -
  let ?L = "filter (\<lambda>r. r \<noteq> []) (map f i)"
  have "length (take m (sort_key length ?L)) \<le> length (filter (\<lambda>r. set r \<subseteq> S) ?L)"
    using length_take_filter [of m "sort_key length ?L" "\<lambda>r. set r \<subseteq> S"] assms
    by (force simp: length_filter_sort_key)
  moreover have "length (filter (\<lambda>r. set r \<subseteq> S) ?L)
      = length (filter (\<lambda>q. set (f q) \<subseteq> S) (filter (\<lambda>q. f q \<noteq> []) i))"
    by (simp add: filter_map comp_def)
  moreover have "length (filter (\<lambda>q. set (f q) \<subseteq> S) i) = length (filter (\<lambda>q. f q = []) i)
      + length (filter (\<lambda>q. set (f q) \<subseteq> S) (filter (\<lambda>q. f q \<noteq> []) i))"
    by (induction i) auto
  moreover have "length ?L = length (filter (\<lambda>q. f q \<noteq> []) i)"
    by (simp add: filter_map comp_def)
  ultimately show ?thesis by simp
qed

section \<open>The result blocks\<close>

text \<open>The excluded node may be listed only where it does not satisfy a set on its own: a set of threshold 1 that
  lists it cannot be blocked without it.\<close>

fun spares :: "NodeID option \<Rightarrow> SCPQuorumSet \<Rightarrow> bool" where
  "spares ex (SCPQuorumSet t v i) \<longleftrightarrow> (ex \<in> Some ` set v \<longrightarrow> 1 < t) \<and> list_all (spares ex) i"

lemma spares_None [simp]: "spares None q"
  by (induction q) (auto simp: list_all_iff)

lemma excluded_below_threshold:
  assumes "spares ex (SCPQuorumSet t v i)" "distinct v" "1 \<le> unat t"
  shows "length (filter (\<lambda>n. ex = Some n) v) < unat t"
proof (cases "filter (\<lambda>n. ex = Some n) v = []")
  case False
  then obtain n where "n \<in> set v" "ex = Some n" by (auto simp: filter_empty_conv)
  then have n: "1 < t" "filter (\<lambda>n. ex = Some n) v = filter (\<lambda>m. n = m) v" using assms(1) by auto
  have "length (filter (\<lambda>m. n = m) v) = card (set (filter (\<lambda>m. n = m) v))"
    using assms(2) by (metis distinct_card distinct_filter)
  also have "\<dots> \<le> card {n}" by (rule card_mono) auto
  finally show ?thesis using n by (simp add: word_less_nat_alt)
qed (use assms(3) in simp)

lemma partition_validators:
  "length (filter (failed nodes ex) v) + length (filter (usable nodes ex) v) + length (filter (\<lambda>n. ex = Some n) v) = length v"
  by (induction v) auto

lemma chosen_validators_count:
  "length (filter (failed nodes ex) v) + length (filter B (filter (usable nodes ex) v)) \<le>
   length (filter (\<lambda>n. failed nodes ex n \<or> B n) v)"
  by (induction v) auto

lemma findClosest_blocks:
  "wf_qset q \<Longrightarrow> distinct (qset_nodes q) \<Longrightarrow> spares ex q \<Longrightarrow>
   blocks (\<lambda>n. failed nodes ex n \<or> n \<in> set (findClosestVBlocking q nodes ex)) q"
proof (induction q)
  case (SCPQuorumSet t v i)
  let ?f = "\<lambda>q. findClosestVBlocking q nodes ex"
  let ?R = "filter (usable nodes ex) v"
  let ?need = "1 + length v + length i - unat t"
  let ?bv = "length (filter (failed nodes ex) v)"
  let ?bi = "length (filter (\<lambda>q. ?f q = []) i)"
  define res where "res = ?f (SCPQuorumSet t v i)"
  let ?P = "\<lambda>n. failed nodes ex n \<or> n \<in> set res"
  let ?k = "?need - (?bv + ?bi)"
  let ?m = "?k - length (take ?k ?R)"
  have wf: "1 \<le> unat t" "unat t \<le> length v + length i" using SCPQuorumSet.prems by auto
  have res: "res = take ?k ?R @
      concat (take ?m (sort_key length (filter (\<lambda>r. r \<noteq> []) (map ?f i))))"
    unfolding res_def findClosest_closed [OF SCPQuorumSet.prems(1)] by (simp add: Let_def)
  have "length (take ?k ?R) \<le> length (filter (\<lambda>n. n \<in> set res) ?R)"
    by (rule length_take_filter) (simp add: res)
  then have cv: "?bv + length (take ?k ?R) \<le> length (filter ?P v)"
    using chosen_validators_count [of nodes ex v "\<lambda>n. n \<in> set res"] by simp
  have "length (filter (\<lambda>q. set (?f q) \<subseteq> set res) i) \<le> length (filter (blocks ?P) i)"
  proof (rule length_filter_mono)
    fix q assume q: "q \<in> set i" and sub: "set (?f q) \<subseteq> set res"
    have "distinct (qset_nodes q)" using SCPQuorumSet.prems(2) q by (auto simp: distinct_concat_iff)
    then have "blocks (\<lambda>n. failed nodes ex n \<or> n \<in> set (?f q)) q"
      using SCPQuorumSet q by (auto simp: list_all_iff)
    then show "blocks ?P q" by (rule blocks_mono [rotated]) (use sub in auto)
  qed
  moreover have "set (concat (take ?m (sort_key length (filter (\<lambda>r. r \<noteq> []) (map ?f i))))) \<subseteq> set res"
    unfolding res by simp
  ultimately have ci: "?bi + min ?m (length (filter (\<lambda>q. ?f q \<noteq> []) i)) \<le> length (filter (blocks ?P) i)"
    using chosen_inner_count [of ?m ?f i "set res"] by linarith
  have "length v < ?bv + length ?R + unat t" "?bi + length (filter (\<lambda>q. ?f q \<noteq> []) i) = length i"
    using partition_validators [of nodes ex v] length_filter_not [of "\<lambda>q. ?f q = []" i]
      excluded_below_threshold [OF SCPQuorumSet.prems(3) _ wf(1)] SCPQuorumSet.prems(2) by simp_all
  then have "?need \<le> length (filter ?P v) + length (filter (blocks ?P) i)"
    using cv ci wf by (simp add: min_def split: if_splits)
  moreover have "t \<noteq> 0" using wf by auto
  ultimately have "blocks ?P (SCPQuorumSet t v i)"
    using wf by (simp add: Let_def wf_qset_left(2) [OF SCPQuorumSet.prems(1)]) linarith
  then show ?case unfolding res_def .
qed

section \<open>No smaller choice blocks\<close>

text \<open>The first \<open>m\<close> numbers of a sorted list add up to no more than any \<open>m\<close> of them, and every further one adds
  at least 1.\<close>

lemma smallest_sum:
  fixes ys :: "nat list"
  assumes "sorted ys" "M \<subseteq># mset ys" "m + e \<le> size M" "\<forall>y \<in> set ys. 1 \<le> y"
  shows "sum_list (take m ys) + e \<le> sum_mset M"
  using assms
proof (induction m arbitrary: ys M)
  case 0
  have "\<forall>y \<in># M. 1 \<le> y" using "0.prems"(2,4) by (auto dest: mset_subset_eqD)
  then have "size M \<le> sum_mset M" by (induction M) auto
  then show ?case using "0.prems"(3) by simp
next
  case (Suc m)
  then obtain y zs where ys: "ys = y # zs" by (cases ys) auto
  obtain z where z: "z \<in># M" "M - {#z#} \<subseteq># mset zs" "y \<le> z"
  proof (cases "y \<in># M")
    case True
    then show ?thesis using that [of y] Suc.prems(2) by (simp add: ys insert_subset_eq_iff subset_eq_diff_conv)
  next
    case False
    obtain z where z: "z \<in># M" using Suc.prems(3) by (metis add_Suc le_zero_eq nat.distinct(1) multiset_nonemptyE size_empty)
    have "count M x \<le> count (mset zs) x" for x
      using mset_subset_eq_count [OF Suc.prems(2), of x] False by (cases "x = y") (simp_all add: ys not_in_iff)
    then have sub: "M \<subseteq># mset zs" by (rule mset_subset_eqI)
    moreover from this z have "y \<le> z" using Suc.prems(1) by (auto simp: ys dest: mset_subset_eqD)
    ultimately show ?thesis using that [of z] z by (meson diff_subset_eq_self subset_mset.order_trans)
  qed
  have "m + e \<le> size (M - {#z#})" using Suc.prems(3) z(1) by (simp add: size_Diff_singleton)
  then have "sum_list (take m zs) + e \<le> sum_mset (M - {#z#})"
    using Suc.IH [of zs "M - {#z#}"] Suc.prems(1,4) z(2) by (simp add: ys)
  then show ?case using z(1,3) by (simp add: ys sum_mset.remove [OF z(1)])
qed

lemma sum_filter_le:
  "(\<And>x. x \<in> set xs \<Longrightarrow> Q x \<Longrightarrow> h x \<le> (g x :: nat)) \<Longrightarrow> sum_list (map h (filter Q xs)) \<le> sum_list (map g xs)"
  by (induction xs) (auto intro: add_mono le_SucI trans_le_add2)

lemma length_filter_concat: "length (filter B (concat xss)) = sum_list (map (\<lambda>xs. length (filter B xs)) xss)"
  by (induction xss) auto

lemma smallest_lengths:
  assumes "m + e \<le> length (filter (\<lambda>q. f q \<noteq> [] \<and> Q q) i)"
  shows "length (concat (take m (sort_key length (filter (\<lambda>r. r \<noteq> []) (map f i))))) + e \<le>
    sum_list (map (\<lambda>q. length (f q)) (filter (\<lambda>q. f q \<noteq> [] \<and> Q q) i))"
proof -
  let ?L = "sort_key length (filter (\<lambda>r. r \<noteq> []) (map f i))"
  let ?h = "\<lambda>q. length (f q)"
  let ?M = "image_mset ?h (mset (filter (\<lambda>q. f q \<noteq> [] \<and> Q q) i))"
  have "filter (\<lambda>q. f q \<noteq> [] \<and> Q q) i = filter Q (filter (\<lambda>q. f q \<noteq> []) i)" by (simp add: conj_commute)
  then have "?M \<subseteq># image_mset ?h (mset (filter (\<lambda>q. f q \<noteq> []) i))"
    by (simp only: mset_filter) (intro image_mset_subseteq_mono multiset_filter_subset)
  also have "\<dots> = mset (map length ?L)" by (simp add: filter_map comp_def multiset.map_comp)
  finally have sub: "?M \<subseteq># mset (map length ?L)" .
  have "size ?M = length (filter (\<lambda>q. f q \<noteq> [] \<and> Q q) i)" by (simp only: size_image_mset size_mset)
  then have "sum_list (take m (map length ?L)) + e \<le> sum_mset ?M"
    using assms by (intro smallest_sum [OF _ sub]) (auto simp: Suc_le_eq)
  moreover have "sum_mset ?M = sum_list (map ?h (filter (\<lambda>q. f q \<noteq> [] \<and> Q q) i))"
    by (simp only: sum_mset_sum_list flip: mset_map)
  ultimately show ?thesis by (simp add: length_concat take_map)
qed

lemma blocked_validators_count:
  "\<forall>n. B n \<longrightarrow> usable nodes ex n \<Longrightarrow>
   length (filter (\<lambda>n. failed nodes ex n \<or> B n) v) = length (filter (failed nodes ex) v) + length (filter B v)"
  by (induction v) auto

lemma blocked_inner_count:
  "length (filter Q i) \<le> length (filter (\<lambda>q. f q = []) i) + length (filter (\<lambda>q. f q \<noteq> [] \<and> Q q) i)"
  by (induction i) auto

lemma findClosest_least:
  assumes "wf_qset q" "\<forall>n. B n \<longrightarrow> usable nodes ex n" "blocks (\<lambda>n. failed nodes ex n \<or> B n) q"
  shows "length (findClosestVBlocking q nodes ex) \<le> length (filter B (qset_nodes q))"
  using assms
proof (induction q)
  case (SCPQuorumSet t v i)
  let ?f = "\<lambda>q. findClosestVBlocking q nodes ex"
  let ?P = "\<lambda>n. failed nodes ex n \<or> B n"
  let ?R = "filter (usable nodes ex) v"
  let ?need = "1 + length v + length i - unat t"
  let ?bv = "length (filter (failed nodes ex) v)"
  let ?bi = "length (filter (\<lambda>q. ?f q = []) i)"
  let ?k = "?need - (?bv + ?bi)"
  let ?J = "filter (\<lambda>q. ?f q \<noteq> [] \<and> blocks ?P q) i"
  let ?c = "length (filter B v)"
  define r where "r = length (take ?k ?R)"
  define inner where "inner = concat (take (?k - r) (sort_key length (filter (\<lambda>r. r \<noteq> []) (map ?f i))))"
  have res: "length (?f (SCPQuorumSet t v i)) = r + length inner"
    unfolding findClosest_closed [OF SCPQuorumSet.prems(1)] by (simp add: Let_def r_def inner_def)
  have "?need \<le> length (filter ?P v) + length (filter (blocks ?P) i)"
    using SCPQuorumSet.prems(3) by (simp add: Let_def wf_qset_left(2) [OF SCPQuorumSet.prems(1)])
  then have k: "?k \<le> ?c + length ?J"
    using blocked_validators_count [OF SCPQuorumSet.prems(2), of v] blocked_inner_count [of "blocks ?P" i ?f] by linarith
  have c: "?c \<le> length ?R" using SCPQuorumSet.prems(2) by (intro length_filter_mono) blast
  have "length (?f q) \<le> length (filter B (qset_nodes q))" if "q \<in> set i" "?f q \<noteq> [] \<and> blocks ?P q" for q
    using SCPQuorumSet.IH [OF that(1)] SCPQuorumSet.prems(1,2) that by (auto simp: list_all_iff)
  then have J: "sum_list (map (\<lambda>q. length (?f q)) ?J) \<le> length (filter B (concat (map qset_nodes i)))"
    unfolding length_filter_concat map_map comp_def by (rule sum_filter_le)
  have "r + length inner \<le> ?c + sum_list (map (\<lambda>q. length (?f q)) ?J)"
  proof (cases "?k \<le> ?c")
    case True
    then have "r = ?k" using c by (simp add: r_def)
    then show ?thesis using True by (simp add: inner_def)
  next
    case False
    then have "?c \<le> r" using c by (simp add: r_def)
    then have "(?k - r) + (r - ?c) \<le> length ?J" using k by (simp add: r_def)
    from smallest_lengths [OF this] show ?thesis using \<open>?c \<le> r\<close> by (simp add: inner_def)
  qed
  then show ?case using J unfolding res qset_nodes.simps filter_append length_append by linarith
qed

text \<open>The result repeats no node.\<close>

lemma concat_choice:
  assumes "\<And>q. q \<in> set i \<Longrightarrow> mset (f q) \<subseteq># mset (g q)"
  shows "mset (concat (take m (sort_key h (filter P (map f i))))) \<subseteq># mset (concat (map g i))"
proof -
  let ?L = "filter P (map f i)"
  have "concat (take m (sort_key h ?L)) @ concat (drop m (sort_key h ?L)) = concat (sort_key h ?L)"
    by (simp flip: concat_append)
  then have "mset (concat (take m (sort_key h ?L))) \<subseteq># mset (concat (sort_key h ?L))"
    by (metis mset_append mset_subset_eq_add_left)
  also have "mset (concat (sort_key h ?L)) = mset (concat ?L)"
    unfolding mset_concat by (metis mset_map mset_sort sum_mset_sum_list)
  also have "mset (concat ?L) \<subseteq># mset (concat (map f i))"
    by (induction i) (auto intro: subset_mset.add_mono subset_mset.add_increasing)
  also have "\<dots> \<subseteq># mset (concat (map g i))"
    using assms by (induction i) (auto intro: subset_mset.add_mono)
  finally show ?thesis .
qed

lemma findClosest_subset:
  "wf_qset q \<Longrightarrow> mset (findClosestVBlocking q nodes ex) \<subseteq># mset (filter (usable nodes ex) (qset_nodes q))"
proof (induction q)
  case (SCPQuorumSet t v i)
  let ?f = "\<lambda>q. findClosestVBlocking q nodes ex" and ?g = "\<lambda>q. filter (usable nodes ex) (qset_nodes q)"
  have "mset (take k xs) \<subseteq># mset xs" for k and xs :: "NodeID list"
    by (metis append_take_drop_id mset_append mset_subset_eq_add_left)
  moreover have "mset (concat (take m (sort_key length (filter (\<lambda>r. r \<noteq> []) (map ?f i))))) \<subseteq># mset (concat (map ?g i))" for m
    using SCPQuorumSet by (intro concat_choice) (auto simp: list_all_iff)
  ultimately have "mset (take k (filter (usable nodes ex) v) @
      concat (take m (sort_key length (filter (\<lambda>r. r \<noteq> []) (map ?f i))))) \<subseteq># mset (filter (usable nodes ex) v @ concat (map ?g i))"
    for k m unfolding mset_append by (intro subset_mset.add_mono)
  moreover have "filter (usable nodes ex) (qset_nodes (SCPQuorumSet t v i)) = filter (usable nodes ex) v @ concat (map ?g i)"
    by (simp add: filter_concat comp_def)
  ultimately show ?case unfolding findClosest_closed [OF SCPQuorumSet.prems] Let_def by (simp only: if_split) simp
qed

lemma findClosest_distinct:
  assumes "wf_qset q" "distinct (qset_nodes q)"
  shows "distinct (findClosestVBlocking q nodes ex)"
    "set (findClosestVBlocking q nodes ex) \<subseteq> set (filter (usable nodes ex) (qset_nodes q))"
proof -
  note sub = findClosest_subset [OF assms(1), of nodes ex]
  show "set (findClosestVBlocking q nodes ex) \<subseteq> set (filter (usable nodes ex) (qset_nodes q))"
    using set_mset_mono [OF sub] by simp
  have "count (mset (findClosestVBlocking q nodes ex)) n \<le> count (mset (filter (usable nodes ex) (qset_nodes q))) n" for n
    using sub by (rule mset_subset_eq_count)
  moreover have "count (mset (filter (usable nodes ex) (qset_nodes q))) n \<le> 1" for n
    using assms(2) unfolding distinct_count_atmost_1 by simp
  ultimately have "count (mset (findClosestVBlocking q nodes ex)) n \<le> 1" for n by (meson le_trans)
  then show "distinct (findClosestVBlocking q nodes ex)"
    unfolding distinct_count_atmost_1
    by (metis count_greater_zero_iff count_mset_0_iff le_antisym less_one not_less set_mset_mset)
qed

lemma set_forAllNodes: "set (forAllNodes q) = set (qset_nodes q)"
proof -
  have "set (firstOccurrences seen ns) = set ns - set seen" for seen ns
    by (induction seen ns rule: firstOccurrences.induct) auto
  moreover have "forAllNodesInternal q = qset_nodes q" by (induction q) (simp cong: map_cong)
  ultimately show ?thesis by (simp add: forAllNodes_def)
qed

section \<open>The closest blocking set\<close>

text \<open>C31: \<^verbatim>\<open>findClosestVBlocking\<close> on a sane quorum set returns distinct nodes of the given set, never the excluded one, that
  block the quorum set together with those of its nodes that are outside the given set; and no smaller choice of nodes
  does so. The excluded node never counts as blocked. It must not be able to satisfy one of the sets on its own: such a
  set has no blocking set without it.\<close>

theorem findClosestVBlocking_closest:
  assumes "isQuorumSetSane q extra" "spares excluded q"
  shows "let R = findClosestVBlocking q nodes excluded;
             missing = filter (\<lambda>n. n \<notin> set nodes \<and> excluded \<noteq> Some n) (forAllNodes q)
    in distinct R \<and> set R \<subseteq> set nodes \<inter> set (forAllNodes q) \<and> excluded \<notin> Some ` set R \<and>
       isVBlocking q (missing @ R) \<and>
       (\<forall>B. set B \<subseteq> set nodes \<and> excluded \<notin> Some ` set B \<and> isVBlocking q (missing @ B) \<longrightarrow> length R \<le> card (set B))"
proof -
  let ?R = "findClosestVBlocking q nodes excluded"
  let ?missing = "filter (failed nodes excluded) (forAllNodes q)"
  have wf: "wf_qset q" "distinct (qset_nodes q)" using assms(1) sane_wf_qset by (auto simp: isQuorumSetSane_iff)
  note res = findClosest_distinct [OF wf, of nodes excluded]
  have "blocks (\<lambda>n. n \<in> set (?missing @ ?R)) q"
    by (rule blocks_mono [OF _ findClosest_blocks [OF wf assms(2)]]) (auto simp: set_forAllNodes)
  moreover have "length ?R \<le> card (set B)"
    if B: "set B \<subseteq> set nodes" "excluded \<notin> Some ` set B" "isVBlocking q (?missing @ B)" for B
  proof -
    have "blocks (\<lambda>n. failed nodes excluded n \<or> n \<in> set B) q"
      by (rule blocks_mono [OF _ B(3) [unfolded isVBlocking_blocks]]) auto
    then have "length ?R \<le> length (filter (\<lambda>n. n \<in> set B) (qset_nodes q))"
      using B(1,2) by (intro findClosest_least [OF wf(1)]) auto
    also have "\<dots> = card (set (filter (\<lambda>n. n \<in> set B) (qset_nodes q)))"
      using distinct_card [OF distinct_filter [OF wf(2)]] by (rule sym)
    also have "\<dots> \<le> card (set B)" by (rule card_mono) auto
    finally show ?thesis .
  qed
  ultimately show ?thesis using res by (auto simp: Let_def isVBlocking_blocks set_forAllNodes)
qed

theorem findClosestVBlocking_closest_witness:
  "findClosestVBlocking (SCPQuorumSet 3 [1, 2, 3] [SCPQuorumSet 2 [4, 5, 6] []]) [1, 2, 4, 5, 6] (Some 1) = [2] \<and>
   isVBlocking (SCPQuorumSet 3 [1, 2, 3] [SCPQuorumSet 2 [4, 5, 6] []]) [3, 2] \<and>
   \<not> isVBlocking (SCPQuorumSet 3 [1, 2, 3] [SCPQuorumSet 2 [4, 5, 6] []]) [3]"
proof -
  let ?q = "SCPQuorumSet 3 [1, 2, 3] [SCPQuorumSet 2 [4, 5, 6] []]"
  have sane: "isQuorumSetSane ?q False" "spares (Some 1) ?q" by (code_simp, code_simp)
  have run: "findClosestVBlocking ?q [1, 2, 4, 5, 6] (Some 1) = [2]"
    "filter (\<lambda>n. n \<notin> set [1, 2, 4, 5, 6] \<and> Some 1 \<noteq> Some n) (forAllNodes ?q) = [3]" by (code_simp, code_simp)
  from findClosestVBlocking_closest [OF sane, of "[1, 2, 4, 5, 6]"]
  have closest: "isVBlocking ?q [3, 2]"
    "\<forall>B. set B \<subseteq> set [1, 2, 4, 5, 6] \<and> Some 1 \<notin> Some ` set B \<and> isVBlocking ?q ([3] @ B) \<longrightarrow> 1 \<le> card (set B)"
    unfolding run Let_def by simp_all
  have "\<not> isVBlocking ?q [3]" using closest(2) [rule_format, of "[]"] by auto
  then show ?thesis using run closest(1) by blast
qed

end
