(* ===== verification/SlotState.thy ===== *)
theory SlotState
  imports LocalNode
begin

text \<open>
  The state of one consensus slot (\<^verbatim>\<open>scp/Slot.h\<close>, \<^verbatim>\<open>scp/BallotProtocol.h\<close>,
  \<^verbatim>\<open>scp/NominationProtocol.h\<close>), the environment it runs in, and the services of the slot that
  both protocols call (\<^verbatim>\<open>scp/Slot.cpp\<close>).

  The application behind SCP (\<^verbatim>\<open>SCPDriver\<close>) is a parameter: the record \<open>SCPContext\<close> holds the
  functions of the driver that return something, together with the local node. Calls that only
  notify the driver are recorded in the log \<open>mDriverCalls\<close> in the order they are made.
  The three C++ objects \<^verbatim>\<open>Slot\<close>, \<^verbatim>\<open>NominationProtocol\<close> and \<^verbatim>\<open>BallotProtocol\<close> of a slot refer to each
  other and have the same life time; their members are the fields of one extensible record.
\<close>

section \<open>Errors, driver and context\<close>

text \<open>
  \<open>DbgAbort\<close> is a failed \<^verbatim>\<open>dbgAssert\<close>, \<^verbatim>\<open>dbgAbort\<close> or \<^verbatim>\<open>abort\<close> (the default build does not define
  \<^verbatim>\<open>NDEBUG\<close>); \<open>NullDeref\<close> the use of a null pointer; \<open>RuntimeError\<close> a thrown exception. \<open>OutOfFuel\<close> and
  \<open>LoopDiverges\<close> are not behaviours of the code: they mark the end of the model's recursion
  budget and a loop that never ends, and are proved not to occur.
\<close>

datatype scp_error = DbgAbort | NullDeref | RuntimeError string | OutOfFuel | LoopDiverges

datatype ValidationLevel = kInvalidValue | kFullyValidatedValue | kMaybeValidValue
datatype EnvelopeState = INVALID | VALID
datatype SCPPhase = SCP_PHASE_PREPARE | SCP_PHASE_CONFIRM | SCP_PHASE_EXTERNALIZE
datatype TimerID = NOMINATION_TIMER | BALLOT_PROTOCOL_TIMER
datatype TimerCallback = BallotProtocolTimerExpired | NominateTimeout Value Value

datatype DriverCall =
    EmitEnvelope SCPEnvelope
  | ValueExternalized u64 Value
  | NominatingValue u64 Value
  | UpdatedCandidateValue u64 Value
  | StartedBallotProtocol u64 SCPBallot
  | AcceptedBallotPrepared u64 SCPBallot
  | ConfirmedBallotPrepared u64 SCPBallot
  | AcceptedCommit u64 SCPBallot
  | BallotDidHearFromQuorum u64 SCPBallot
  | SetupTimer u64 TimerID int "TimerCallback option"

record SCPContext =
  getQSet :: "Hash \<Rightarrow> SCPQuorumSet option"
  validateValue :: "u64 \<Rightarrow> Value \<Rightarrow> bool \<Rightarrow> ValidationLevel"
  extractValidValue :: "u64 \<Rightarrow> Value \<Rightarrow> Value"
  computeHashNode :: "u64 \<Rightarrow> Value \<Rightarrow> bool \<Rightarrow> int \<Rightarrow> NodeID \<Rightarrow> u64"
  computeValueHash :: "u64 \<Rightarrow> Value \<Rightarrow> int \<Rightarrow> Value \<Rightarrow> u64"
  combineCandidates :: "u64 \<Rightarrow> Value list \<Rightarrow> Value"
  signEnvelope :: "SCPStatement \<Rightarrow> Signature"
  verifyEnvelope :: "SCPEnvelope \<Rightarrow> bool"
  localNodeID :: NodeID
  localIsValidator :: bool
  localQSet :: SCPQuorumSet
  localQSetHash :: Hash

text \<open>\<^verbatim>\<open>SCPDriver::computeTimeout\<close>, in milliseconds.\<close>

definition MAX_TIMEOUT_SECONDS :: int where
  "MAX_TIMEOUT_SECONDS = 30 * 60"

definition computeTimeout :: "u32 \<Rightarrow> int" where
  "computeTimeout roundNumber =
     1000 * (if uint roundNumber > MAX_TIMEOUT_SECONDS then MAX_TIMEOUT_SECONDS
             else sint roundNumber)"

section \<open>The slot\<close>

text \<open>A shared pointer to an envelope is the envelope and the identity of the allocation: the code
  compares such pointers, not their targets. \<open>mNextAllocation\<close> numbers the allocations.\<close>

type_synonym EnvelopePtr = "nat \<times> SCPEnvelope"

record SlotCore =
  mSlotIndex :: u64
  mFullyValidated :: bool
  mStatementsHistory :: "(SCPStatement \<times> bool) list"
  mDriverCalls :: "DriverCall list"
  mNextAllocation :: nat

record SlotNomination = SlotCore +
  mRoundNumber :: int
  mVotes :: "Value list"
  mAccepted :: "Value list"
  mCandidates :: "Value list"
  mLatestNominations :: EnvMap
  mNominationLastEnvelope :: "SCPEnvelope option"
  mRoundLeaders :: "NodeID list"
  mNominationStarted :: bool
  mLatestCompositeCandidate :: Value
  mPreviousValue :: Value

record Slot = SlotNomination +
  mHeardFromQuorum :: bool
  mCurrentBallot :: "SCPBallot option"
  mPrepared :: "SCPBallot option"
  mPreparedPrime :: "SCPBallot option"
  mHighBallot :: "SCPBallot option"
  mCommit :: "SCPBallot option"
  mLatestEnvelopes :: EnvMap
  mPhase :: SCPPhase
  mValueOverride :: "Value option"
  mCurrentMessageLevel :: int
  mLastEnvelope :: "EnvelopePtr option"
  mLastEnvelopeEmit :: "EnvelopePtr option"

definition newSlot :: "SCPContext \<Rightarrow> u64 \<Rightarrow> Slot" where
  "newSlot S i =
     \<lparr>mSlotIndex = i, mFullyValidated = localIsValidator S, mStatementsHistory = [],
      mDriverCalls = [], mNextAllocation = 0,
      mRoundNumber = 0, mVotes = [], mAccepted = [], mCandidates = [], mLatestNominations = [],
      mNominationLastEnvelope = None, mRoundLeaders = [], mNominationStarted = False,
      mLatestCompositeCandidate = [], mPreviousValue = [],
      mHeardFromQuorum = False, mCurrentBallot = None, mPrepared = None, mPreparedPrime = None,
      mHighBallot = None, mCommit = None, mLatestEnvelopes = [], mPhase = SCP_PHASE_PREPARE,
      mValueOverride = None, mCurrentMessageLevel = 0, mLastEnvelope = None,
      mLastEnvelopeEmit = None\<rparr>"

definition driverCall :: "DriverCall \<Rightarrow> Slot \<Rightarrow> Slot" where
  "driverCall c s = s\<lparr>mDriverCalls := mDriverCalls s @ [c]\<rparr>"

definition recordStatement :: "SCPStatement \<Rightarrow> Slot \<Rightarrow> Slot" where
  "recordStatement st s =
     s\<lparr>mStatementsHistory := mStatementsHistory s @ [(st, mFullyValidated s)]\<rparr>"

definition setFullyValidated :: "bool \<Rightarrow> Slot \<Rightarrow> Slot" where
  "setFullyValidated b s = s\<lparr>mFullyValidated := b\<rparr>"

definition stopNomination :: "Slot \<Rightarrow> Slot" where
  "stopNomination s = s\<lparr>mNominationStarted := False\<rparr>"

definition createEnvelope :: "SCPContext \<Rightarrow> SCPPledges \<Rightarrow> Slot \<Rightarrow> SCPEnvelope" where
  "createEnvelope S pl s =
     (let mySt = \<lparr>nodeID = localNodeID S, slotIndex = mSlotIndex s, pledges = pl\<rparr>
      in \<lparr>statement = mySt, signature = signEnvelope S mySt\<rparr>)"

section \<open>Statements and federated voting\<close>

fun getCompanionQuorumSetHashFromStatement :: "SCPPledges \<Rightarrow> Hash" where
  "getCompanionQuorumSetHashFromStatement (SCP_ST_PREPARE h _ _ _ _ _) = h"
| "getCompanionQuorumSetHashFromStatement (SCP_ST_CONFIRM _ _ _ _ h) = h"
| "getCompanionQuorumSetHashFromStatement (SCP_ST_EXTERNALIZE _ _ h) = h"
| "getCompanionQuorumSetHashFromStatement (SCP_ST_NOMINATE h _ _) = h"

text \<open>A node that externalized is a quorum of its own.\<close>

definition getQuorumSetFromStatement :: "SCPContext \<Rightarrow> SCPStatement \<Rightarrow> SCPQuorumSet option" where
  "getQuorumSetFromStatement S st =
     (case pledges st of
        SCP_ST_EXTERNALIZE c h d \<Rightarrow> getSingletonQSet (nodeID st)
      | SCP_ST_PREPARE h b p p' c n \<Rightarrow> getQSet S h
      | SCP_ST_CONFIRM b p c n h \<Rightarrow> getQSet S h
      | SCP_ST_NOMINATE h vs as \<Rightarrow> getQSet S h)"

definition federatedAccept ::
  "SCPContext \<Rightarrow> (SCPStatement \<Rightarrow> bool) \<Rightarrow> (SCPStatement \<Rightarrow> bool) \<Rightarrow> EnvMap \<Rightarrow> bool" where
  "federatedAccept S isVote isAccept envs =
     (if isVBlockingMap (localQSet S) envs isAccept then True
      else if isQuorum (localQSet S) envs (getQuorumSetFromStatement S)
                (\<lambda>st. isAccept st \<or> isVote st) then True
      else False)"

definition federatedRatify ::
  "SCPContext \<Rightarrow> (SCPStatement \<Rightarrow> bool) \<Rightarrow> EnvMap \<Rightarrow> bool" where
  "federatedRatify S isVote envs =
     isQuorum (localQSet S) envs (getQuorumSetFromStatement S) isVote"

section \<open>Assertions and pointers\<close>

definition dbgAssert :: "bool \<Rightarrow> scp_error + unit" where
  "dbgAssert b = (if b then Inr () else Inl DbgAbort)"

definition deref :: "'a option \<Rightarrow> scp_error + 'a" where
  "deref p = (case p of None \<Rightarrow> Inl NullDeref | Some x \<Rightarrow> Inr x)"

lemma dbgAssert_Inr [simp]: "dbgAssert b = Inr u \<longleftrightarrow> b"
  by (simp add: dbgAssert_def)

lemma deref_Inr [simp]: "deref p = Inr x \<longleftrightarrow> p = Some x"
  by (auto simp: deref_def split: option.splits)

lemma deref_Some [simp]: "deref (Some x) = Inr x"
  by (simp add: deref_def)

lemma dbgAssert_True [simp]: "dbgAssert True = Inr ()"
  by (simp add: dbgAssert_def)

end
