(* ===== verification/BallotProtocol.thy ===== *)
theory BallotProtocol
  imports SlotState "HOL-Library.While_Combinator"
begin

text \<open>
  The ballot protocol of SCP (\<^verbatim>\<open>scp/BallotProtocol.cpp\<close>), function by function. Every function that
  changes the slot takes it as its last argument and returns it. The protocol is recursive: a state
  change makes the node process its own statement, which may change the state again. The functions
  between two processing steps take \<open>proc\<close>, the processing of the node's own envelope; the knot is
  tied in \<open>advanceSlot\<close>, whose first argument bounds the depth. The code bounds it too
  (\<open>MAX_ADVANCE_SLOT_RECURSION\<close>), and the bound of the model is the same number.
\<close>

section \<open>Ballots\<close>

definition compareBallots :: "SCPBallot \<Rightarrow> SCPBallot \<Rightarrow> int" where
  "compareBallots b1 b2 =
     (if counter b1 < counter b2 then - 1
      else if counter b2 < counter b1 then 1
      else if bvalue b1 < bvalue b2 then - 1
      else if bvalue b2 < bvalue b1 then 1
      else 0)"

definition compareBallotPtrs :: "SCPBallot option \<Rightarrow> SCPBallot option \<Rightarrow> int" where
  "compareBallotPtrs b1 b2 =
     (case (b1, b2) of
        (Some x, Some y) \<Rightarrow> compareBallots x y
      | (Some x, None) \<Rightarrow> 1
      | (None, Some y) \<Rightarrow> - 1
      | (None, None) \<Rightarrow> 0)"

definition areBallotsCompatible :: "SCPBallot \<Rightarrow> SCPBallot \<Rightarrow> bool" where
  "areBallotsCompatible b1 b2 \<longleftrightarrow> bvalue b1 = bvalue b2"

definition areBallotsLessAndIncompatible :: "SCPBallot \<Rightarrow> SCPBallot \<Rightarrow> bool" where
  "areBallotsLessAndIncompatible b1 b2 \<longleftrightarrow>
     compareBallots b1 b2 \<le> 0 \<and> \<not> areBallotsCompatible b1 b2"

definition areBallotsLessAndCompatible :: "SCPBallot \<Rightarrow> SCPBallot \<Rightarrow> bool" where
  "areBallotsLessAndCompatible b1 b2 \<longleftrightarrow>
     compareBallots b1 b2 \<le> 0 \<and> areBallotsCompatible b1 b2"

section \<open>Statements\<close>

text \<open>
  The total order of statements of one node. A nomination never reaches this function:
  \<^verbatim>\<open>Slot::processEnvelope\<close> hands it to the other protocol.
\<close>

definition isNewerStatement :: "SCPStatement \<Rightarrow> SCPStatement \<Rightarrow> bool" where
  "isNewerStatement oldst st =
     (if pledgeType (pledges oldst) \<noteq> pledgeType (pledges st)
      then pledgeType (pledges oldst) < pledgeType (pledges st)
      else case (pledges oldst, pledges st) of
        (SCP_ST_EXTERNALIZE _ _ _, _) \<Rightarrow> False
      | (SCP_ST_CONFIRM ob op oc oh _, SCP_ST_CONFIRM b p c h _) \<Rightarrow>
          (let compBallot = compareBallots ob b in
           if compBallot < 0 then True
           else if compBallot = 0 then (if op = p then oh < h else op < p)
           else False)
      | (SCP_ST_PREPARE _ ob op op' _ oh, SCP_ST_PREPARE _ b p p' _ h) \<Rightarrow>
          (let compBallot = compareBallots ob b in
           if compBallot < 0 then True
           else if compBallot = 0 then
             (let compBallot = compareBallotPtrs op p in
              if compBallot < 0 then True
              else if compBallot = 0 then
                (let compBallot = compareBallotPtrs op' p' in
                 if compBallot < 0 then True
                 else if compBallot = 0 then oh < h
                 else False)
              else False)
           else False)
      | _ \<Rightarrow> False)"

definition isNewerStatementNode :: "NodeID \<Rightarrow> SCPStatement \<Rightarrow> Slot \<Rightarrow> bool" where
  "isNewerStatementNode n st s =
     (case map_of (mLatestEnvelopes s) n of
        None \<Rightarrow> True
      | Some old \<Rightarrow> isNewerStatement (statement old) st)"

definition recordEnvelope :: "SCPEnvelope \<Rightarrow> Slot \<Rightarrow> Slot" where
  "recordEnvelope env s =
     recordStatement (statement env)
       (s\<lparr>mLatestEnvelopes := map_put (nodeID (statement env)) env (mLatestEnvelopes s)\<rparr>)"

definition isStatementSane :: "SCPContext \<Rightarrow> SCPStatement \<Rightarrow> bool \<Rightarrow> bool" where
  "isStatementSane S st self =
     (case getQuorumSetFromStatement S st of
        None \<Rightarrow> False
      | Some qSet \<Rightarrow>
          isQuorumSetSane qSet False \<and>
          (case pledges st of
             SCP_ST_PREPARE _ b p p' c h \<Rightarrow>
               (self \<or> counter b > 0) \<and>
               (case (p', p) of (Some x, Some y) \<Rightarrow> areBallotsLessAndIncompatible x y | _ \<Rightarrow> True) \<and>
               (h = 0 \<or> (case p of Some y \<Rightarrow> h \<le> counter y | None \<Rightarrow> False)) \<and>
               (c = 0 \<or> (h \<noteq> 0 \<and> counter b \<ge> h \<and> h \<ge> c))
           | SCP_ST_CONFIRM b p c h _ \<Rightarrow> counter b > 0 \<and> h \<le> counter b \<and> c \<le> h
           | SCP_ST_EXTERNALIZE b h _ \<Rightarrow> counter b > 0 \<and> h \<ge> counter b
           | SCP_ST_NOMINATE _ _ _ \<Rightarrow> False))"

fun getWorkingBallot :: "SCPPledges \<Rightarrow> SCPBallot" where
  "getWorkingBallot (SCP_ST_PREPARE _ b _ _ _ _) = b"
| "getWorkingBallot (SCP_ST_CONFIRM b _ c _ _) = SCPBallot c (bvalue b)"
| "getWorkingBallot (SCP_ST_EXTERNALIZE c _ _) = c"
| "getWorkingBallot (SCP_ST_NOMINATE _ _ _) = SCPBallot 0 []"

definition hasPreparedBallot :: "SCPBallot \<Rightarrow> SCPStatement \<Rightarrow> bool" where
  "hasPreparedBallot bal st =
     (case pledges st of
        SCP_ST_PREPARE _ _ p p' _ _ \<Rightarrow>
          (case p of Some x \<Rightarrow> areBallotsLessAndCompatible bal x | None \<Rightarrow> False) \<or>
          (case p' of Some x \<Rightarrow> areBallotsLessAndCompatible bal x | None \<Rightarrow> False)
      | SCP_ST_CONFIRM b p _ _ _ \<Rightarrow> areBallotsLessAndCompatible bal (SCPBallot p (bvalue b))
      | SCP_ST_EXTERNALIZE c _ _ \<Rightarrow> areBallotsCompatible bal c
      | SCP_ST_NOMINATE _ _ _ \<Rightarrow> False)"

text \<open>The statement votes to prepare the ballot (first argument of \<^verbatim>\<open>federatedAccept\<close> in
  \<^verbatim>\<open>attemptPreparedAccept\<close>).\<close>

definition votedPrepare :: "SCPBallot \<Rightarrow> SCPStatement \<Rightarrow> bool" where
  "votedPrepare bal st =
     (case pledges st of
        SCP_ST_PREPARE _ b _ _ _ _ \<Rightarrow> areBallotsLessAndCompatible bal b
      | SCP_ST_CONFIRM b _ _ _ _ \<Rightarrow> areBallotsCompatible bal b
      | SCP_ST_EXTERNALIZE c _ _ \<Rightarrow> areBallotsCompatible bal c
      | SCP_ST_NOMINATE _ _ _ \<Rightarrow> False)"

type_synonym Interval = "u32 \<times> u32"

definition commitPredicate :: "SCPBallot \<Rightarrow> Interval \<Rightarrow> SCPStatement \<Rightarrow> bool" where
  "commitPredicate bal check st =
     (case pledges st of
        SCP_ST_PREPARE _ _ _ _ _ _ \<Rightarrow> False
      | SCP_ST_CONFIRM b _ c h _ \<Rightarrow>
          areBallotsCompatible bal b \<and> c \<le> fst check \<and> snd check \<le> h
      | SCP_ST_EXTERNALIZE c _ _ \<Rightarrow> areBallotsCompatible bal c \<and> counter c \<le> fst check
      | SCP_ST_NOMINATE _ _ _ \<Rightarrow> False)"

text \<open>The statement votes to commit the interval (first argument of \<^verbatim>\<open>federatedAccept\<close> in
  \<^verbatim>\<open>attemptAcceptCommit\<close>).\<close>

definition votedCommit :: "SCPBallot \<Rightarrow> Interval \<Rightarrow> SCPStatement \<Rightarrow> bool" where
  "votedCommit bal cur st =
     (case pledges st of
        SCP_ST_PREPARE _ b _ _ c h \<Rightarrow>
          areBallotsCompatible bal b \<and> c \<noteq> 0 \<and> c \<le> fst cur \<and> snd cur \<le> h
      | SCP_ST_CONFIRM b _ c _ _ \<Rightarrow> areBallotsCompatible bal b \<and> c \<le> fst cur
      | SCP_ST_EXTERNALIZE c _ _ \<Rightarrow> areBallotsCompatible bal c \<and> counter c \<le> fst cur
      | SCP_ST_NOMINATE _ _ _ \<Rightarrow> False)"

definition validateValues :: "SCPContext \<Rightarrow> SCPStatement \<Rightarrow> Slot \<Rightarrow> ValidationLevel" where
  "validateValues S st s =
     (case (case pledges st of
              SCP_ST_PREPARE _ b p _ _ _ \<Rightarrow>
                Some ((case p of Some x \<Rightarrow> set_insert (bvalue x) | None \<Rightarrow> (\<lambda>vs. vs))
                        (if counter b \<noteq> 0 then [bvalue b] else []))
            | SCP_ST_CONFIRM b _ _ _ _ \<Rightarrow> Some [bvalue b]
            | SCP_ST_EXTERNALIZE c _ _ \<Rightarrow> Some [bvalue c]
            | SCP_ST_NOMINATE _ _ _ \<Rightarrow> None) of
        None \<Rightarrow> kInvalidValue
      | Some vs \<Rightarrow>
          foldl (\<lambda>res v.
             let tr = validateValue S (mSlotIndex s) v False in
             if tr \<noteq> kFullyValidatedValue
             then (if tr = kInvalidValue then kInvalidValue else kMaybeValidValue)
             else res) kFullyValidatedValue vs)"

section \<open>Local state\<close>

definition checkInvariants :: "Slot \<Rightarrow> scp_error + unit" where
  "checkInvariants s =
     bindR (dbgAssert (case mCurrentBallot s of Some b \<Rightarrow> counter b \<noteq> 0 | None \<Rightarrow> True)) (\<lambda>_.
     bindR (dbgAssert (case (mPrepared s, mPreparedPrime s) of
               (Some p, Some p') \<Rightarrow> areBallotsLessAndIncompatible p' p | _ \<Rightarrow> True)) (\<lambda>_.
     bindR (case mHighBallot s of
              Some h \<Rightarrow> (case mCurrentBallot s of
                           Some b \<Rightarrow> dbgAssert (areBallotsLessAndCompatible h b)
                         | None \<Rightarrow> Inl DbgAbort)
            | None \<Rightarrow> Inr ()) (\<lambda>_.
     bindR (case mCommit s of
              Some c \<Rightarrow> (case mCurrentBallot s of
                           Some b \<Rightarrow>
                             bindR (deref (mHighBallot s)) (\<lambda>h.
                             bindR (dbgAssert (areBallotsLessAndCompatible c h)) (\<lambda>_.
                             dbgAssert (areBallotsLessAndCompatible h b)))
                         | None \<Rightarrow> Inl DbgAbort)
            | None \<Rightarrow> Inr ()) (\<lambda>_.
     case mPhase s of
       SCP_PHASE_PREPARE \<Rightarrow> Inr ()
     | SCP_PHASE_CONFIRM \<Rightarrow> dbgAssert (mCommit s \<noteq> None)
     | SCP_PHASE_EXTERNALIZE \<Rightarrow> bindR (dbgAssert (mCommit s \<noteq> None)) (\<lambda>_.
         dbgAssert (mHighBallot s \<noteq> None))))))"

definition bumpToBallot :: "SCPBallot \<Rightarrow> bool \<Rightarrow> Slot \<Rightarrow> scp_error + Slot" where
  "bumpToBallot bal check s =
     bindR (dbgAssert (mPhase s \<noteq> SCP_PHASE_EXTERNALIZE)) (\<lambda>_.
     bindR (if check
            then dbgAssert (case mCurrentBallot s of None \<Rightarrow> True
                            | Some b \<Rightarrow> compareBallots bal b \<ge> 0)
            else Inr ()) (\<lambda>_.
     let gotBumped = (case mCurrentBallot s of None \<Rightarrow> True | Some b \<Rightarrow> counter b \<noteq> counter bal);
         s1 = (if mCurrentBallot s = None
               then driverCall (StartedBallotProtocol (mSlotIndex s) bal) s else s);
         s2 = s1\<lparr>mCurrentBallot := Some bal\<rparr>;
         s3 = (case mHighBallot s2 of
                 Some h \<Rightarrow> if \<not> areBallotsCompatible bal h then s2\<lparr>mHighBallot := None\<rparr> else s2
               | None \<Rightarrow> s2);
         s4 = (if gotBumped then s3\<lparr>mHeardFromQuorum := False\<rparr> else s3)
     in Inr s4))"

definition updateCurrentIfNeeded :: "SCPBallot \<Rightarrow> Slot \<Rightarrow> scp_error + (bool \<times> Slot)" where
  "updateCurrentIfNeeded h s =
     (if (case mCurrentBallot s of None \<Rightarrow> True | Some b \<Rightarrow> compareBallots b h < 0)
      then bindR (bumpToBallot h True s) (\<lambda>s. Inr (True, s))
      else Inr (False, s))"

definition updateCurrentValue :: "SCPBallot \<Rightarrow> Slot \<Rightarrow> scp_error + (bool \<times> Slot)" where
  "updateCurrentValue bal s =
     (if mPhase s \<noteq> SCP_PHASE_PREPARE \<and> mPhase s \<noteq> SCP_PHASE_CONFIRM then Inr (False, s)
      else case mCurrentBallot s of
        None \<Rightarrow>
          bindR (bumpToBallot bal True s) (\<lambda>s.
          bindR (checkInvariants s) (\<lambda>_. Inr (True, s)))
      | Some b \<Rightarrow>
          bindR (dbgAssert (compareBallots b bal \<le> 0)) (\<lambda>_.
          if (case mCommit s of Some c \<Rightarrow> \<not> areBallotsCompatible c bal | None \<Rightarrow> False)
          then Inr (False, s)
          else let comp = compareBallots b bal in
            if comp < 0
            then bindR (bumpToBallot bal True s) (\<lambda>s.
                 bindR (checkInvariants s) (\<lambda>_. Inr (True, s)))
            else if comp > 0 then Inr (False, s)
            else bindR (checkInvariants s) (\<lambda>_. Inr (False, s))))"

definition setPrepared :: "SCPBallot \<Rightarrow> Slot \<Rightarrow> bool \<times> Slot" where
  "setPrepared bal s =
     (case mPrepared s of
        Some p \<Rightarrow>
          (let comp = compareBallots p bal in
           if comp < 0
           then (True, (if \<not> areBallotsCompatible p bal then s\<lparr>mPreparedPrime := Some p\<rparr> else s)
                         \<lparr>mPrepared := Some bal\<rparr>)
           else if comp > 0
           then (if (case mPreparedPrime s of None \<Rightarrow> True | Some p' \<Rightarrow> compareBallots p' bal < 0)
                 then (True, s\<lparr>mPreparedPrime := Some bal\<rparr>)
                 else (False, s))
           else (False, s))
      | None \<Rightarrow> (True, s\<lparr>mPrepared := Some bal\<rparr>))"

definition startBallotProtocolTimer :: "Slot \<Rightarrow> SCPBallot \<Rightarrow> Slot" where
  "startBallotProtocolTimer s b =
     driverCall (SetupTimer (mSlotIndex s) BALLOT_PROTOCOL_TIMER (computeTimeout (counter b))
       (Some BallotProtocolTimerExpired)) s"

definition stopBallotProtocolTimer :: "Slot \<Rightarrow> Slot" where
  "stopBallotProtocolTimer s =
     driverCall (SetupTimer (mSlotIndex s) BALLOT_PROTOCOL_TIMER 0 None) s"

definition checkHeardFromQuorum :: "SCPContext \<Rightarrow> Slot \<Rightarrow> Slot" where
  "checkHeardFromQuorum S s =
     (case mCurrentBallot s of
        None \<Rightarrow> s
      | Some b \<Rightarrow>
          if isQuorum (localQSet S) (mLatestEnvelopes s) (getQuorumSetFromStatement S)
               (\<lambda>st. case pledges st of
                       SCP_ST_PREPARE _ pb _ _ _ _ \<Rightarrow> counter b \<le> counter pb
                     | _ \<Rightarrow> True)
          then let oldHQ = mHeardFromQuorum s;
                   s1 = s\<lparr>mHeardFromQuorum := True\<rparr>;
                   s2 = (if \<not> oldHQ
                         then let s' = driverCall (BallotDidHearFromQuorum (mSlotIndex s1) b) s1
                              in if mPhase s' \<noteq> SCP_PHASE_EXTERNALIZE
                                 then startBallotProtocolTimer s' b else s'
                         else s1)
               in if mPhase s2 = SCP_PHASE_EXTERNALIZE then stopBallotProtocolTimer s2 else s2
          else stopBallotProtocolTimer (s\<lparr>mHeardFromQuorum := False\<rparr>))"

section \<open>Emitting statements\<close>

definition createStatement :: "SCPContext \<Rightarrow> Slot \<Rightarrow> scp_error + SCPPledges" where
  "createStatement S s =
     bindR (checkInvariants s) (\<lambda>_.
     case mPhase s of
       SCP_PHASE_PREPARE \<Rightarrow>
         Inr (SCP_ST_PREPARE (localQSetHash S)
               (case mCurrentBallot s of Some b \<Rightarrow> b | None \<Rightarrow> SCPBallot 0 [])
               (mPrepared s) (mPreparedPrime s)
               (case mCommit s of Some c \<Rightarrow> counter c | None \<Rightarrow> 0)
               (case mHighBallot s of Some h \<Rightarrow> counter h | None \<Rightarrow> 0))
     | SCP_PHASE_CONFIRM \<Rightarrow>
         bindR (deref (mCurrentBallot s)) (\<lambda>b.
         bindR (deref (mPrepared s)) (\<lambda>p.
         bindR (deref (mCommit s)) (\<lambda>c.
         bindR (deref (mHighBallot s)) (\<lambda>h.
         Inr (SCP_ST_CONFIRM b (counter p) (counter c) (counter h) (localQSetHash S))))))
     | SCP_PHASE_EXTERNALIZE \<Rightarrow>
         bindR (deref (mCommit s)) (\<lambda>c.
         bindR (deref (mHighBallot s)) (\<lambda>h.
         Inr (SCP_ST_EXTERNALIZE c (counter h) (localQSetHash S)))))"

definition sendLatestEnvelope :: "Slot \<Rightarrow> Slot" where
  "sendLatestEnvelope s =
     (case mLastEnvelope s of
        Some (p, e) \<Rightarrow>
          if mCurrentMessageLevel s = 0 \<and> mFullyValidated s \<and>
             (case mLastEnvelopeEmit s of None \<Rightarrow> True | Some (p', _) \<Rightarrow> p \<noteq> p')
          then driverCall (EmitEnvelope e) (s\<lparr>mLastEnvelopeEmit := Some (p, e)\<rparr>)
          else s
      | None \<Rightarrow> s)"

type_synonym SelfProc = "SCPEnvelope \<Rightarrow> Slot \<Rightarrow> scp_error + (EnvelopeState \<times> Slot)"

definition setLastEnvelope :: "SCPEnvelope \<Rightarrow> Slot \<Rightarrow> Slot" where
  "setLastEnvelope env s =
     s\<lparr>mLastEnvelope := Some (mNextAllocation s, env), mNextAllocation := mNextAllocation s + 1\<rparr>"

definition emitCurrentStateStatement ::
  "SelfProc \<Rightarrow> SCPContext \<Rightarrow> Slot \<Rightarrow> scp_error + Slot" where
  "emitCurrentStateStatement proc S s =
     bindR (createStatement S s) (\<lambda>pl.
     let env = createEnvelope S pl s;
         canEmit = (mCurrentBallot s \<noteq> None);
         lastEnv = map_of (mLatestEnvelopes s) (localNodeID S)
     in if lastEnv \<noteq> Some env
        then bindR (proc env s) (\<lambda>(r, s).
             if r = VALID
             then if canEmit \<and>
                     (case mLastEnvelope s of None \<Rightarrow> True
                      | Some (_, e) \<Rightarrow> isNewerStatement (statement e) (statement env))
                  then Inr (sendLatestEnvelope (setLastEnvelope env s))
                  else Inr s
             else Inl (RuntimeError ''moved to a bad state (ballot protocol)''))
        else Inr s)"

section \<open>Prepare: accept and confirm\<close>

fun hintBallots :: "SCPPledges \<Rightarrow> SCPBallot list" where
  "hintBallots (SCP_ST_PREPARE _ b p p' _ _) =
     set_insert_all ([b] @ (case p of Some x \<Rightarrow> [x] | None \<Rightarrow> []) @
                           (case p' of Some x \<Rightarrow> [x] | None \<Rightarrow> [])) []"
| "hintBallots (SCP_ST_CONFIRM b p _ _ _) =
     set_insert_all [SCPBallot p (bvalue b), SCPBallot UINT32_MAX (bvalue b)] []"
| "hintBallots (SCP_ST_EXTERNALIZE c _ _) = [SCPBallot UINT32_MAX (bvalue c)]"
| "hintBallots (SCP_ST_NOMINATE _ _ _) = []"

text \<open>The ballots one latest statement contributes below \<open>topVote\<close>.\<close>

fun statementCandidates :: "SCPBallot \<Rightarrow> SCPPledges \<Rightarrow> SCPBallot list" where
  "statementCandidates topVote (SCP_ST_PREPARE _ b p p' _ _) =
     (if areBallotsLessAndCompatible b topVote then [b] else []) @
     (case p of Some x \<Rightarrow> if areBallotsLessAndCompatible x topVote then [x] else [] | None \<Rightarrow> []) @
     (case p' of Some x \<Rightarrow> if areBallotsLessAndCompatible x topVote then [x] else [] | None \<Rightarrow> [])"
| "statementCandidates topVote (SCP_ST_CONFIRM b p _ _ _) =
     (if areBallotsCompatible topVote b
      then [topVote] @ (if p < counter topVote then [SCPBallot p (bvalue topVote)] else [])
      else [])"
| "statementCandidates topVote (SCP_ST_EXTERNALIZE c _ _) =
     (if areBallotsCompatible topVote c then [topVote] else [])"
| "statementCandidates topVote (SCP_ST_NOMINATE _ _ _) = []"

definition getPrepareCandidates :: "SCPStatement \<Rightarrow> Slot \<Rightarrow> SCPBallot list" where
  "getPrepareCandidates hint s =
     foldl (\<lambda>candidates topVote.
         foldl (\<lambda>cs (n, env). set_insert_all (statementCandidates topVote (pledges (statement env))) cs)
           candidates (mLatestEnvelopes s))
       [] (rev (hintBallots (pledges hint)))"

definition setPreparedAccept ::
  "SelfProc \<Rightarrow> SCPContext \<Rightarrow> SCPBallot \<Rightarrow> Slot \<Rightarrow> scp_error + (bool \<times> Slot)" where
  "setPreparedAccept proc S bal s =
     (let (didWork, s1) = setPrepared bal s;
          clear = (case (mCommit s1, mHighBallot s1) of
                     (Some c, Some h) \<Rightarrow>
                       (case mPrepared s1 of Some p \<Rightarrow> areBallotsLessAndIncompatible h p
                                           | None \<Rightarrow> False) \<or>
                       (case mPreparedPrime s1 of Some p' \<Rightarrow> areBallotsLessAndIncompatible h p'
                                                | None \<Rightarrow> False)
                   | _ \<Rightarrow> False)
      in bindR (if clear
                then bindR (dbgAssert (mPhase s1 = SCP_PHASE_PREPARE)) (\<lambda>_.
                     Inr (True, s1\<lparr>mCommit := None\<rparr>))
                else Inr (didWork, s1)) (\<lambda>(didWork, s2).
         if didWork
         then bindR (emitCurrentStateStatement proc S
                (driverCall (AcceptedBallotPrepared (mSlotIndex s2) bal) s2)) (\<lambda>s3. Inr (True, s3))
         else Inr (False, s2)))"

text \<open>The loop over the candidates, from the highest: the first one that can be accepted. It changes
  no state.\<close>

fun findPreparedAccept ::
  "SCPContext \<Rightarrow> Slot \<Rightarrow> SCPBallot list \<Rightarrow> scp_error + SCPBallot option" where
  "findPreparedAccept S s [] = Inr None"
| "findPreparedAccept S s (bal # rest) =
     bindR (if mPhase s = SCP_PHASE_CONFIRM
            then bindR (deref (mPrepared s)) (\<lambda>p.
                 if \<not> areBallotsLessAndCompatible p bal then Inr False
                 else bindR (deref (mCommit s)) (\<lambda>c.
                      bindR (dbgAssert (areBallotsCompatible c bal)) (\<lambda>_. Inr True)))
            else Inr True) (\<lambda>consider.
     if \<not> consider then findPreparedAccept S s rest
     else if (case mPreparedPrime s of Some p' \<Rightarrow> compareBallots bal p' \<le> 0 | None \<Rightarrow> False)
     then findPreparedAccept S s rest
     else if (case mPrepared s of Some p \<Rightarrow> areBallotsLessAndCompatible bal p | None \<Rightarrow> False)
     then findPreparedAccept S s rest
     else if federatedAccept S (votedPrepare bal) (hasPreparedBallot bal) (mLatestEnvelopes s)
     then Inr (Some bal)
     else findPreparedAccept S s rest)"

definition attemptPreparedAccept ::
  "SelfProc \<Rightarrow> SCPContext \<Rightarrow> SCPStatement \<Rightarrow> Slot \<Rightarrow> scp_error + (bool \<times> Slot)" where
  "attemptPreparedAccept proc S hint s =
     (if mPhase s \<noteq> SCP_PHASE_PREPARE \<and> mPhase s \<noteq> SCP_PHASE_CONFIRM then Inr (False, s)
      else bindR (findPreparedAccept S s (rev (getPrepareCandidates hint s))) (\<lambda>found.
           case found of
             Some bal \<Rightarrow> setPreparedAccept proc S bal s
           | None \<Rightarrow> Inr (False, s)))"

definition setPreparedConfirmed ::
  "SelfProc \<Rightarrow> SCPContext \<Rightarrow> SCPBallot \<Rightarrow> SCPBallot \<Rightarrow> Slot \<Rightarrow> scp_error + (bool \<times> Slot)" where
  "setPreparedConfirmed proc S newC newH s =
     (let s0 = s\<lparr>mValueOverride := Some (bvalue newH)\<rparr> in
      bindR (if (case mCurrentBallot s0 of None \<Rightarrow> True | Some b \<Rightarrow> areBallotsCompatible b newH)
             then let (didWork, s1) =
                    (if (case mHighBallot s0 of None \<Rightarrow> True | Some h \<Rightarrow> compareBallots newH h > 0)
                     then (True, s0\<lparr>mHighBallot := Some newH\<rparr>) else (False, s0))
                  in bindR (if counter newC \<noteq> 0
                            then bindR (dbgAssert (mCommit s1 = None)) (\<lambda>_.
                                 Inr (True, s1\<lparr>mCommit := Some newC\<rparr>))
                            else Inr (didWork, s1)) (\<lambda>(didWork, s2).
                     Inr (didWork, if didWork
                                   then driverCall (ConfirmedBallotPrepared (mSlotIndex s2) newH) s2
                                   else s2))
             else Inr (False, s0)) (\<lambda>(didWork, s3).
      bindR (updateCurrentIfNeeded newH s3) (\<lambda>(updated, s4).
      if updated \<or> didWork
      then bindR (emitCurrentStateStatement proc S s4) (\<lambda>s5. Inr (True, s5))
      else Inr (False, s4))))"

text \<open>The two loops of \<^verbatim>\<open>attemptPreparedConfirmed\<close> over the candidates in descending order: the first
  returns the list from \<open>newH\<close> on (the iterator \<^verbatim>\<open>cur\<close>), the second the lowest ballot that can be
  committed together with \<open>newH\<close>.\<close>

fun findNewH :: "SCPContext \<Rightarrow> Slot \<Rightarrow> SCPBallot list \<Rightarrow> SCPBallot list option" where
  "findNewH S s [] = None"
| "findNewH S s (bal # rest) =
     (if (case mHighBallot s of Some h \<Rightarrow> compareBallots h bal \<ge> 0 | None \<Rightarrow> False) then None
      else if federatedRatify S (hasPreparedBallot bal) (mLatestEnvelopes s)
      then Some (bal # rest)
      else findNewH S s rest)"

fun findNewC ::
  "SCPContext \<Rightarrow> Slot \<Rightarrow> SCPBallot \<Rightarrow> SCPBallot \<Rightarrow> SCPBallot list \<Rightarrow> SCPBallot \<Rightarrow> SCPBallot" where
  "findNewC S s b newH [] newC = newC"
| "findNewC S s b newH (bal # rest) newC =
     (if compareBallots bal b < 0 then newC
      else if \<not> areBallotsLessAndCompatible bal newH then findNewC S s b newH rest newC
      else if federatedRatify S (hasPreparedBallot bal) (mLatestEnvelopes s)
      then findNewC S s b newH rest bal
      else newC)"

definition attemptPreparedConfirmed ::
  "SelfProc \<Rightarrow> SCPContext \<Rightarrow> SCPStatement \<Rightarrow> Slot \<Rightarrow> scp_error + (bool \<times> Slot)" where
  "attemptPreparedConfirmed proc S hint s =
     (if mPhase s \<noteq> SCP_PHASE_PREPARE then Inr (False, s)
      else if mPrepared s = None then Inr (False, s)
      else case findNewH S s (rev (getPrepareCandidates hint s)) of
        None \<Rightarrow> Inr (False, s)
      | Some cur \<Rightarrow>
          (let newH = hd cur;
               b = (case mCurrentBallot s of Some b \<Rightarrow> b | None \<Rightarrow> SCPBallot 0 []);
               newC = (if mCommit s = None \<and>
                          (case mPrepared s of None \<Rightarrow> True
                           | Some p \<Rightarrow> \<not> areBallotsLessAndIncompatible newH p) \<and>
                          (case mPreparedPrime s of None \<Rightarrow> True
                           | Some p' \<Rightarrow> \<not> areBallotsLessAndIncompatible newH p')
                       then findNewC S s b newH cur (SCPBallot 0 [])
                       else SCPBallot 0 [])
           in setPreparedConfirmed proc S newC newH s))"

section \<open>Commit: accept and confirm\<close>

fun findExtendedInterval :: "(Interval \<Rightarrow> bool) \<Rightarrow> u32 list \<Rightarrow> Interval \<Rightarrow> Interval" where
  "findExtendedInterval pred [] candidate = candidate"
| "findExtendedInterval pred (b # bs) candidate =
     (if fst candidate = 0
      then if pred (b, b) then findExtendedInterval pred bs (b, b)
           else findExtendedInterval pred bs candidate
      else if b > snd candidate then findExtendedInterval pred bs candidate
      else if pred (b, snd candidate) then findExtendedInterval pred bs (b, snd candidate)
      else candidate)"

fun statementBoundaries :: "SCPBallot \<Rightarrow> SCPPledges \<Rightarrow> u32 list" where
  "statementBoundaries bal (SCP_ST_PREPARE _ b _ _ c h) =
     (if areBallotsCompatible bal b \<and> c \<noteq> 0 then [c, h] else [])"
| "statementBoundaries bal (SCP_ST_CONFIRM b _ c h _) =
     (if areBallotsCompatible bal b then [c, h] else [])"
| "statementBoundaries bal (SCP_ST_EXTERNALIZE c h _) =
     (if areBallotsCompatible bal c then [counter c, h, UINT32_MAX] else [])"
| "statementBoundaries bal (SCP_ST_NOMINATE _ _ _) = []"

definition getCommitBoundariesFromStatements :: "SCPBallot \<Rightarrow> Slot \<Rightarrow> u32 list" where
  "getCommitBoundariesFromStatements bal s =
     foldl (\<lambda>res (n, env). set_insert_all (statementBoundaries bal (pledges (statement env))) res)
       [] (mLatestEnvelopes s)"

definition setAcceptCommit ::
  "SelfProc \<Rightarrow> SCPContext \<Rightarrow> SCPBallot \<Rightarrow> SCPBallot \<Rightarrow> Slot \<Rightarrow> scp_error + (bool \<times> Slot)" where
  "setAcceptCommit proc S c h s =
     (let s0 = s\<lparr>mValueOverride := Some (bvalue h)\<rparr>;
          (didWork, s1) =
            (if (case (mHighBallot s0, mCommit s0) of
                   (Some h0, Some c0) \<Rightarrow> compareBallots h0 h \<noteq> 0 \<or> compareBallots c0 c \<noteq> 0
                 | _ \<Rightarrow> True)
             then (True, s0\<lparr>mCommit := Some c, mHighBallot := Some h\<rparr>)
             else (False, s0))
      in bindR (if mPhase s1 = SCP_PHASE_PREPARE
                then let s2 = s1\<lparr>mPhase := SCP_PHASE_CONFIRM\<rparr> in
                  bindR (if (case mCurrentBallot s2 of
                               Some b \<Rightarrow> \<not> areBallotsLessAndCompatible h b | None \<Rightarrow> False)
                         then bumpToBallot h False s2 else Inr s2) (\<lambda>s3.
                  Inr (True, s3\<lparr>mPreparedPrime := None\<rparr>))
                else Inr (didWork, s1)) (\<lambda>(didWork, s4).
         if didWork
         then bindR (deref (mHighBallot s4)) (\<lambda>h4.
              bindR (updateCurrentIfNeeded h4 s4) (\<lambda>(_, s5).
              bindR (emitCurrentStateStatement proc S
                       (driverCall (AcceptedCommit (mSlotIndex s5) h) s5)) (\<lambda>s6.
              Inr (True, s6))))
         else Inr (False, s4)))"

fun acceptCommitBallot :: "SCPPledges \<Rightarrow> SCPBallot option" where
  "acceptCommitBallot (SCP_ST_PREPARE _ b _ _ c h) =
     (if c \<noteq> 0 then Some (SCPBallot h (bvalue b)) else None)"
| "acceptCommitBallot (SCP_ST_CONFIRM b _ _ h _) = Some (SCPBallot h (bvalue b))"
| "acceptCommitBallot (SCP_ST_EXTERNALIZE c h _) = Some (SCPBallot h (bvalue c))"
| "acceptCommitBallot (SCP_ST_NOMINATE _ _ _) = None"

definition attemptAcceptCommit ::
  "SelfProc \<Rightarrow> SCPContext \<Rightarrow> SCPStatement \<Rightarrow> Slot \<Rightarrow> scp_error + (bool \<times> Slot)" where
  "attemptAcceptCommit proc S hint s =
     (if mPhase s \<noteq> SCP_PHASE_PREPARE \<and> mPhase s \<noteq> SCP_PHASE_CONFIRM then Inr (False, s)
      else case acceptCommitBallot (pledges hint) of
        None \<Rightarrow> Inr (False, s)
      | Some bal \<Rightarrow>
          bindR (if mPhase s = SCP_PHASE_CONFIRM
                 then bindR (deref (mHighBallot s)) (\<lambda>h. Inr (areBallotsCompatible bal h))
                 else Inr True) (\<lambda>compatible.
          if \<not> compatible then Inr (False, s)
          else
            let pred = (\<lambda>cur. federatedAccept S (votedCommit bal cur) (commitPredicate bal cur)
                          (mLatestEnvelopes s));
                boundaries = getCommitBoundariesFromStatements bal s
            in if boundaries = [] then Inr (False, s)
               else let candidate = findExtendedInterval pred (rev boundaries) (0, 0) in
                 if fst candidate \<noteq> 0
                 then bindR (if mPhase s \<noteq> SCP_PHASE_CONFIRM then Inr True
                             else bindR (deref (mHighBallot s)) (\<lambda>h.
                                  Inr (snd candidate > counter h))) (\<lambda>raises.
                      if raises
                      then setAcceptCommit proc S (SCPBallot (fst candidate) (bvalue bal))
                             (SCPBallot (snd candidate) (bvalue bal)) s
                      else Inr (False, s))
                 else Inr (False, s)))"

definition setConfirmCommit ::
  "SelfProc \<Rightarrow> SCPContext \<Rightarrow> SCPBallot \<Rightarrow> SCPBallot \<Rightarrow> Slot \<Rightarrow> scp_error + (bool \<times> Slot)" where
  "setConfirmCommit proc S c h s =
     (let s1 = s\<lparr>mCommit := Some c, mHighBallot := Some h\<rparr> in
      bindR (updateCurrentIfNeeded h s1) (\<lambda>(_, s2).
      let s3 = s2\<lparr>mPhase := SCP_PHASE_EXTERNALIZE\<rparr> in
      bindR (emitCurrentStateStatement proc S s3) (\<lambda>s4.
      let s5 = stopNomination s4 in
      bindR (deref (mCommit s5)) (\<lambda>c5.
      Inr (True, driverCall (ValueExternalized (mSlotIndex s5) (bvalue c5)) s5)))))"

fun confirmCommitBallot :: "SCPPledges \<Rightarrow> SCPBallot option" where
  "confirmCommitBallot (SCP_ST_PREPARE _ _ _ _ _ _) = None"
| "confirmCommitBallot (SCP_ST_CONFIRM b _ _ h _) = Some (SCPBallot h (bvalue b))"
| "confirmCommitBallot (SCP_ST_EXTERNALIZE c h _) = Some (SCPBallot h (bvalue c))"
| "confirmCommitBallot (SCP_ST_NOMINATE _ _ _) = None"

definition attemptConfirmCommit ::
  "SelfProc \<Rightarrow> SCPContext \<Rightarrow> SCPStatement \<Rightarrow> Slot \<Rightarrow> scp_error + (bool \<times> Slot)" where
  "attemptConfirmCommit proc S hint s =
     (if mPhase s \<noteq> SCP_PHASE_CONFIRM then Inr (False, s)
      else case (mHighBallot s, mCommit s) of
        (Some h, Some c) \<Rightarrow>
          (case confirmCommitBallot (pledges hint) of
             None \<Rightarrow> Inr (False, s)
           | Some bal \<Rightarrow>
               if \<not> areBallotsCompatible bal c then Inr (False, s)
               else
                 let boundaries = getCommitBoundariesFromStatements bal s;
                     pred = (\<lambda>cur. federatedRatify S (commitPredicate bal cur) (mLatestEnvelopes s));
                     candidate = findExtendedInterval pred (rev boundaries) (0, 0)
                 in if fst candidate \<noteq> 0
                    then setConfirmCommit proc S (SCPBallot (fst candidate) (bvalue bal))
                           (SCPBallot (snd candidate) (bvalue bal)) s
                    else Inr (False, s))
      | _ \<Rightarrow> Inr (False, s))"

section \<open>Bumping the ballot\<close>

definition bumpStateCounter ::
  "SelfProc \<Rightarrow> SCPContext \<Rightarrow> Value \<Rightarrow> u32 \<Rightarrow> Slot \<Rightarrow> scp_error + (bool \<times> Slot)" where
  "bumpStateCounter proc S v n s =
     (if mPhase s \<noteq> SCP_PHASE_PREPARE \<and> mPhase s \<noteq> SCP_PHASE_CONFIRM then Inr (False, s)
      else let newb = SCPBallot n (case mValueOverride s of Some x \<Rightarrow> x | None \<Rightarrow> v) in
        bindR (updateCurrentValue newb s) (\<lambda>(updated, s1).
        if updated
        then bindR (emitCurrentStateStatement proc S s1) (\<lambda>s2. Inr (True, checkHeardFromQuorum S s2))
        else Inr (False, s1)))"

definition bumpStateForce ::
  "SelfProc \<Rightarrow> SCPContext \<Rightarrow> Value \<Rightarrow> bool \<Rightarrow> Slot \<Rightarrow> scp_error + (bool \<times> Slot)" where
  "bumpStateForce proc S v force s =
     (if \<not> force \<and> mCurrentBallot s \<noteq> None then Inr (False, s)
      else let n = (case mCurrentBallot s of Some b \<Rightarrow> counter b + 1 | None \<Rightarrow> 1)
           in bumpStateCounter proc S v n s)"

definition abandonBallotWith ::
  "SelfProc \<Rightarrow> SCPContext \<Rightarrow> u32 \<Rightarrow> Slot \<Rightarrow> scp_error + (bool \<times> Slot)" where
  "abandonBallotWith proc S n s =
     (let v0 = mLatestCompositeCandidate s;
          v = (if v0 = [] then (case mCurrentBallot s of Some b \<Rightarrow> bvalue b | None \<Rightarrow> v0) else v0)
      in if v \<noteq> []
         then (if n = 0 then bumpStateForce proc S v True s else bumpStateCounter proc S v n s)
         else Inr (False, s))"

fun statementCounter :: "SCPPledges \<Rightarrow> u32" where
  "statementCounter (SCP_ST_PREPARE _ b _ _ _ _) = counter b"
| "statementCounter (SCP_ST_CONFIRM b _ _ _ _) = counter b"
| "statementCounter (SCP_ST_EXTERNALIZE _ _ _) = UINT32_MAX"
| "statementCounter (SCP_ST_NOMINATE _ _ _) = UINT32_MAX"

definition aheadOf :: "u32 \<Rightarrow> SCPStatement \<Rightarrow> bool" where
  "aheadOf n st =
     (case pledges st of
        SCP_ST_PREPARE _ b _ _ _ _ \<Rightarrow> n < counter b
      | SCP_ST_CONFIRM b _ _ _ _ \<Rightarrow> n < counter b
      | _ \<Rightarrow> n \<noteq> UINT32_MAX)"

text \<open>The loop over the counters in ascending order: the counter to move to, if any.\<close>

fun findBumpCounter :: "SCPContext \<Rightarrow> Slot \<Rightarrow> u32 \<Rightarrow> u32 list \<Rightarrow> u32 option" where
  "findBumpCounter S s targetCounter [] = None"
| "findBumpCounter S s targetCounter (n # ns) =
     (if n < targetCounter then None
      else let vBlocking = isVBlockingMap (localQSet S) (mLatestEnvelopes s) (aheadOf n) in
        if n = targetCounter
        then (if \<not> vBlocking then None else findBumpCounter S s targetCounter ns)
        else (if \<not> vBlocking then Some n else findBumpCounter S s targetCounter ns))"

definition attemptBump ::
  "SelfProc \<Rightarrow> SCPContext \<Rightarrow> Slot \<Rightarrow> scp_error + (bool \<times> Slot)" where
  "attemptBump proc S s =
     (if mPhase s = SCP_PHASE_PREPARE \<or> mPhase s = SCP_PHASE_CONFIRM
      then let targetCounter = (case mCurrentBallot s of Some b \<Rightarrow> counter b | None \<Rightarrow> 0);
               allCounters = set_insert targetCounter
                 (set_insert_all (map (\<lambda>(n, env). statementCounter (pledges (statement env)))
                    (mLatestEnvelopes s)) [])
           in case findBumpCounter S s targetCounter allCounters of
                Some n \<Rightarrow> abandonBallotWith proc S n s
              | None \<Rightarrow> Inr (False, s)
      else Inr (False, s))"

section \<open>Processing an envelope\<close>

text \<open>\<^verbatim>\<open>do { didBump = attemptBump(); didWork = didBump || didWork; } while (didBump);\<close>\<close>

definition bumpIteration ::
  "(Slot \<Rightarrow> scp_error + (bool \<times> Slot)) \<Rightarrow> bool \<Rightarrow> Slot \<Rightarrow> scp_error + (bool \<times> bool \<times> Slot)" where
  "bumpIteration body didWork s = bindR (body s) (\<lambda>(didBump, s'). Inr (didBump, didBump \<or> didWork, s'))"

definition bumpLoop ::
  "(Slot \<Rightarrow> scp_error + (bool \<times> Slot)) \<Rightarrow> bool \<Rightarrow> Slot \<Rightarrow> scp_error + (bool \<times> Slot)" where
  "bumpLoop body didWork s =
     (case while_option
             (\<lambda>r. case r of Inr (didBump, _, _) \<Rightarrow> didBump | Inl _ \<Rightarrow> False)
             (\<lambda>r. case r of Inr (_, w, s') \<Rightarrow> bumpIteration body w s' | Inl e \<Rightarrow> Inl e)
             (bumpIteration body didWork s) of
        None \<Rightarrow> Inl LoopDiverges
      | Some r \<Rightarrow> bindR r (\<lambda>(_, w, s'). Inr (w, s')))"

definition MAX_ADVANCE_SLOT_RECURSION :: int where
  "MAX_ADVANCE_SLOT_RECURSION = 50"

definition processEnvelopeWith ::
  "(SCPStatement \<Rightarrow> Slot \<Rightarrow> scp_error + Slot) \<Rightarrow> SCPContext \<Rightarrow> bool \<Rightarrow> SCPEnvelope \<Rightarrow> Slot
     \<Rightarrow> scp_error + (EnvelopeState \<times> Slot)" where
  "processEnvelopeWith advance S self env s =
     bindR (dbgAssert (slotIndex (statement env) = mSlotIndex s)) (\<lambda>_.
     let st = statement env in
     if \<not> isStatementSane S st self then Inr (INVALID, s)
     else if \<not> isNewerStatementNode (nodeID st) st s then Inr (INVALID, s)
     else let validationRes = validateValues S st s in
       if validationRes \<noteq> kInvalidValue
       then if mPhase s \<noteq> SCP_PHASE_EXTERNALIZE
            then let s1 = (if validationRes = kMaybeValidValue then setFullyValidated False s else s);
                     s2 = recordEnvelope env s1
                 in bindR (advance st s2) (\<lambda>s3. Inr (VALID, s3))
            else bindR (deref (mCommit s)) (\<lambda>c.
                 if bvalue c = bvalue (getWorkingBallot (pledges st))
                 then Inr (VALID, recordEnvelope env s)
                 else Inr (INVALID, s))
       else Inr (INVALID, s))"

fun advanceSlot :: "nat \<Rightarrow> SCPContext \<Rightarrow> SCPStatement \<Rightarrow> Slot \<Rightarrow> scp_error + Slot" where
  "advanceSlot 0 S hint s = Inl OutOfFuel"
| "advanceSlot (Suc fuel) S hint s =
     (let proc = processEnvelopeWith (advanceSlot fuel S) S True;
          s0 = s\<lparr>mCurrentMessageLevel := mCurrentMessageLevel s + 1\<rparr>
      in if mCurrentMessageLevel s0 \<ge> MAX_ADVANCE_SLOT_RECURSION
         then Inl (RuntimeError ''maximum number of transitions reached in advanceSlot'')
         else
           bindR (attemptPreparedAccept proc S hint s0) (\<lambda>(w1, s1).
           bindR (attemptPreparedConfirmed proc S hint s1) (\<lambda>(w2, s2).
           bindR (attemptAcceptCommit proc S hint s2) (\<lambda>(w3, s3).
           bindR (attemptConfirmCommit proc S hint s3) (\<lambda>(w4, s4).
           let didWork = (w4 \<or> w3 \<or> w2 \<or> w1) in
           bindR (if mCurrentMessageLevel s4 = 1
                  then bindR (bumpLoop (attemptBump proc S) didWork s4) (\<lambda>(w5, s5).
                       Inr (w5, checkHeardFromQuorum S s5))
                  else Inr (didWork, s4)) (\<lambda>(didWork, s6).
           let s7 = s6\<lparr>mCurrentMessageLevel := mCurrentMessageLevel s6 - 1\<rparr>
           in Inr (if didWork then sendLatestEnvelope s7 else s7)))))))"

text \<open>The entry points: the depth bound of the code is the fuel.\<close>

definition processEnvelope ::
  "SCPContext \<Rightarrow> bool \<Rightarrow> SCPEnvelope \<Rightarrow> Slot \<Rightarrow> scp_error + (EnvelopeState \<times> Slot)" where
  "processEnvelope S self env s = processEnvelopeWith (advanceSlot 50 S) S self env s"

definition bumpState :: "SCPContext \<Rightarrow> Value \<Rightarrow> bool \<Rightarrow> Slot \<Rightarrow> scp_error + (bool \<times> Slot)" where
  "bumpState S v force s = bumpStateForce (processEnvelope S True) S v force s"

definition abandonBallot :: "SCPContext \<Rightarrow> u32 \<Rightarrow> Slot \<Rightarrow> scp_error + (bool \<times> Slot)" where
  "abandonBallot S n s = abandonBallotWith (processEnvelope S True) S n s"

definition ballotProtocolTimerExpired :: "SCPContext \<Rightarrow> Slot \<Rightarrow> scp_error + Slot" where
  "ballotProtocolTimerExpired S s = bindR (abandonBallot S 0 s) (\<lambda>(_, s'). Inr s')"

section \<open>Saving and restoring state\<close>

definition setStateFromEnvelope :: "SCPEnvelope \<Rightarrow> Slot \<Rightarrow> scp_error + Slot" where
  "setStateFromEnvelope e s =
     (if mCurrentBallot s \<noteq> None
      then Inl (RuntimeError ''Cannot set state after starting ballot protocol'')
      else
        let s1 = setLastEnvelope e (recordEnvelope e s);
            s2 = s1\<lparr>mLastEnvelopeEmit := mLastEnvelope s1\<rparr>
        in case pledges (statement e) of
          SCP_ST_PREPARE _ b p p' c h \<Rightarrow>
            bindR (bumpToBallot b True s2) (\<lambda>s3.
            let s4 = (if p \<noteq> None then s3\<lparr>mPrepared := p\<rparr> else s3);
                s5 = (if p' \<noteq> None then s4\<lparr>mPreparedPrime := p'\<rparr> else s4);
                s6 = (if h \<noteq> 0 then s5\<lparr>mHighBallot := Some (SCPBallot h (bvalue b))\<rparr> else s5);
                s7 = (if c \<noteq> 0 then s6\<lparr>mCommit := Some (SCPBallot c (bvalue b))\<rparr> else s6)
            in Inr (s7\<lparr>mPhase := SCP_PHASE_PREPARE\<rparr>))
        | SCP_ST_CONFIRM b p c h _ \<Rightarrow>
            bindR (bumpToBallot b True s2) (\<lambda>s3.
            Inr (s3\<lparr>mPrepared := Some (SCPBallot p (bvalue b)),
                    mHighBallot := Some (SCPBallot h (bvalue b)),
                    mCommit := Some (SCPBallot c (bvalue b)), mPhase := SCP_PHASE_CONFIRM\<rparr>))
        | SCP_ST_EXTERNALIZE c h _ \<Rightarrow>
            bindR (bumpToBallot (SCPBallot UINT32_MAX (bvalue c)) True s2) (\<lambda>s3.
            Inr (s3\<lparr>mPrepared := Some (SCPBallot UINT32_MAX (bvalue c)),
                    mHighBallot := Some (SCPBallot h (bvalue c)),
                    mCommit := Some c, mPhase := SCP_PHASE_EXTERNALIZE\<rparr>))
        | SCP_ST_NOMINATE _ _ _ \<Rightarrow> Inl DbgAbort)"

definition getCurrentState :: "SCPContext \<Rightarrow> Slot \<Rightarrow> SCPEnvelope list" where
  "getCurrentState S s =
     map snd (filter (\<lambda>(n, env). n \<noteq> localNodeID S \<or> mFullyValidated s) (mLatestEnvelopes s))"

definition getExternalizingState :: "SCPContext \<Rightarrow> Slot \<Rightarrow> scp_error + SCPEnvelope list" where
  "getExternalizingState S s =
     (if mPhase s = SCP_PHASE_EXTERNALIZE
      then if (\<exists>(n, env) \<in> set (mLatestEnvelopes s). n \<noteq> localNodeID S)
           then bindR (deref (mCommit s)) (\<lambda>c. Inr (map snd (filter (\<lambda>(n, env).
                  if n \<noteq> localNodeID S
                  then areBallotsCompatible (getWorkingBallot (pledges (statement env))) c
                  else mFullyValidated s) (mLatestEnvelopes s))))
           else Inr (map snd (filter (\<lambda>(n, env). mFullyValidated s) (mLatestEnvelopes s)))
      else Inr [])"

end
