(* ===== verification/SlotSteps.thy ===== *)
theory SlotSteps
  imports BallotProtocol "HOL-Library.Option_ord" "HOL-Library.Product_Lexorder"
begin

text \<open>
  The slot as a state machine: the relation \<open>slot_step\<close> has one rule per kind of state change the
  ballot protocol makes, guarded by what the code checks before it makes the change, and says of the new state only
  what an observer may rely on. The theory \<open>BallotRefinement\<close> shows that the functions of
  \<open>BallotProtocol\<close> only ever make such steps; the invariants of the slot are proved here once, by
  induction on the steps.
\<close>

section \<open>Orders used by the machine\<close>

lemma compareBallots_iff [simp]:
  "compareBallots a b < 0 \<longleftrightarrow> a < b" "compareBallots a b > 0 \<longleftrightarrow> b < a"
  "compareBallots a b = 0 \<longleftrightarrow> a = b" "compareBallots a b \<le> 0 \<longleftrightarrow> a \<le> b"
  "compareBallots a b \<ge> 0 \<longleftrightarrow> b \<le> a" "compareBallots a b = - 1 \<longleftrightarrow> a < b"
  "compareBallots a b = 1 \<longleftrightarrow> b < a" "compareBallots a a = 0"
  by (auto simp: compareBallots_def less_SCPBallot_def less_eq_SCPBallot_def intro: ballot_eqI)

lemma ballot_rel_simps [simp]:
  "areBallotsCompatible a b \<longleftrightarrow> bvalue a = bvalue b"
  "areBallotsLessAndCompatible a b \<longleftrightarrow> a \<le> b \<and> bvalue a = bvalue b"
  "areBallotsLessAndIncompatible a b \<longleftrightarrow> a \<le> b \<and> bvalue a \<noteq> bvalue b"
  by (simp_all add: areBallotsCompatible_def areBallotsLessAndCompatible_def
      areBallotsLessAndIncompatible_def)

lemma compareBallotPtrs_iff [simp]:
  "compareBallotPtrs a b < 0 \<longleftrightarrow> a < b" "compareBallotPtrs a b = 0 \<longleftrightarrow> a = b"
  by (auto simp: compareBallotPtrs_def split: option.splits)

text \<open>The order of statements of one node is lexicographic in their fields, phase first.\<close>

lemma isNewerStatement_iff:
  "isNewerStatement old st \<longleftrightarrow>
     pledgeType (pledges old) < pledgeType (pledges st) \<or>
     (case (pledges old, pledges st) of
        (SCP_ST_PREPARE _ ob op op' _ oh, SCP_ST_PREPARE _ b p p' _ h) \<Rightarrow>
          (ob, op, op', oh) < (b, p, p', h)
      | (SCP_ST_CONFIRM ob op _ oh _, SCP_ST_CONFIRM b p _ h _) \<Rightarrow> (ob, op, oh) < (b, p, h)
      | _ \<Rightarrow> False)"
  by (cases "pledges old"; cases "pledges st") (auto simp: isNewerStatement_def Let_def)

lemma isNewerStatement_irrefl [simp]: "\<not> isNewerStatement st st"
  by (cases "pledges st") (auto simp: isNewerStatement_iff)

lemma isNewerStatement_trans:
  assumes "isNewerStatement x y" "isNewerStatement y z"
  shows "isNewerStatement x z"
  using assms
  by (cases "pledges x"; cases "pledges y"; cases "pledges z")
    (auto simp: isNewerStatement_iff simp del: less_prod_simp elim: less_trans)

fun phaseNo :: "SCPPhase \<Rightarrow> nat" where
  "phaseNo SCP_PHASE_PREPARE = 0"
| "phaseNo SCP_PHASE_CONFIRM = 1"
| "phaseNo SCP_PHASE_EXTERNALIZE = 2"

section \<open>Vocabulary of the machine\<close>

named_theorems slot_update \<open>the updates of a slot that are not record updates already\<close>

lemmas [slot_update] = recordEnvelope_def recordStatement_def setFullyValidated_def driverCall_def
  stopNomination_def setLastEnvelope_def

definition quiet :: "DriverCall \<Rightarrow> bool" where
  "quiet c \<longleftrightarrow> (case c of EmitEnvelope _ \<Rightarrow> False | ValueExternalized _ _ \<Rightarrow> False | _ \<Rightarrow> True)"

definition isNomination :: "SCPStatement \<Rightarrow> bool" where
  "isNomination st \<longleftrightarrow> (case pledges st of SCP_ST_NOMINATE _ _ _ \<Rightarrow> True | _ \<Rightarrow> False)"

text \<open>The calls of the nomination protocol: it may also emit nominations.\<close>

definition quietNomination :: "DriverCall \<Rightarrow> bool" where
  "quietNomination c \<longleftrightarrow> quiet c \<or> (\<exists>e. c = EmitEnvelope e \<and> isNomination (statement e))"

fun externalizedIn :: "DriverCall \<Rightarrow> (u64 \<times> Value) list" where
  "externalizedIn (ValueExternalized i v) = [(i, v)]"
| "externalizedIn _ = []"

definition externalizedValues :: "Slot \<Rightarrow> (u64 \<times> Value) list" where
  "externalizedValues s = concat (map externalizedIn (mDriverCalls s))"

text \<open>The ballot statements the slot has emitted, in order.\<close>

fun emittedIn :: "DriverCall \<Rightarrow> SCPEnvelope list" where
  "emittedIn (EmitEnvelope e) = (if isNomination (statement e) then [] else [e])"
| "emittedIn _ = []"

definition emittedBallots :: "Slot \<Rightarrow> SCPEnvelope list" where
  "emittedBallots s = concat (map emittedIn (mDriverCalls s))"

lemma quiet_calls [simp]:
  "list_all quiet cs \<Longrightarrow> concat (map externalizedIn cs) = []"
  "list_all quiet cs \<Longrightarrow> concat (map emittedIn cs) = []"
  "list_all quietNomination cs \<Longrightarrow> concat (map externalizedIn cs) = []"
  "list_all quietNomination cs \<Longrightarrow> concat (map emittedIn cs) = []"
  by (induction cs) (auto simp: quiet_def quietNomination_def split: DriverCall.splits)

definition ownEnvelope :: "SCPContext \<Rightarrow> Slot \<Rightarrow> SCPEnvelope \<Rightarrow> bool" where
  "ownEnvelope S s env \<longleftrightarrow> (\<exists>pl. createStatement S s = Inr pl \<and> env = createEnvelope S pl s)"

definition newerThanLast :: "Slot \<Rightarrow> SCPEnvelope \<Rightarrow> bool" where
  "newerThanLast s env \<longleftrightarrow>
     (case mLastEnvelope s of None \<Rightarrow> True
      | Some (_, e) \<Rightarrow> isNewerStatement (statement e) (statement env))"

definition wellFormed :: "Slot \<Rightarrow> bool" where
  "wellFormed s \<longleftrightarrow> checkInvariants s = Inr ()"

section \<open>The steps\<close>

text \<open>\<open>A\<close> is the set of envelopes the network offers; all others are created by the node itself.\<close>

inductive slot_step :: "SCPContext \<Rightarrow> SCPEnvelope set \<Rightarrow> Slot \<Rightarrow> Slot \<Rightarrow> bool" for S A where
  record_envelope:
    "isStatementSane S (statement env) self \<Longrightarrow>
     isNewerStatementNode (nodeID (statement env)) (statement env) s \<Longrightarrow>
     slotIndex (statement env) = mSlotIndex s \<Longrightarrow>
     validateValues S (statement env) s \<noteq> kInvalidValue \<Longrightarrow>
     env \<in> A \<or> ownEnvelope S s env \<Longrightarrow>
     (mPhase s = SCP_PHASE_EXTERNALIZE \<longrightarrow>
       map_option bvalue (mCommit s) = Some (bvalue (getWorkingBallot (pledges (statement env))))) \<Longrightarrow>
     (fv \<longrightarrow> mFullyValidated s) \<Longrightarrow>
     slot_step S A s (recordEnvelope env (setFullyValidated fv s))"
| accept_prepared:
    "mPhase s \<noteq> SCP_PHASE_EXTERNALIZE \<Longrightarrow>
     (mPhase s = SCP_PHASE_CONFIRM \<longrightarrow>
       (\<exists>p. mPrepared s = Some p \<and> p \<le> bal \<and> bvalue p = bvalue bal)) \<Longrightarrow>
     federatedAccept S (votedPrepare bal) (hasPreparedBallot bal) (mLatestEnvelopes s) \<Longrightarrow>
     setPrepared bal s = (w, s1) \<Longrightarrow>
     c = mCommit s \<or> c = None \<and> mPhase s = SCP_PHASE_PREPARE \<Longrightarrow>
     s' = driverCall (AcceptedBallotPrepared (mSlotIndex s) bal) (s1\<lparr>mCommit := c\<rparr>) \<Longrightarrow>
     wellFormed s' \<Longrightarrow>
     slot_step S A s s'"
| confirm_prepared:
    "mPhase s = SCP_PHASE_PREPARE \<Longrightarrow>
     federatedRatify S (hasPreparedBallot newH) (mLatestEnvelopes s) \<Longrightarrow>
     c = mCommit s \<or> (\<exists>b. mCommit s = None \<and> c = Some b \<and> b \<le> newH \<and> bvalue b = bvalue newH \<and>
       federatedRatify S (hasPreparedBallot b) (mLatestEnvelopes s)) \<Longrightarrow>
     mCurrentBallot s \<le> b1 \<Longrightarrow>
     h = None \<or> h = mHighBallot s \<or> h = Some newH \<Longrightarrow>
     list_all quiet cs \<Longrightarrow>
     s' = s\<lparr>mValueOverride := Some (bvalue newH), mCurrentBallot := b1, mHighBallot := h,
            mCommit := c, mHeardFromQuorum := hq, mDriverCalls := mDriverCalls s @ cs\<rparr> \<Longrightarrow>
     wellFormed s' \<Longrightarrow>
     slot_step S A s s'"
| accept_commit:
    "mPhase s \<noteq> SCP_PHASE_EXTERNALIZE \<Longrightarrow>
     (mPhase s = SCP_PHASE_CONFIRM \<longrightarrow> map_option bvalue (mHighBallot s) = Some (bvalue bal)) \<Longrightarrow>
     federatedAccept S (votedCommit bal (lo, hi)) (commitPredicate bal (lo, hi))
       (mLatestEnvelopes s) \<Longrightarrow>
     lo \<noteq> 0 \<Longrightarrow>
     (mPhase s = SCP_PHASE_CONFIRM \<longrightarrow> mCurrentBallot s \<le> b1 \<and> pp = mPreparedPrime s) \<Longrightarrow>
     (mPhase s = SCP_PHASE_PREPARE \<longrightarrow> pp = None) \<Longrightarrow>
     list_all quiet cs \<Longrightarrow>
     s' = s\<lparr>mValueOverride := Some (bvalue bal), mCommit := Some (SCPBallot lo (bvalue bal)),
            mHighBallot := Some (SCPBallot hi (bvalue bal)), mPhase := SCP_PHASE_CONFIRM,
            mCurrentBallot := b1, mPreparedPrime := pp, mHeardFromQuorum := hq,
            mDriverCalls := mDriverCalls s @ cs\<rparr> \<Longrightarrow>
     wellFormed s' \<Longrightarrow>
     slot_step S A s s'"
| confirm_commit:
    "mPhase s = SCP_PHASE_CONFIRM \<Longrightarrow>
     map_option bvalue (mCommit s) = Some (bvalue bal) \<Longrightarrow>
     federatedRatify S (commitPredicate bal (lo, hi)) (mLatestEnvelopes s) \<Longrightarrow>
     lo \<noteq> 0 \<Longrightarrow>
     list_all quiet cs \<Longrightarrow>
     s' = s\<lparr>mCommit := Some (SCPBallot lo (bvalue bal)),
            mHighBallot := Some (SCPBallot hi (bvalue bal)), mPhase := SCP_PHASE_EXTERNALIZE,
            mCurrentBallot := b1, mHeardFromQuorum := hq,
            mDriverCalls := mDriverCalls s @ cs\<rparr> \<Longrightarrow>
     wellFormed s' \<Longrightarrow>
     slot_step S A s s'"
| externalized:
    "mPhase s = SCP_PHASE_EXTERNALIZE \<Longrightarrow> mCommit s = Some c \<Longrightarrow> externalizedValues s = [] \<Longrightarrow>
     slot_step S A s (driverCall (ValueExternalized (mSlotIndex s) (bvalue c)) (stopNomination s))"
| bump_ballot:
    "mPhase s \<noteq> SCP_PHASE_EXTERNALIZE \<Longrightarrow>
     mCurrentBallot s \<le> b1 \<Longrightarrow>
     list_all quiet cs \<Longrightarrow>
     s' = s\<lparr>mCurrentBallot := b1, mHighBallot := h, mHeardFromQuorum := hq,
            mDriverCalls := mDriverCalls s @ cs\<rparr> \<Longrightarrow>
     (mPhase s = SCP_PHASE_CONFIRM \<longrightarrow> h \<noteq> None) \<Longrightarrow>
     wellFormed s' \<Longrightarrow>
     slot_step S A s s'"
| heard_from_quorum:
    "list_all quiet cs \<Longrightarrow>
     slot_step S A s (s\<lparr>mHeardFromQuorum := hq, mDriverCalls := mDriverCalls s @ cs\<rparr>)"
| value_override: "slot_step S A s (s\<lparr>mValueOverride := v\<rparr>)"
| message_level: "slot_step S A s (s\<lparr>mCurrentMessageLevel := l\<rparr>)"
| last_envelope:
    "nodeID (statement env) = localNodeID S \<Longrightarrow> \<not> isNomination (statement env) \<Longrightarrow>
     statement env \<in> fst ` set (mStatementsHistory s) \<Longrightarrow>
     newerThanLast s env \<Longrightarrow>
     slot_step S A s (setLastEnvelope env s)"
| send_envelope:
    "mLastEnvelope s = Some (p, e) \<Longrightarrow> mFullyValidated s \<Longrightarrow>
     (\<forall>p' e'. mLastEnvelopeEmit s = Some (p', e') \<longrightarrow> p \<noteq> p') \<Longrightarrow>
     slot_step S A s (driverCall (EmitEnvelope e) (s\<lparr>mLastEnvelopeEmit := Some (p, e)\<rparr>))"

inductive_cases slot_stepE: "slot_step S A s s'"

abbreviation slot_steps :: "SCPContext \<Rightarrow> SCPEnvelope set \<Rightarrow> Slot \<Rightarrow> Slot \<Rightarrow> bool" where
  "slot_steps S A \<equiv> (slot_step S A)\<^sup>*\<^sup>*"

section \<open>Progress: what no step takes back\<close>

definition locked :: "Slot \<Rightarrow> Value \<Rightarrow> bool" where
  "locked s v \<longleftrightarrow> mPhase s \<noteq> SCP_PHASE_PREPARE \<and> map_option bvalue (mCommit s) = Some v"

lemma wellFormed_iff:
  "wellFormed s \<longleftrightarrow>
     (\<forall>b. mCurrentBallot s = Some b \<longrightarrow> counter b \<noteq> 0) \<and>
     (\<forall>p p'. mPrepared s = Some p \<longrightarrow> mPreparedPrime s = Some p' \<longrightarrow>
        p' \<le> p \<and> bvalue p' \<noteq> bvalue p) \<and>
     (\<forall>h. mHighBallot s = Some h \<longrightarrow>
        (\<exists>b. mCurrentBallot s = Some b \<and> h \<le> b \<and> bvalue h = bvalue b)) \<and>
     (\<forall>c. mCommit s = Some c \<longrightarrow>
        (\<exists>h. mHighBallot s = Some h \<and> c \<le> h \<and> bvalue c = bvalue h)) \<and>
     (mPhase s \<noteq> SCP_PHASE_PREPARE \<longrightarrow> mCommit s \<noteq> None)"
  by (cases "mCurrentBallot s"; cases "mPrepared s"; cases "mPreparedPrime s"; cases "mHighBallot s";
      cases "mCommit s"; cases "mPhase s")
    (auto simp: wellFormed_def checkInvariants_def dbgAssert_def deref_def)

lemma setPrepared_fields:
  assumes "setPrepared bal s = (w, s1)"
  obtains p pp where "s1 = s\<lparr>mPrepared := Some p, mPreparedPrime := pp\<rparr>"
    "mPrepared s \<le> Some p" "bal \<le> p"
proof -
  have "s1 = s\<lparr>mPrepared := mPrepared s1, mPreparedPrime := mPreparedPrime s1\<rparr> \<and>
        mPrepared s \<le> mPrepared s1 \<and> (\<exists>p. mPrepared s1 = Some p \<and> bal \<le> p)"
    using assms by (auto simp: setPrepared_def Let_def split: option.splits if_splits)
  then show ?thesis using that by metis
qed

lemma locked_step:
  assumes "slot_step S A s s'" "wellFormed s" "locked s v"
  shows "locked s' v"
  using assms
proof (cases rule: slot_step.cases)
  case (accept_prepared bal w s1 c)
  then show ?thesis using assms(3)
    by (elim setPrepared_fields) (auto simp: locked_def slot_update)
next
  case (accept_commit bal lo hi b1 pp cs hq)
  then show ?thesis using assms(2,3)
    by (cases "mPhase s") (auto simp: locked_def wellFormed_iff)
qed (auto simp: locked_def slot_update)

lemma wellFormed_step:
  assumes "slot_step S A s s'" "wellFormed s"
  shows "wellFormed s'"
  using assms by (cases rule: slot_step.cases) (auto simp: wellFormed_iff slot_update)

text \<open>A step never lowers the phase, nor the current ballot within a phase, nor the prepared ballot;
  it only appends to the history and to the calls of the driver; a slot that externalized keeps its
  ballots.\<close>

definition progress :: "Slot \<Rightarrow> Slot \<Rightarrow> bool" where
  "progress s s' \<longleftrightarrow>
     mSlotIndex s' = mSlotIndex s \<and>
     (phaseNo (mPhase s) < phaseNo (mPhase s') \<or>
      mPhase s = mPhase s' \<and> mCurrentBallot s \<le> mCurrentBallot s') \<and>
     mPrepared s \<le> mPrepared s' \<and>
     prefix (mDriverCalls s) (mDriverCalls s') \<and>
     prefix (mStatementsHistory s) (mStatementsHistory s') \<and>
     (mPhase s = SCP_PHASE_EXTERNALIZE \<longrightarrow>
       mCommit s' = mCommit s \<and> mHighBallot s' = mHighBallot s \<and>
       mCurrentBallot s' = mCurrentBallot s)"

lemma progress_refl [simp]: "progress s s"
  by (simp add: progress_def)

lemma phaseNo_inject [simp]: "phaseNo a = phaseNo b \<longleftrightarrow> a = b"
  by (cases a; cases b) auto

lemma phaseNo_le_2: "phaseNo a \<le> 2"
  by (cases a) auto

lemma progress_trans:
  assumes "progress s t" "progress t u"
  shows "progress s u"
  using assms phaseNo_le_2 [of "mPhase t"]
  by (auto simp: progress_def elim: prefix_order.trans)

lemma progress_step:
  assumes "slot_step S A s s'"
  shows "progress s s'"
  using assms
proof (cases rule: slot_step.cases)
  case (accept_prepared bal w s1 c)
  then show ?thesis
    by (elim setPrepared_fields) (auto simp: progress_def slot_update)
next
  case (accept_commit bal lo hi b1 pp cs hq)
  then show ?thesis by (cases "mPhase s") (auto simp: progress_def)
qed (auto simp: progress_def slot_update)

lemma phase_final:
  assumes "slot_step S A s s'" "mPhase s = SCP_PHASE_EXTERNALIZE"
  shows "mPhase s' = SCP_PHASE_EXTERNALIZE"
  using progress_step [OF assms(1)] assms(2) phaseNo_le_2 [of "mPhase s'"]
  by (auto simp: progress_def)

section \<open>Invariants of the slot\<close>

definition latestInv :: "Slot \<Rightarrow> bool" where
  "latestInv s \<longleftrightarrow> map_invar (mLatestEnvelopes s) \<and>
     (\<forall>n e. map_of (mLatestEnvelopes s) n = Some e \<longrightarrow>
        nodeID (statement e) = n \<and> \<not> isNomination (statement e) \<and>
        slotIndex (statement e) = mSlotIndex s \<and>
        statement e \<in> fst ` set (mStatementsHistory s))"

definition notifyInv :: "Slot \<Rightarrow> bool" where
  "notifyInv s \<longleftrightarrow> length (externalizedValues s) \<le> 1 \<and>
     (\<forall>(i, v) \<in> set (externalizedValues s).
        i = mSlotIndex s \<and> mPhase s = SCP_PHASE_EXTERNALIZE \<and> locked s v)"

text \<open>The last statement of the node, and the emitted ones: they are its own, each newer than the one
  before, and none is newer than the last.\<close>

definition ownLast :: "SCPContext \<Rightarrow> Slot \<Rightarrow> bool" where
  "ownLast S s \<longleftrightarrow> (\<forall>p e. mLastEnvelope s = Some (p, e) \<longrightarrow>
     p < mNextAllocation s \<and> nodeID (statement e) = localNodeID S \<and>
     \<not> isNomination (statement e) \<and> statement e \<in> fst ` set (mStatementsHistory s))"

definition ownEmitted :: "SCPContext \<Rightarrow> Slot \<Rightarrow> bool" where
  "ownEmitted S s \<longleftrightarrow>
     sorted_wrt (\<lambda>a b. isNewerStatement (statement a) (statement b)) (emittedBallots s) \<and>
     (\<forall>x \<in> set (emittedBallots s). nodeID (statement x) = localNodeID S \<and>
        statement x \<in> fst ` set (mStatementsHistory s))"

definition emittedUpTo :: "Slot \<Rightarrow> SCPEnvelope \<Rightarrow> bool" where
  "emittedUpTo s e \<longleftrightarrow>
     (\<forall>x \<in> set (emittedBallots s). x = e \<or> isNewerStatement (statement x) (statement e))"

definition emitPointers :: "Slot \<Rightarrow> bool" where
  "emitPointers s \<longleftrightarrow>
     (case mLastEnvelopeEmit s of
        None \<Rightarrow> emittedBallots s = []
      | Some (p', e') \<Rightarrow> emittedUpTo s e' \<and>
          (case mLastEnvelope s of
             None \<Rightarrow> False
           | Some (p, e) \<Rightarrow>
               p = p' \<and> e = e' \<or> p' < p \<and> isNewerStatement (statement e') (statement e)))"

definition emitInv :: "SCPContext \<Rightarrow> Slot \<Rightarrow> bool" where
  "emitInv S s \<longleftrightarrow> ownLast S s \<and> ownEmitted S s \<and> emitPointers s"

text \<open>What a statement of the node commits it to.\<close>

definition vouched :: "SCPContext \<Rightarrow> Slot \<Rightarrow> SCPStatement \<Rightarrow> bool" where
  "vouched S s st \<longleftrightarrow>
     (case pledges st of
        SCP_ST_CONFIRM b _ _ _ d \<Rightarrow> locked s (bvalue b) \<and> d = localQSetHash S
      | SCP_ST_EXTERNALIZE c _ _ \<Rightarrow> mPhase s = SCP_PHASE_EXTERNALIZE \<and> locked s (bvalue c)
      | _ \<Rightarrow> True)"

definition vouchInv :: "SCPContext \<Rightarrow> Slot \<Rightarrow> bool" where
  "vouchInv S s \<longleftrightarrow> (\<forall>x \<in> set (mStatementsHistory s).
     nodeID (fst x) = localNodeID S \<longrightarrow> vouched S s (fst x))"

lemma sane_not_nomination: "isStatementSane S st self \<Longrightarrow> \<not> isNomination st"
  by (auto simp: isStatementSane_def isNomination_def split: option.splits SCPPledges.splits)

lemma latestInv_step:
  assumes "slot_step S A s s'" "latestInv s"
  shows "latestInv s'"
  using assms
proof (cases rule: slot_step.cases)
  case (record_envelope env self fv)
  then show ?thesis using assms(2)
    by (auto simp: latestInv_def slot_update map_put_invar map_of_map_put sane_not_nomination
        split: if_splits)
next
  case (accept_prepared bal w s1 c)
  then show ?thesis using assms(2)
    by (elim setPrepared_fields) (auto simp: latestInv_def slot_update)
qed (auto simp: latestInv_def slot_update)

lemma notifyInv_step:
  assumes step: "slot_step S A s s'" and wf: "wellFormed s" and inv: "notifyInv s"
  shows "notifyInv s'"
proof -
  have keep: "notifyInv s'" if "externalizedValues s' = externalizedValues s"
    using inv locked_step [OF step wf] phase_final [OF step] progress_step [OF step]
    unfolding notifyInv_def that by (auto simp: progress_def)
  show ?thesis
    using step
  proof (cases rule: slot_step.cases)
    case (accept_prepared bal w s1 c)
    obtain p pp where "s1 = s\<lparr>mPrepared := Some p, mPreparedPrime := pp\<rparr>"
      using accept_prepared(4) by (rule setPrepared_fields)
    then show ?thesis by (intro keep) (simp add: accept_prepared(6) externalizedValues_def slot_update)
  next
    case (externalized c)
    then show ?thesis by (auto simp: notifyInv_def externalizedValues_def slot_update locked_def)
  qed (rule keep; simp add: externalizedValues_def slot_update)+
qed

lemma vouched_step:
  assumes "slot_step S A s s'" "wellFormed s" "vouched S s st"
  shows "vouched S s' st"
  using assms(3) locked_step [OF assms(1,2)] phase_final [OF assms(1)]
  by (auto simp: vouched_def split: SCPPledges.splits)

lemma vouched_own:
  assumes "ownEnvelope S s env"
  shows "vouched S s (statement env)" "nodeID (statement env) = localNodeID S"
    "slotIndex (statement env) = mSlotIndex s" "\<not> isNomination (statement env)"
proof -
  obtain pl where pl: "createStatement S s = Inr pl" and env: "env = createEnvelope S pl s"
    using assms by (auto simp: ownEnvelope_def)
  show "nodeID (statement env) = localNodeID S" "slotIndex (statement env) = mSlotIndex s"
    by (simp_all add: env createEnvelope_def Let_def)
  have wf: "wellFormed s" using pl by (auto simp: createStatement_def wellFormed_def)
  show "vouched S s (statement env)" "\<not> isNomination (statement env)"
    using pl wf unfolding env
    by (auto simp: createStatement_def createEnvelope_def vouched_def locked_def Let_def
        wellFormed_iff isNomination_def split: SCPPhase.splits)
qed

lemma vouchInv_step:
  assumes step: "slot_step S A s s'" and wf: "wellFormed s" and inv: "vouchInv S s"
    and auth: "\<forall>env \<in> A. nodeID (statement env) = localNodeID S \<longrightarrow> vouched S s (statement env)"
  shows "vouchInv S s'"
proof -
  have keep: "vouchInv S s'"
    if "mStatementsHistory s' = mStatementsHistory s @ hs"
      "\<forall>x \<in> set hs. nodeID (fst x) = localNodeID S \<longrightarrow> vouched S s' (fst x)" for hs
    using that inv vouched_step [OF step wf] by (auto simp: vouchInv_def)
  show ?thesis
    using step
  proof (cases rule: slot_step.cases)
    case (record_envelope env self fv)
    then have "nodeID (statement env) = localNodeID S \<longrightarrow> vouched S s' (statement env)"
      using auth vouched_own(1) vouched_step [OF step wf] by blast
    then show ?thesis
      by (intro keep [of "[(statement env, fv)]"]) (simp_all add: record_envelope slot_update)
  next
    case (accept_prepared bal w s1 c)
    obtain p pp where "s1 = s\<lparr>mPrepared := Some p, mPreparedPrime := pp\<rparr>"
      using accept_prepared(4) by (rule setPrepared_fields)
    then show ?thesis by (intro keep [of "[]"]) (simp_all add: accept_prepared(6) slot_update)
  qed (rule keep [of "[]"]; simp add: slot_update)+
qed

lemma emitInv_keep:
  assumes "emitInv S s"
    "emittedBallots s' = emittedBallots s" "mLastEnvelope s' = mLastEnvelope s"
    "mLastEnvelopeEmit s' = mLastEnvelopeEmit s" "mNextAllocation s' = mNextAllocation s"
    "prefix (mStatementsHistory s) (mStatementsHistory s')"
  shows "emitInv S s'"
proof -
  have "set (mStatementsHistory s) \<subseteq> set (mStatementsHistory s')"
    using assms(6) by (auto simp: prefix_def)
  then have sub: "fst ` set (mStatementsHistory s) \<subseteq> fst ` set (mStatementsHistory s')" by blast
  then have "ownLast S s'" "ownEmitted S s'"
    using assms(1-5) by (auto simp only: emitInv_def ownLast_def ownEmitted_def)
  moreover have "emitPointers s'"
    using assms(1) unfolding emitInv_def emitPointers_def emittedUpTo_def assms(2-4) by (elim conjE)
  ultimately show ?thesis by (simp add: emitInv_def)
qed

lemma emitInv_last:
  assumes inv: "emitInv S s" and newer: "newerThanLast s env"
    and own: "nodeID (statement env) = localNodeID S" "\<not> isNomination (statement env)"
      "statement env \<in> fst ` set (mStatementsHistory s)"
  shows "emitInv S (setLastEnvelope env s)"
proof -
  have emitted: "emittedBallots (setLastEnvelope env s) = emittedBallots s"
    by (simp add: emittedBallots_def slot_update)
  have fields: "mLastEnvelopeEmit (setLastEnvelope env s) = mLastEnvelopeEmit s"
      "mLastEnvelope (setLastEnvelope env s) = Some (mNextAllocation s, env)"
    by (simp_all add: slot_update)
  have "emitPointers (setLastEnvelope env s)"
    using inv newer unfolding emitPointers_def emittedUpTo_def emitted fields
    by (auto simp: emitInv_def emitPointers_def emittedUpTo_def newerThanLast_def ownLast_def
        split: option.splits) (metis isNewerStatement_trans)+
  moreover have "ownLast S (setLastEnvelope env s)"
    using own by (simp add: ownLast_def setLastEnvelope_def)
  moreover have "ownEmitted S (setLastEnvelope env s)"
    using inv unfolding emitInv_def ownEmitted_def emitted by (simp add: setLastEnvelope_def)
  ultimately show ?thesis by (simp add: emitInv_def)
qed

lemma emitInv_send:
  assumes inv: "emitInv S s" and last: "mLastEnvelope s = Some (p, e)"
    and fresh: "\<forall>p' e'. mLastEnvelopeEmit s = Some (p', e') \<longrightarrow> p \<noteq> p'"
  shows "emitInv S (driverCall (EmitEnvelope e) (s\<lparr>mLastEnvelopeEmit := Some (p, e)\<rparr>))" (is "emitInv S ?s'")
proof -
  have own: "nodeID (statement e) = localNodeID S" "\<not> isNomination (statement e)"
      "statement e \<in> fst ` set (mStatementsHistory s)"
    using inv last by (simp_all add: emitInv_def ownLast_def)
  have emitted: "emittedBallots ?s' = emittedBallots s @ [e]"
    using own(2) by (simp add: emittedBallots_def slot_update)
  have newer: "isNewerStatement (statement x) (statement e)" if "x \<in> set (emittedBallots s)" for x
    using inv last fresh that
    by (auto simp: emitInv_def emitPointers_def emittedUpTo_def split: option.splits
        elim: isNewerStatement_trans)
  have "emitPointers ?s'"
    using newer last unfolding emitPointers_def emittedUpTo_def emitted by (simp add: slot_update)
  moreover have "ownLast S ?s'" using inv last by (simp add: emitInv_def ownLast_def slot_update)
  moreover have "ownEmitted S ?s'"
    using inv own newer unfolding emitInv_def ownEmitted_def emitted
    by (simp add: slot_update sorted_wrt_append)
  ultimately show ?thesis by (simp add: emitInv_def)
qed

lemma emitInv_step:
  assumes step: "slot_step S A s s'" and inv: "emitInv S s"
  shows "emitInv S s'"
  using step
proof (cases rule: slot_step.cases)
  case (accept_prepared bal w s1 c)
  obtain p pp where "s1 = s\<lparr>mPrepared := Some p, mPreparedPrime := pp\<rparr>"
    using accept_prepared(4) by (rule setPrepared_fields)
  then show ?thesis
    by (intro emitInv_keep [OF inv]) (simp_all add: accept_prepared(6) emittedBallots_def slot_update)
next
  case (last_envelope env)
  then show ?thesis using emitInv_last [OF inv] by simp
next
  case (send_envelope p e)
  then show ?thesis using emitInv_send [OF inv] by simp
qed (rule emitInv_keep [OF inv]; simp add: emittedBallots_def slot_update)+

section \<open>Runs\<close>

definition slotInv :: "SCPContext \<Rightarrow> Slot \<Rightarrow> bool" where
  "slotInv S s \<longleftrightarrow> wellFormed s \<and> latestInv s \<and> notifyInv s \<and> emitInv S s \<and> vouchInv S s"

definition authentic :: "SCPContext \<Rightarrow> SCPEnvelope set \<Rightarrow> Slot \<Rightarrow> bool" where
  "authentic S A s \<longleftrightarrow>
     (\<forall>env \<in> A. nodeID (statement env) = localNodeID S \<longrightarrow> vouched S s (statement env))"

lemma slotInv_newSlot [simp]: "slotInv S (newSlot S i)"
  by (simp add: slotInv_def wellFormed_iff latestInv_def notifyInv_def emitInv_def vouchInv_def
      ownLast_def ownEmitted_def emitPointers_def newSlot_def map_invar_def externalizedValues_def
      emittedBallots_def)

lemma slotInv_step:
  assumes "slot_step S A s s'" "slotInv S s" "authentic S A s"
  shows "slotInv S s' \<and> authentic S A s'"
  using assms wellFormed_step latestInv_step notifyInv_step emitInv_step vouchInv_step vouched_step
  by (simp add: slotInv_def authentic_def)

lemma slotInv_steps:
  assumes "slot_steps S A s s'" "slotInv S s" "authentic S A s"
  shows "slotInv S s' \<and> authentic S A s'"
  using assms by (induction rule: rtranclp_induct) (auto dest: slotInv_step)

lemma progress_steps:
  assumes "slot_steps S A s s'"
  shows "progress s s'"
  using assms by (induction rule: rtranclp_induct) (auto dest: progress_step intro: progress_trans)

lemma wellFormed_steps:
  assumes "slot_steps S A s s'" "wellFormed s"
  shows "wellFormed s'"
  using assms by (induction rule: rtranclp_induct) (auto dest: wellFormed_step)

lemma locked_steps:
  assumes "slot_steps S A s s'" "wellFormed s" "locked s v"
  shows "locked s' v"
  using assms(1,3) wellFormed_steps [OF _ assms(2)]
  by (induction rule: rtranclp_induct) (auto dest: locked_step)

lemma notifyInv_steps:
  assumes "slot_steps S A s s'" "wellFormed s" "notifyInv s"
  shows "notifyInv s'"
  using assms(1,3) wellFormed_steps [OF _ assms(2)]
  by (induction rule: rtranclp_induct) (auto dest: notifyInv_step)

text \<open>The latest statement of a node is only ever replaced by a newer one.\<close>

definition supersedes :: "EnvMap \<Rightarrow> EnvMap \<Rightarrow> bool" where
  "supersedes m m' \<longleftrightarrow>
     (\<forall>n e. map_of m n = Some e \<longrightarrow>
        (\<exists>e'. map_of m' n = Some e' \<and> (e' = e \<or> isNewerStatement (statement e) (statement e'))))"

lemma supersedes_refl [simp]: "supersedes m m"
  by (simp add: supersedes_def)

lemma supersedes_trans:
  assumes "supersedes m1 m2" "supersedes m2 m3"
  shows "supersedes m1 m3"
  unfolding supersedes_def
proof (intro allI impI)
  fix n e assume "map_of m1 n = Some e"
  then obtain e2 where e2: "map_of m2 n = Some e2"
      "e2 = e \<or> isNewerStatement (statement e) (statement e2)"
    using assms(1) by (auto simp: supersedes_def)
  then obtain e3 where "map_of m3 n = Some e3"
      "e3 = e2 \<or> isNewerStatement (statement e2) (statement e3)"
    using assms(2) by (auto simp: supersedes_def)
  then show "\<exists>e'. map_of m3 n = Some e' \<and> (e' = e \<or> isNewerStatement (statement e) (statement e'))"
    using e2(2) isNewerStatement_trans by blast
qed

lemma supersedes_step:
  assumes "slot_step S A s s'" "latestInv s"
  shows "supersedes (mLatestEnvelopes s) (mLatestEnvelopes s')"
  using assms
proof (cases rule: slot_step.cases)
  case (record_envelope env self fv)
  then show ?thesis using assms(2)
    by (auto simp: supersedes_def latestInv_def slot_update map_of_map_put isNewerStatementNode_def)
next
  case (accept_prepared bal w s1 c)
  obtain p pp where "s1 = s\<lparr>mPrepared := Some p, mPreparedPrime := pp\<rparr>"
    using accept_prepared(4) by (rule setPrepared_fields)
  then show ?thesis by (simp add: accept_prepared(6) slot_update)
qed (simp_all add: slot_update)

lemma supersedes_steps:
  assumes "slot_steps S A s s'" "latestInv s"
  shows "latestInv s' \<and> supersedes (mLatestEnvelopes s) (mLatestEnvelopes s')"
  using assms
  by (induction rule: rtranclp_induct)
    (auto dest: latestInv_step supersedes_step intro: supersedes_trans)

end
