(* ===== verification/BallotRefinement.thy ===== *)
theory BallotRefinement
  imports SlotSteps
begin

text \<open>
  The functions of the ballot protocol implement the state machine \<open>slot_step\<close>. The locale
  \<open>self_processing\<close> states what the functions between two processing steps rely on when they make the
  node process its own statement; \<open>advanceSlot\<close> provides it at every recursion depth, and so does the
  entry point \<open>processEnvelope\<close>.
\<close>

section \<open>Effects of the helpers\<close>

lemma bumpToBallot_fields:
  assumes "bumpToBallot bal chk s = Inr s'"
  obtains h hq cs where
    "s' = s\<lparr>mCurrentBallot := Some bal, mHighBallot := h, mHeardFromQuorum := hq,
           mDriverCalls := mDriverCalls s @ cs\<rparr>"
    "list_all quiet cs" "mPhase s \<noteq> SCP_PHASE_EXTERNALIZE"
    "chk \<longrightarrow> mCurrentBallot s \<le> Some bal"
    "h = None \<or> h = mHighBallot s"
    "map_option bvalue (mHighBallot s) = Some (bvalue bal) \<longrightarrow> h = mHighBallot s"
proof -
  define cs where "cs = (if mCurrentBallot s = None
    then [StartedBallotProtocol (mSlotIndex s) bal] else [])"
  define h where "h = (case mHighBallot s of Some x \<Rightarrow> if bvalue bal \<noteq> bvalue x then None else Some x
    | None \<Rightarrow> None)"
  define hq where "hq = (if (case mCurrentBallot s of None \<Rightarrow> True | Some b \<Rightarrow> counter b \<noteq> counter bal)
    then False else mHeardFromQuorum s)"
  have "s' = s\<lparr>mCurrentBallot := Some bal, mHighBallot := h, mHeardFromQuorum := hq,
      mDriverCalls := mDriverCalls s @ cs\<rparr>"
    using assms
    by (cases "mCurrentBallot s"; cases "mHighBallot s")
      (auto simp: bumpToBallot_def Let_def driverCall_def h_def hq_def cs_def)
  moreover have "mPhase s \<noteq> SCP_PHASE_EXTERNALIZE" "chk \<longrightarrow> mCurrentBallot s \<le> Some bal"
    using assms by (auto simp: bumpToBallot_def split: option.splits if_splits)
  moreover have "h = None \<or> h = mHighBallot s"
      "map_option bvalue (mHighBallot s) = Some (bvalue bal) \<longrightarrow> h = mHighBallot s"
    by (auto simp: h_def split: option.splits)
  moreover have "list_all quiet cs" by (simp add: quiet_def cs_def)
  ultimately show ?thesis using that by blast
qed

lemma updateCurrentIfNeeded_fields:
  assumes "updateCurrentIfNeeded t s = Inr (w, s')"
  obtains b h hq cs where
    "s' = s\<lparr>mCurrentBallot := b, mHighBallot := h, mHeardFromQuorum := hq,
           mDriverCalls := mDriverCalls s @ cs\<rparr>"
    "list_all quiet cs" "mCurrentBallot s \<le> b" "\<not> w \<longrightarrow> s' = s"
    "h = None \<or> h = mHighBallot s"
    "map_option bvalue (mHighBallot s) = Some (bvalue t) \<longrightarrow> h = mHighBallot s"
proof (cases "case mCurrentBallot s of None \<Rightarrow> True | Some b \<Rightarrow> compareBallots b t < 0")
  case True
  then have "bumpToBallot t True s = Inr s'" "w"
    using assms by (auto simp: updateCurrentIfNeeded_def)
  then show ?thesis by (elim bumpToBallot_fields) (use that in auto)
next
  case False
  then have "s' = s" "\<not> w" using assms by (auto simp: updateCurrentIfNeeded_def)
  then show ?thesis
    by (intro that [where b = "mCurrentBallot s" and h = "mHighBallot s" and hq = "mHeardFromQuorum s" and cs = "[]"]) auto
qed

lemma checkHeardFromQuorum_fields:
  obtains hq cs where "checkHeardFromQuorum S s =
      s\<lparr>mHeardFromQuorum := hq, mDriverCalls := mDriverCalls s @ cs\<rparr>" "list_all quiet cs"
proof (cases "mCurrentBallot s")
  case None
  then show ?thesis
    by (intro that [where hq = "mHeardFromQuorum s" and cs = "[]"]) (simp_all add: checkHeardFromQuorum_def)
next
  case (Some b)
  define s' where "s' = checkHeardFromQuorum S s"
  have "s' = s\<lparr>mHeardFromQuorum := mHeardFromQuorum s', mDriverCalls := mDriverCalls s'\<rparr> \<and>
      (\<exists>cs. mDriverCalls s' = mDriverCalls s @ cs \<and> list_all quiet cs)"
    using Some
    by (simp add: s'_def checkHeardFromQuorum_def Let_def driverCall_def startBallotProtocolTimer_def
        stopBallotProtocolTimer_def quiet_def)
  then show ?thesis using that unfolding s'_def [symmetric] by metis
qed

lemma checkHeardFromQuorum_step: "slot_step S A s (checkHeardFromQuorum S s)"
  by (rule checkHeardFromQuorum_fields [of S s]) (simp add: slot_step.heard_from_quorum)

lemma sendLatestEnvelope_steps: "slot_steps S A s (sendLatestEnvelope s)"
proof (cases "sendLatestEnvelope s = s")
  case False
  then obtain p e where "mLastEnvelope s = Some (p, e)" "mFullyValidated s"
      "\<forall>p' e'. mLastEnvelopeEmit s = Some (p', e') \<longrightarrow> p \<noteq> p'"
      "sendLatestEnvelope s = driverCall (EmitEnvelope e) (s\<lparr>mLastEnvelopeEmit := Some (p, e)\<rparr>)"
    by (auto simp: sendLatestEnvelope_def split: option.splits if_splits)
  then show ?thesis using slot_step.send_envelope by (metis r_into_rtranclp)
qed simp

lemma message_level_simps [simp]:
  "mCurrentMessageLevel (sendLatestEnvelope s) = mCurrentMessageLevel s"
  "mCurrentMessageLevel (setLastEnvelope env s) = mCurrentMessageLevel s"
  "mCurrentMessageLevel (driverCall c s) = mCurrentMessageLevel s"
  "mCurrentMessageLevel (checkHeardFromQuorum S s) = mCurrentMessageLevel s"
  by (auto simp: sendLatestEnvelope_def slot_update split: option.splits)
    (rule checkHeardFromQuorum_fields [of S s], simp)

section \<open>The contract of processing one's own statement\<close>

definition ready :: "Slot \<Rightarrow> bool" where
  "ready s \<longleftrightarrow> wellFormed s \<and> notifyInv s"

lemma ready_steps: "slot_steps S A s s' \<Longrightarrow> ready s \<Longrightarrow> ready s'"
  by (auto simp: ready_def intro: wellFormed_steps notifyInv_steps)

lemma ready_step: "slot_step S A s s' \<Longrightarrow> ready s \<Longrightarrow> ready s'"
  by (rule ready_steps) auto

text \<open>The driver has been told when the slot externalized.\<close>

definition notified :: "Slot \<Rightarrow> bool" where
  "notified s \<longleftrightarrow> (mPhase s = SCP_PHASE_EXTERNALIZE \<longrightarrow> externalizedValues s \<noteq> [])"

definition goodRun :: "SCPContext \<Rightarrow> SCPEnvelope set \<Rightarrow> Slot \<Rightarrow> Slot \<Rightarrow> bool" where
  "goodRun S A s s' \<longleftrightarrow> slot_steps S A s s' \<and> mCurrentMessageLevel s' = mCurrentMessageLevel s \<and>
     (notified s \<longrightarrow> notified s')"

lemma goodRun_refl [simp]: "goodRun S A s s"
  by (simp add: goodRun_def)

lemma goodRun_trans: "goodRun S A s t \<Longrightarrow> goodRun S A t u \<Longrightarrow> goodRun S A s u"
  by (auto simp: goodRun_def)

lemma goodRun_ready: "goodRun S A s s' \<Longrightarrow> ready s \<Longrightarrow> ready s'"
  by (auto simp: goodRun_def intro: ready_steps)

lemma phase_final_steps:
  assumes "slot_steps S A s s'" "mPhase s = SCP_PHASE_EXTERNALIZE"
  shows "mPhase s' = SCP_PHASE_EXTERNALIZE"
  using assms by (induction rule: rtranclp_induct) (auto dest: phase_final)

lemma notified_step:
  assumes "slot_steps S A s s'" "mPhase s' = mPhase s" "notified s"
  shows "notified s'"
proof -
  have "prefix (mDriverCalls s) (mDriverCalls s')"
    using progress_steps [OF assms(1)] by (simp add: progress_def)
  then show ?thesis using assms(2,3)
    by (auto simp: notified_def externalizedValues_def prefix_def)
qed

locale self_processing =
  fixes S :: SCPContext and A :: "SCPEnvelope set" and proc :: SelfProc
  assumes proc_good: "proc env s = Inr (r, s') \<Longrightarrow> ownEnvelope S s env \<Longrightarrow> ready s \<Longrightarrow> goodRun S A s s'"
    and proc_records: "proc env s = Inr (VALID, s') \<Longrightarrow> ownEnvelope S s env \<Longrightarrow> ready s \<Longrightarrow>
      statement env \<in> fst ` set (mStatementsHistory s')"
    and proc_final: "proc env s = Inr (r, s') \<Longrightarrow> mPhase s = SCP_PHASE_EXTERNALIZE \<Longrightarrow>
      mDriverCalls s' = mDriverCalls s"
begin

lemma emit_wellFormed: "emitCurrentStateStatement proc S s = Inr s' \<Longrightarrow> wellFormed s"
  by (auto simp: emitCurrentStateStatement_def createStatement_def wellFormed_def)

lemma emit_cases:
  assumes "emitCurrentStateStatement proc S s = Inr s'" "ready s"
  obtains "s' = s"
  | env s1 where "ownEnvelope S s env" "proc env s = Inr (VALID, s1)"
    "s' = s1 \<or> newerThanLast s1 env \<and> s' = sendLatestEnvelope (setLastEnvelope env s1)"
proof -
  obtain pl where pl: "createStatement S s = Inr pl"
    using assms(1) by (auto simp: emitCurrentStateStatement_def)
  define env where "env = createEnvelope S pl s"
  have own: "ownEnvelope S s env" using pl by (auto simp: ownEnvelope_def env_def)
  show ?thesis
  proof (cases "map_of (mLatestEnvelopes s) (localNodeID S) = Some env")
    case True
    then show ?thesis
      using assms(1) pl that(1) by (simp add: emitCurrentStateStatement_def env_def Let_def)
  next
    case False
    then obtain s1 where "proc env s = Inr (VALID, s1)"
        "s' = s1 \<or> newerThanLast s1 env \<and> s' = sendLatestEnvelope (setLastEnvelope env s1)"
      using assms(1) pl
      by (auto simp: emitCurrentStateStatement_def env_def Let_def newerThanLast_def
          split: if_splits)
    then show ?thesis using that(2) own by blast
  qed
qed

lemma emit_good:
  assumes "emitCurrentStateStatement proc S s = Inr s'" "ready s"
  shows "goodRun S A s s'"
  using assms
proof (cases rule: emit_cases)
  case (2 env s1)
  have good: "goodRun S A s s1" by (rule proc_good [OF 2(2,1) assms(2)])
  have "goodRun S A s1 s'"
    using 2(3)
  proof (elim disjE conjE)
    assume "newerThanLast s1 env" and s': "s' = sendLatestEnvelope (setLastEnvelope env s1)"
    then have "slot_step S A s1 (setLastEnvelope env s1)"
      using vouched_own(2,4) [OF 2(1)] proc_records [OF 2(2,1) assms(2)]
      by (intro slot_step.last_envelope)
    then have steps: "slot_steps S A s1 s'"
      unfolding s' using sendLatestEnvelope_steps by (rule converse_rtranclp_into_rtranclp)
    moreover have "mPhase s' = mPhase s1"
      by (simp add: s' sendLatestEnvelope_def slot_update split: option.splits)
    ultimately show ?thesis by (simp add: goodRun_def notified_step) (simp add: s')
  qed simp
  with good show ?thesis by (rule goodRun_trans)
qed simp

lemma emit_final:
  assumes "emitCurrentStateStatement proc S s = Inr s'" "ready s" "mPhase s = SCP_PHASE_EXTERNALIZE"
  shows "externalizedValues s' = externalizedValues s"
  using assms(1,2)
proof (cases rule: emit_cases)
  case (2 env s1)
  have "mDriverCalls s1 = mDriverCalls s" by (rule proc_final [OF 2(2) assms(3)])
  with 2(3) show ?thesis
    by (auto simp: externalizedValues_def sendLatestEnvelope_def slot_update split: option.splits)
qed simp

lemma emit_after_step:
  assumes "emitCurrentStateStatement proc S s1 = Inr s'" "slot_step S A s s1" "ready s"
    "mCurrentMessageLevel s1 = mCurrentMessageLevel s" "mPhase s1 \<noteq> SCP_PHASE_EXTERNALIZE"
  shows "goodRun S A s s'"
proof -
  have "goodRun S A s s1" using assms(2,4,5) by (auto simp: goodRun_def notified_def)
  then show ?thesis using emit_good [OF assms(1) ready_step [OF assms(2,3)]] by (rule goodRun_trans)
qed

lemma override_good: "goodRun S A s (s\<lparr>mValueOverride := v\<rparr>)"
  using slot_step.value_override [of S A s v]
  by (simp add: goodRun_def notified_def externalizedValues_def r_into_rtranclp)

end

section \<open>The attempts\<close>

lemma findPreparedAccept_Some:
  assumes "findPreparedAccept S s bals = Inr (Some bal)"
  shows "bal \<in> set bals"
    "mPhase s = SCP_PHASE_CONFIRM \<longrightarrow> (\<exists>p. mPrepared s = Some p \<and> p \<le> bal \<and> bvalue p = bvalue bal)"
    "federatedAccept S (votedPrepare bal) (hasPreparedBallot bal) (mLatestEnvelopes s)"
  using assms by (induction bals) (auto split: if_splits)

lemma findNewH_Some:
  assumes "findNewH S s bals = Some cur"
  shows "federatedRatify S (hasPreparedBallot (hd cur)) (mLatestEnvelopes s)" "cur \<noteq> []"
    "\<forall>h. mHighBallot s = Some h \<longrightarrow> h < hd cur"
  using assms by (induction bals) (auto split: if_splits option.splits)

definition commitCandidate :: "SCPContext \<Rightarrow> Slot \<Rightarrow> SCPBallot \<Rightarrow> SCPBallot \<Rightarrow> bool" where
  "commitCandidate S s newH c \<longleftrightarrow>
     c \<le> newH \<and> bvalue c = bvalue newH \<and> federatedRatify S (hasPreparedBallot c) (mLatestEnvelopes s)"

lemma findNewC_candidate:
  "newC = c0 \<or> commitCandidate S s newH newC \<Longrightarrow>
   findNewC S s b newH bals newC = c0 \<or> commitCandidate S s newH (findNewC S s b newH bals newC)"
  by (induction bals arbitrary: newC) (auto simp: commitCandidate_def)

lemma setPreparedConfirmed_update:
  assumes "setPreparedConfirmed proc S newC newH s = Inr (w, s')"
  obtains w3 s3 w4 s4 h c cs where "updateCurrentIfNeeded newH s3 = Inr (w4, s4)"
    "s3 = s\<lparr>mValueOverride := Some (bvalue newH), mHighBallot := h, mCommit := c,
        mDriverCalls := mDriverCalls s @ cs\<rparr>"
    "h = mHighBallot s \<or> h = Some newH" "list_all quiet cs"
    "c = mCommit s \<or> mCommit s = None \<and> c = Some newC \<and> counter newC \<noteq> 0"
    "\<not> w3 \<longrightarrow> s3 = s\<lparr>mValueOverride := Some (bvalue newH)\<rparr>"
    "if w4 \<or> w3 then emitCurrentStateStatement proc S s4 = Inr s' else s' = s4"
proof -
  define s0 where "s0 = s\<lparr>mValueOverride := Some (bvalue newH)\<rparr>"
  obtain w3 s3 w4 s4 where
    r: "(if (case mCurrentBallot s0 of None \<Rightarrow> True | Some b \<Rightarrow> areBallotsCompatible b newH)
         then let (didWork, s1) =
                (if (case mHighBallot s0 of None \<Rightarrow> True | Some h \<Rightarrow> compareBallots newH h > 0)
                 then (True, s0\<lparr>mHighBallot := Some newH\<rparr>) else (False, s0))
              in bindR (if counter newC \<noteq> 0
                        then bindR (dbgAssert (mCommit s1 = None)) (\<lambda>_.
                             Inr (True, s1\<lparr>mCommit := Some newC\<rparr>))
                        else Inr (didWork, s1)) (\<lambda>(didWork, s2).
                 Inr (didWork, if didWork
                               then driverCall (ConfirmedBallotPrepared (mSlotIndex s2) newH) s2
                               else s2))
         else Inr (False, s0)) = Inr (w3, s3)"
    and upd: "updateCurrentIfNeeded newH s3 = Inr (w4, s4)"
    and fin: "if w4 \<or> w3 then emitCurrentStateStatement proc S s4 = Inr s' else s' = s4"
    using assms unfolding setPreparedConfirmed_def Let_def s0_def [symmetric]
    by (auto split: if_splits)
  have "s3 = s\<lparr>mValueOverride := Some (bvalue newH), mHighBallot := mHighBallot s3,
        mCommit := mCommit s3, mDriverCalls := mDriverCalls s3\<rparr>"
    "mHighBallot s3 = mHighBallot s \<or> mHighBallot s3 = Some newH"
    "\<exists>cs. mDriverCalls s3 = mDriverCalls s @ cs \<and> list_all quiet cs"
    "mCommit s3 = mCommit s \<or> mCommit s = None \<and> mCommit s3 = Some newC \<and> counter newC \<noteq> 0"
    "\<not> w3 \<longrightarrow> s3 = s\<lparr>mValueOverride := Some (bvalue newH)\<rparr>"
    using r by (auto simp: s0_def driverCall_def quiet_def split: if_splits)
  then show ?thesis using that upd fin by metis
qed

lemma setPrepared_unchanged: "setPrepared bal s = (w, s1) \<Longrightarrow> \<not> w \<Longrightarrow> s1 = s"
  by (auto simp: setPrepared_def Let_def split: option.splits if_splits)

context self_processing
begin

lemma setPreparedAccept_steps:
  assumes res: "setPreparedAccept proc S bal s = Inr (w, s')" and ready: "ready s"
    and phase: "mPhase s \<noteq> SCP_PHASE_EXTERNALIZE"
      "mPhase s = SCP_PHASE_CONFIRM \<longrightarrow> (\<exists>p. mPrepared s = Some p \<and> p \<le> bal \<and> bvalue p = bvalue bal)"
    and acc: "federatedAccept S (votedPrepare bal) (hasPreparedBallot bal) (mLatestEnvelopes s)"
  shows "goodRun S A s s'"
proof -
  obtain w0 s1 where sp: "setPrepared bal s = (w0, s1)" by (cases "setPrepared bal s")
  obtain p pp where s1: "s1 = s\<lparr>mPrepared := Some p, mPreparedPrime := pp\<rparr>"
    using sp by (rule setPrepared_fields)
  define clear where "clear \<longleftrightarrow> (case mCommit s1 of None \<Rightarrow> False | Some c \<Rightarrow>
      (case mHighBallot s1 of None \<Rightarrow> False | Some h \<Rightarrow>
        (case mPrepared s1 of None \<Rightarrow> False | Some p \<Rightarrow> areBallotsLessAndIncompatible h p) \<or>
        (case mPreparedPrime s1 of None \<Rightarrow> False | Some p' \<Rightarrow> areBallotsLessAndIncompatible h p')))"
  define c where "c = (if clear then None else mCommit s)"
  have same: "s1\<lparr>mCommit := mCommit s\<rparr> = s1" by (simp add: s1)
  have r: "bindR (if clear
      then bindR (dbgAssert (mPhase s1 = SCP_PHASE_PREPARE)) (\<lambda>_. Inr (True, s1\<lparr>mCommit := None\<rparr>))
      else Inr (w0, s1)) (\<lambda>(didWork, s2).
        if didWork
        then bindR (emitCurrentStateStatement proc S
               (driverCall (AcceptedBallotPrepared (mSlotIndex s2) bal) s2)) (\<lambda>s3. Inr (True, s3))
        else Inr (False, s2)) = Inr (w, s')"
    using res unfolding setPreparedAccept_def sp clear_def Let_def by (simp only: prod.case)
  have "goodRun S A s s'"
  proof (cases "clear \<or> w0")
    case True
    have clearing: "mPhase s1 = SCP_PHASE_PREPARE \<and> emitCurrentStateStatement proc S
        (driverCall (AcceptedBallotPrepared (mSlotIndex s1) bal) (s1\<lparr>mCommit := None\<rparr>)) = Inr s'" if clear
      using r that by auto
    have keeping: "emitCurrentStateStatement proc S
        (driverCall (AcceptedBallotPrepared (mSlotIndex s1) bal) s1) = Inr s'" if "\<not> clear"
      using r that True by auto
    have idx: "mSlotIndex s1 = mSlotIndex s" "mPhase s1 = mPhase s" by (simp_all add: s1)
    have "(c = mCommit s \<or> c = None \<and> mPhase s = SCP_PHASE_PREPARE) \<and>
        emitCurrentStateStatement proc S (driverCall (AcceptedBallotPrepared (mSlotIndex s1) bal)
          (s1\<lparr>mCommit := c\<rparr>)) = Inr s'"
    proof (cases clear)
      case True
      have "c = None" by (simp add: c_def True)
      then show ?thesis using clearing [OF True] unfolding idx(2) by simp
    next
      case False
      have "c = mCommit s" by (simp add: c_def False)
      then show ?thesis using keeping [OF False] by (simp only: same) simp
    qed
    then have c: "c = mCommit s \<or> c = None \<and> mPhase s = SCP_PHASE_PREPARE"
      and emit: "emitCurrentStateStatement proc S
        (driverCall (AcceptedBallotPrepared (mSlotIndex s) bal) (s1\<lparr>mCommit := c\<rparr>)) = Inr s'"
      unfolding idx(1) by blast+
    have "slot_step S A s (driverCall (AcceptedBallotPrepared (mSlotIndex s) bal) (s1\<lparr>mCommit := c\<rparr>))"
      by (rule slot_step.accept_prepared [OF phase acc sp c refl emit_wellFormed [OF emit]])
    then show ?thesis
      by (rule emit_after_step [OF emit _ ready]) (use phase(1) in \<open>simp_all add: s1 driverCall_def\<close>)
  next
    case False
    then have "s' = s1" using r by auto
    moreover have "s1 = s" using setPrepared_unchanged [OF sp] False by simp
    ultimately show ?thesis by simp
  qed
  then show ?thesis .
qed

lemma attemptPreparedAccept_steps:
  assumes "attemptPreparedAccept proc S hint s = Inr (w, s')" "ready s"
  shows "goodRun S A s s'"
  using assms setPreparedAccept_steps [OF _ assms(2)] findPreparedAccept_Some
  by (auto simp: attemptPreparedAccept_def split: if_splits option.splits)

lemma setPreparedConfirmed_steps:
  assumes res: "setPreparedConfirmed proc S newC newH s = Inr (w, s')" and ready: "ready s"
    and phase: "mPhase s = SCP_PHASE_PREPARE"
    and newH: "federatedRatify S (hasPreparedBallot newH) (mLatestEnvelopes s)"
    and newC: "counter newC \<noteq> 0 \<Longrightarrow> commitCandidate S s newH newC"
  shows "goodRun S A s s'"
proof -
  obtain w3 s3 w4 s4 h c cs where upd: "updateCurrentIfNeeded newH s3 = Inr (w4, s4)"
    and s3: "s3 = s\<lparr>mValueOverride := Some (bvalue newH), mHighBallot := h, mCommit := c,
        mDriverCalls := mDriverCalls s @ cs\<rparr>"
      "h = mHighBallot s \<or> h = Some newH" "list_all quiet cs"
      "c = mCommit s \<or> mCommit s = None \<and> c = Some newC \<and> counter newC \<noteq> 0"
      "\<not> w3 \<longrightarrow> s3 = s\<lparr>mValueOverride := Some (bvalue newH)\<rparr>"
    and fin: "if w4 \<or> w3 then emitCurrentStateStatement proc S s4 = Inr s' else s' = s4"
    using res by (rule setPreparedConfirmed_update)
  obtain b1 h1 hq cs1 where s4: "s4 = s3\<lparr>mCurrentBallot := b1, mHighBallot := h1,
        mHeardFromQuorum := hq, mDriverCalls := mDriverCalls s3 @ cs1\<rparr>"
      "list_all quiet cs1" "mCurrentBallot s3 \<le> b1" "\<not> w4 \<longrightarrow> s4 = s3" "h1 = None \<or> h1 = mHighBallot s3"
    using upd by (rule updateCurrentIfNeeded_fields)
  have "goodRun S A s s'"
  proof (cases "w4 \<or> w3")
    case True
    then have emit: "emitCurrentStateStatement proc S s4 = Inr s'" using fin by simp
    have "slot_step S A s s4"
    proof (rule slot_step.confirm_prepared [OF phase newH])
      show "c = mCommit s \<or> (\<exists>b. mCommit s = None \<and> c = Some b \<and> b \<le> newH \<and> bvalue b = bvalue newH \<and>
          federatedRatify S (hasPreparedBallot b) (mLatestEnvelopes s))"
        using s3(4) newC by (auto simp: commitCandidate_def)
      show "h1 = None \<or> h1 = mHighBallot s \<or> h1 = Some newH" using s4(5) s3(1,2) by auto
      show "s4 = s\<lparr>mValueOverride := Some (bvalue newH), mCurrentBallot := b1, mHighBallot := h1,
          mCommit := c, mHeardFromQuorum := hq, mDriverCalls := mDriverCalls s @ (cs @ cs1)\<rparr>"
        by (simp add: s4(1) s3(1))
      show "list_all quiet (cs @ cs1)" using s3(3) s4(2) by simp
      show "mCurrentBallot s \<le> b1" using s4(3) by (simp add: s3(1))
      show "wellFormed s4" by (rule emit_wellFormed [OF emit])
    qed
    then show ?thesis using phase by (intro emit_after_step [OF emit _ ready]) (simp_all add: s4(1) s3(1))
  next
    case False
    then have "s' = s\<lparr>mValueOverride := Some (bvalue newH)\<rparr>" using fin s4(4) s3(5) by simp
    then show ?thesis by (simp add: override_good)
  qed
  then show ?thesis .
qed

lemma attemptPreparedConfirmed_steps:
  assumes "attemptPreparedConfirmed proc S hint s = Inr (w, s')" "ready s"
  shows "goodRun S A s s'"
proof -
  have cand: "commitCandidate S s newH c"
    if "c = (if P then findNewC S s b newH cur (SCPBallot 0 []) else SCPBallot 0 [])" "counter c \<noteq> 0"
    for c b newH cur P
    using that findNewC_candidate [of "SCPBallot 0 []" "SCPBallot 0 []" S s newH b cur]
    by (auto split: if_splits)
  have "goodRun S A s s'"
  proof (cases "mPhase s = SCP_PHASE_PREPARE \<and> mPrepared s \<noteq> None \<and>
      findNewH S s (rev (getPrepareCandidates hint s)) \<noteq> None")
    case True
    then obtain cur where cur: "findNewH S s (rev (getPrepareCandidates hint s)) = Some cur" by auto
    define b where "b = (case mCurrentBallot s of Some b \<Rightarrow> b | None \<Rightarrow> SCPBallot 0 [])"
    define P where "P \<longleftrightarrow> mCommit s = None \<and>
        (case mPrepared s of None \<Rightarrow> True | Some p \<Rightarrow> \<not> areBallotsLessAndIncompatible (hd cur) p) \<and>
        (case mPreparedPrime s of None \<Rightarrow> True
         | Some p' \<Rightarrow> \<not> areBallotsLessAndIncompatible (hd cur) p')"
    have res: "setPreparedConfirmed proc S
        (if P then findNewC S s b (hd cur) cur (SCPBallot 0 []) else SCPBallot 0 []) (hd cur) s
        = Inr (w, s')"
      using assms(1) True
      unfolding attemptPreparedConfirmed_def Let_def cur option.case P_def b_def by simp
    from True have phase: "mPhase s = SCP_PHASE_PREPARE" by simp
    show ?thesis
      using setPreparedConfirmed_steps [OF res assms(2) phase findNewH_Some(1) [OF cur] cand [OF refl]]
      by simp
  next
    case False
    then have "s' = s" using assms(1)
      unfolding attemptPreparedConfirmed_def by (auto split: if_splits)
    then show ?thesis by simp
  qed
  then show ?thesis .
qed

end

section \<open>Commit\<close>

lemma findExtendedInterval_pred:
  assumes "fst cand = 0 \<or> pred cand"
  shows "fst (findExtendedInterval pred bs cand) = 0 \<or> pred (findExtendedInterval pred bs cand)"
  using assms by (induction bs arbitrary: cand) auto

lemma setAcceptCommit_update:
  assumes res: "setAcceptCommit proc S c h s = Inr (w, s')" and phase: "mPhase s \<noteq> SCP_PHASE_EXTERNALIZE"
  obtains "s' = s\<lparr>mValueOverride := Some (bvalue h)\<rparr>"
  | b1 pp hq cs s5 where "emitCurrentStateStatement proc S s5 = Inr s'"
    "s5 = s\<lparr>mValueOverride := Some (bvalue h), mCommit := Some c, mHighBallot := Some h,
        mPhase := SCP_PHASE_CONFIRM, mCurrentBallot := b1, mPreparedPrime := pp,
        mHeardFromQuorum := hq, mDriverCalls := mDriverCalls s @ cs\<rparr>"
    "list_all quiet cs"
    "mPhase s = SCP_PHASE_CONFIRM \<longrightarrow> mCurrentBallot s \<le> b1 \<and> pp = mPreparedPrime s"
    "mPhase s = SCP_PHASE_PREPARE \<longrightarrow> pp = None"
proof -
  define s0 where "s0 = s\<lparr>mValueOverride := Some (bvalue h)\<rparr>"
  define changed where "changed \<longleftrightarrow> (case (mHighBallot s0, mCommit s0) of
      (Some h0, Some c0) \<Rightarrow> compareBallots h0 h \<noteq> 0 \<or> compareBallots c0 c \<noteq> 0 | _ \<Rightarrow> True)"
  define s1 where "s1 = (if changed then s0\<lparr>mCommit := Some c, mHighBallot := Some h\<rparr> else s0)"
  have s1: "s1 = s\<lparr>mValueOverride := Some (bvalue h), mCommit := Some c, mHighBallot := Some h\<rparr>"
    by (auto simp: s1_def s0_def changed_def split: option.splits)
  obtain w4 s4 where
    mid: "(if mPhase s1 = SCP_PHASE_PREPARE
           then let s2 = s1\<lparr>mPhase := SCP_PHASE_CONFIRM\<rparr> in
             bindR (if (case mCurrentBallot s2 of
                          Some b \<Rightarrow> \<not> areBallotsLessAndCompatible h b | None \<Rightarrow> False)
                    then bumpToBallot h False s2 else Inr s2) (\<lambda>s3.
             Inr (True, s3\<lparr>mPreparedPrime := None\<rparr>))
           else Inr (changed, s1)) = Inr (w4, s4)"
    and fin: "if w4 then \<exists>h4 v s5. mHighBallot s4 = Some h4 \<and> updateCurrentIfNeeded h4 s4 = Inr (v, s5) \<and>
        emitCurrentStateStatement proc S (driverCall (AcceptedCommit (mSlotIndex s5) h) s5) = Inr s'
      else s' = s4"
    using res unfolding setAcceptCommit_def Let_def s0_def [symmetric] changed_def [symmetric]
    by (cases changed) (auto simp: s1_def split: if_splits)
  obtain b4 pp hq4 cs4 where s4: "s4 = s\<lparr>mValueOverride := Some (bvalue h), mCommit := Some c,
        mHighBallot := Some h, mPhase := SCP_PHASE_CONFIRM, mCurrentBallot := b4, mPreparedPrime := pp,
        mHeardFromQuorum := hq4, mDriverCalls := mDriverCalls s @ cs4\<rparr>" "list_all quiet cs4"
      "mPhase s = SCP_PHASE_CONFIRM \<longrightarrow> b4 = mCurrentBallot s \<and> pp = mPreparedPrime s"
      "mPhase s = SCP_PHASE_PREPARE \<longrightarrow> pp = None"
  proof (cases "mPhase s")
    case SCP_PHASE_PREPARE
    define s2 where "s2 = s1\<lparr>mPhase := SCP_PHASE_CONFIRM\<rparr>"
    obtain s3 where s3: "(if (case mCurrentBallot s2 of
          Some b \<Rightarrow> \<not> areBallotsLessAndCompatible h b | None \<Rightarrow> False)
        then bumpToBallot h False s2 else Inr s2) = Inr s3" "s4 = s3\<lparr>mPreparedPrime := None\<rparr>"
    proof -
      have "mPhase s1 = SCP_PHASE_PREPARE" using SCP_PHASE_PREPARE by (simp add: s1)
      then show ?thesis using mid that unfolding Let_def s2_def by auto
    qed
    have "\<exists>b4 hq4 cs4. s3 = s2\<lparr>mCurrentBallot := b4, mHeardFromQuorum := hq4,
        mDriverCalls := mDriverCalls s2 @ cs4\<rparr> \<and> list_all quiet cs4"
    proof (cases "bumpToBallot h False s2 = Inr s3")
      case True
      then obtain hb hq cs where *: "s3 = s2\<lparr>mCurrentBallot := Some h, mHighBallot := hb,
          mHeardFromQuorum := hq, mDriverCalls := mDriverCalls s2 @ cs\<rparr>" "list_all quiet cs"
          "map_option bvalue (mHighBallot s2) = Some (bvalue h) \<longrightarrow> hb = mHighBallot s2"
        by (rule bumpToBallot_fields)
      moreover have "mHighBallot s2 = Some h" by (simp add: s2_def s1)
      ultimately have "s3 = s2\<lparr>mCurrentBallot := Some h, mHeardFromQuorum := hq,
          mDriverCalls := mDriverCalls s2 @ cs\<rparr>" by simp
      with * show ?thesis by blast
    next
      case False
      then have "s3 = s2" using s3(1) by (auto split: if_splits)
      then have "s3 = s2\<lparr>mCurrentBallot := mCurrentBallot s2, mHeardFromQuorum := mHeardFromQuorum s2,
          mDriverCalls := mDriverCalls s2 @ []\<rparr> \<and> list_all quiet []" by simp
      then show ?thesis by blast
    qed
    then obtain bx hx cx where x: "s3 = s2\<lparr>mCurrentBallot := bx, mHeardFromQuorum := hx,
        mDriverCalls := mDriverCalls s2 @ cx\<rparr>" "list_all quiet cx" by blast
    show ?thesis
    proof (rule that)
      show "s4 = s\<lparr>mValueOverride := Some (bvalue h), mCommit := Some c,
          mHighBallot := Some h, mPhase := SCP_PHASE_CONFIRM, mCurrentBallot := bx,
          mPreparedPrime := None, mHeardFromQuorum := hx, mDriverCalls := mDriverCalls s @ cx\<rparr>"
        by (simp add: s3(2) x(1) s2_def s1)
    qed (use x(2) SCP_PHASE_PREPARE in simp_all)
  next
    case SCP_PHASE_CONFIRM
    then have "s4 = s1" using mid by (simp add: s1)
    show ?thesis
    proof (rule that)
      show "s4 = s\<lparr>mValueOverride := Some (bvalue h), mCommit := Some c,
          mHighBallot := Some h, mPhase := SCP_PHASE_CONFIRM, mCurrentBallot := mCurrentBallot s,
          mPreparedPrime := mPreparedPrime s, mHeardFromQuorum := mHeardFromQuorum s,
          mDriverCalls := mDriverCalls s @ []\<rparr>"
        using \<open>s4 = s1\<close> SCP_PHASE_CONFIRM by (simp add: s1)
    qed (use SCP_PHASE_CONFIRM in simp_all)
  qed (use phase in simp)
  show ?thesis
  proof (cases w4)
    case True
    then obtain v s5 where upd: "updateCurrentIfNeeded h s4 = Inr (v, s5)" and
        emit: "emitCurrentStateStatement proc S (driverCall (AcceptedCommit (mSlotIndex s5) h) s5) = Inr s'"
      using fin by (auto simp: s4(1))
    obtain b5 h5 hq5 cs5 where s5: "s5 = s4\<lparr>mCurrentBallot := b5, mHighBallot := h5,
        mHeardFromQuorum := hq5, mDriverCalls := mDriverCalls s4 @ cs5\<rparr>" "list_all quiet cs5"
        "mCurrentBallot s4 \<le> b5"
        "map_option bvalue (mHighBallot s4) = Some (bvalue h) \<longrightarrow> h5 = mHighBallot s4"
      using upd by (rule updateCurrentIfNeeded_fields)
    have h5: "h5 = Some h" using s5(4) by (simp add: s4(1))
    show ?thesis
    proof (rule that(2) [OF emit])
      show "driverCall (AcceptedCommit (mSlotIndex s5) h) s5 = s\<lparr>mValueOverride := Some (bvalue h),
          mCommit := Some c, mHighBallot := Some h, mPhase := SCP_PHASE_CONFIRM, mCurrentBallot := b5,
          mPreparedPrime := pp, mHeardFromQuorum := hq5,
          mDriverCalls := mDriverCalls s @ (cs4 @ cs5 @ [AcceptedCommit (mSlotIndex s) h])\<rparr>"
        by (simp add: s5(1) s4(1) h5 driverCall_def)
    qed (use s4 s5 in \<open>auto simp: quiet_def\<close>)
  next
    case False
    then have "s' = s4" "\<not> changed" "mPhase s \<noteq> SCP_PHASE_PREPARE" using fin mid
      by (auto simp: s1 Let_def split: if_splits)
    then have "s' = s0" using mid by (simp add: s1_def s0_def)
    then show ?thesis using that(1) by (simp add: s0_def)
  qed
qed

definition acceptInterval :: "SCPContext \<Rightarrow> SCPBallot \<Rightarrow> Slot \<Rightarrow> Interval" where
  "acceptInterval S bal s = findExtendedInterval
     (\<lambda>cur. federatedAccept S (votedCommit bal cur) (commitPredicate bal cur) (mLatestEnvelopes s))
     (rev (getCommitBoundariesFromStatements bal s)) (0, 0)"

lemma acceptInterval_accepted:
  "fst (acceptInterval S bal s) = 0 \<or>
   federatedAccept S (votedCommit bal (acceptInterval S bal s)) (commitPredicate bal (acceptInterval S bal s))
     (mLatestEnvelopes s)"
  unfolding acceptInterval_def by (rule findExtendedInterval_pred) simp

lemma attemptAcceptCommit_cases:
  assumes "attemptAcceptCommit proc S hint s = Inr (w, s')"
  obtains "s' = s"
  | bal where "mPhase s \<noteq> SCP_PHASE_EXTERNALIZE"
    "mPhase s = SCP_PHASE_CONFIRM \<longrightarrow> map_option bvalue (mHighBallot s) = Some (bvalue bal)"
    "fst (acceptInterval S bal s) \<noteq> 0"
    "setAcceptCommit proc S (SCPBallot (fst (acceptInterval S bal s)) (bvalue bal))
       (SCPBallot (snd (acceptInterval S bal s)) (bvalue bal)) s = Inr (w, s')"
proof (cases "acceptCommitBallot (pledges hint)")
  case None
  then show ?thesis using assms that(1) unfolding attemptAcceptCommit_def by (auto split: if_splits)
next
  case (Some bal)
  note r = assms [unfolded attemptAcceptCommit_def Some Let_def, folded acceptInterval_def]
  show ?thesis
  proof (cases "s' = s")
    case False
    show ?thesis using r False
      by (cases "mPhase s"; intro that(2) [of bal]) (auto split: if_splits)
  qed (rule that(1))
qed

context self_processing
begin

lemma setAcceptCommit_steps:
  assumes res: "setAcceptCommit proc S (SCPBallot lo v) (SCPBallot hi v) s = Inr (w, s')" and ready: "ready s"
    and phase: "mPhase s \<noteq> SCP_PHASE_EXTERNALIZE"
      "mPhase s = SCP_PHASE_CONFIRM \<longrightarrow> map_option bvalue (mHighBallot s) = Some v"
    and acc: "federatedAccept S (votedCommit bal (lo, hi)) (commitPredicate bal (lo, hi)) (mLatestEnvelopes s)"
      "bvalue bal = v" "lo \<noteq> 0"
  shows "goodRun S A s s'"
  using res phase(1)
proof (cases rule: setAcceptCommit_update)
  case 1
  then show ?thesis by (simp add: override_good)
next
  case (2 b1 pp hq cs s5)
  have "slot_step S A s s5"
  proof (rule slot_step.accept_commit [OF phase(1) _ acc(1) acc(3) 2(4,5,3)])
    show "mPhase s = SCP_PHASE_CONFIRM \<longrightarrow> map_option bvalue (mHighBallot s) = Some (bvalue bal)"
      using phase(2) acc(2) by simp
    show "wellFormed s5" by (rule emit_wellFormed [OF 2(1)])
  qed (simp add: 2(2) acc(2))
  then show ?thesis by (rule emit_after_step [OF 2(1) _ ready]) (simp_all add: 2(2))
qed

lemma attemptAcceptCommit_steps:
  assumes "attemptAcceptCommit proc S hint s = Inr (w, s')" "ready s"
  shows "goodRun S A s s'"
  using assms(1)
proof (cases rule: attemptAcceptCommit_cases)
  case (2 bal)
  obtain lo hi where i: "acceptInterval S bal s = (lo, hi)" by (cases "acceptInterval S bal s")
  have "federatedAccept S (votedCommit bal (lo, hi)) (commitPredicate bal (lo, hi)) (mLatestEnvelopes s)"
    "lo \<noteq> 0" using acceptInterval_accepted [of S bal s] 2(3) by (simp_all add: i)
  then show ?thesis using setAcceptCommit_steps [OF _ assms(2) 2(1,2)] 2(4) by (simp add: i)
qed simp

end

definition ratifyInterval :: "SCPContext \<Rightarrow> SCPBallot \<Rightarrow> Slot \<Rightarrow> Interval" where
  "ratifyInterval S bal s = findExtendedInterval
     (\<lambda>cur. federatedRatify S (commitPredicate bal cur) (mLatestEnvelopes s))
     (rev (getCommitBoundariesFromStatements bal s)) (0, 0)"

lemma ratifyInterval_ratified:
  "fst (ratifyInterval S bal s) = 0 \<or>
   federatedRatify S (commitPredicate bal (ratifyInterval S bal s)) (mLatestEnvelopes s)"
  unfolding ratifyInterval_def by (rule findExtendedInterval_pred) simp

lemma attemptConfirmCommit_cases:
  assumes "attemptConfirmCommit proc S hint s = Inr (w, s')"
  obtains "s' = s"
  | bal where "mPhase s = SCP_PHASE_CONFIRM" "map_option bvalue (mCommit s) = Some (bvalue bal)"
    "fst (ratifyInterval S bal s) \<noteq> 0"
    "setConfirmCommit proc S (SCPBallot (fst (ratifyInterval S bal s)) (bvalue bal))
       (SCPBallot (snd (ratifyInterval S bal s)) (bvalue bal)) s = Inr (w, s')"
proof (cases "confirmCommitBallot (pledges hint)")
  case None
  then show ?thesis using assms that(1) unfolding attemptConfirmCommit_def
    by (auto split: if_splits option.splits)
next
  case (Some bal)
  note r = assms [unfolded attemptConfirmCommit_def Some Let_def, folded ratifyInterval_def]
  show ?thesis
  proof (cases "s' = s")
    case False
    show ?thesis using r False
      by (intro that(2) [of bal]) (auto split: if_splits option.splits)
  qed (rule that(1))
qed

context self_processing
begin

lemma setConfirmCommit_steps:
  assumes res: "setConfirmCommit proc S (SCPBallot lo v) (SCPBallot hi v) s = Inr (w, s')" and ready: "ready s"
    and phase: "mPhase s = SCP_PHASE_CONFIRM" "map_option bvalue (mCommit s) = Some v"
    and rat: "federatedRatify S (commitPredicate bal (lo, hi)) (mLatestEnvelopes s)" "bvalue bal = v" "lo \<noteq> 0"
  shows "goodRun S A s s'"
proof -
  let ?c = "SCPBallot lo v" and ?h = "SCPBallot hi v"
  obtain u s2 s4 c5 where
    upd: "updateCurrentIfNeeded ?h (s\<lparr>mCommit := Some ?c, mHighBallot := Some ?h\<rparr>) = Inr (u, s2)"
    and emit: "emitCurrentStateStatement proc S (s2\<lparr>mPhase := SCP_PHASE_EXTERNALIZE\<rparr>) = Inr s4"
    and c5: "mCommit s4 = Some c5"
    and s': "s' = driverCall (ValueExternalized (mSlotIndex s4) (bvalue c5)) (stopNomination s4)"
    using res by (auto simp: setConfirmCommit_def Let_def stopNomination_def)
  obtain b1 h1 hq cs where s2: "s2 = s\<lparr>mCommit := Some ?c, mHighBallot := h1, mCurrentBallot := b1,
      mHeardFromQuorum := hq, mDriverCalls := mDriverCalls s @ cs\<rparr>" "list_all quiet cs" "h1 = Some ?h"
  proof -
    obtain b h hq cs where x: "s2 = (s\<lparr>mCommit := Some ?c, mHighBallot := Some ?h\<rparr>)\<lparr>mCurrentBallot := b,
        mHighBallot := h, mHeardFromQuorum := hq, mDriverCalls := mDriverCalls s @ cs\<rparr>"
        "list_all quiet cs" "h = Some ?h"
      using upd by (elim updateCurrentIfNeeded_fields) simp
    show ?thesis
    proof (rule that)
      show "s2 = s\<lparr>mCommit := Some ?c, mHighBallot := Some ?h, mCurrentBallot := b,
          mHeardFromQuorum := hq, mDriverCalls := mDriverCalls s @ cs\<rparr>" by (simp add: x)
    qed (simp_all add: x)
  qed
  define s3 where "s3 = s2\<lparr>mPhase := SCP_PHASE_EXTERNALIZE\<rparr>"
  note emit = emit [folded s3_def]
  have step: "slot_step S A s s3"
  proof (rule slot_step.confirm_commit [OF phase(1) _ rat(1,3) s2(2)])
    show "map_option bvalue (mCommit s) = Some (bvalue bal)" using phase(2) rat(2) by simp
    show "s3 = s\<lparr>mCommit := Some (SCPBallot lo (bvalue bal)), mHighBallot := Some (SCPBallot hi (bvalue bal)),
        mPhase := SCP_PHASE_EXTERNALIZE, mCurrentBallot := b1, mHeardFromQuorum := hq,
        mDriverCalls := mDriverCalls s @ cs\<rparr>"
      by (simp add: s3_def s2 rat(2))
    show "wellFormed s3" by (rule emit_wellFormed [OF emit])
  qed
  have ready3: "ready s3" by (rule ready_step [OF step ready])
  have phase3: "mPhase s3 = SCP_PHASE_EXTERNALIZE" by (simp add: s3_def)
  have good: "goodRun S A s3 s4" by (rule emit_good [OF emit ready3])
  have "externalizedValues s = []"
    using ready phase(1) by (cases "externalizedValues s") (auto simp: ready_def notifyInv_def)
  then have "externalizedValues s4 = []"
    using emit_final [OF emit ready3 phase3] s2(2) by (simp add: s3_def s2(1) externalizedValues_def)
  moreover have "mPhase s4 = SCP_PHASE_EXTERNALIZE"
    using good phase3 phase_final_steps by (auto simp: goodRun_def)
  ultimately have "slot_step S A s4 s'" unfolding s' using slot_step.externalized c5 by blast
  then have "slot_steps S A s s'"
    using step good by (auto simp: goodRun_def intro: rtranclp.rtrancl_into_rtrancl
        converse_rtranclp_into_rtranclp)
  moreover have "mCurrentMessageLevel s' = mCurrentMessageLevel s"
    using good by (simp add: goodRun_def s' s3_def s2(1) stopNomination_def)
  moreover have "notified s'" by (simp add: notified_def s' externalizedValues_def driverCall_def)
  ultimately show ?thesis by (simp add: goodRun_def)
qed

lemma attemptConfirmCommit_steps:
  assumes "attemptConfirmCommit proc S hint s = Inr (w, s')" "ready s"
  shows "goodRun S A s s'"
  using assms(1)
proof (cases rule: attemptConfirmCommit_cases)
  case (2 bal)
  obtain lo hi where i: "ratifyInterval S bal s = (lo, hi)" by (cases "ratifyInterval S bal s")
  have "federatedRatify S (commitPredicate bal (lo, hi)) (mLatestEnvelopes s)" "lo \<noteq> 0"
    using ratifyInterval_ratified [of S bal s] 2(3) by (simp_all add: i)
  then show ?thesis using setConfirmCommit_steps [OF _ assms(2) 2(1,2)] 2(4) by (simp add: i)
qed simp

end

section \<open>Bumping\<close>

lemma updateCurrentValue_step:
  assumes "updateCurrentValue bal s = Inr (w, s1)"
  shows "if w then slot_step S A s s1 \<and> mPhase s1 = mPhase s \<and> mPhase s \<noteq> SCP_PHASE_EXTERNALIZE \<and>
      mCurrentMessageLevel s1 = mCurrentMessageLevel s \<and> mCurrentBallot s1 = Some bal
    else s1 = s"
proof (cases w)
  case True
  then have "bumpToBallot bal True s = Inr s1 \<and> checkInvariants s1 = Inr ()"
    using assms unfolding updateCurrentValue_def Let_def
    by (cases "mCurrentBallot s") (auto split: if_splits)
  then have bump: "bumpToBallot bal True s = Inr s1" and wf: "wellFormed s1"
    by (simp_all add: wellFormed_def)
  obtain h hq cs where s1: "s1 = s\<lparr>mCurrentBallot := Some bal, mHighBallot := h, mHeardFromQuorum := hq,
      mDriverCalls := mDriverCalls s @ cs\<rparr>" "list_all quiet cs" "mPhase s \<noteq> SCP_PHASE_EXTERNALIZE"
      "True \<longrightarrow> mCurrentBallot s \<le> Some bal"
    using bump by (rule bumpToBallot_fields)
  have fields: "mPhase s1 = mPhase s" "mHighBallot s1 = h" by (simp_all add: s1(1))
  have high: "mPhase s1 = SCP_PHASE_CONFIRM \<longrightarrow> mHighBallot s1 \<noteq> None"
    using wf by (cases "mCommit s1") (auto simp: wellFormed_iff)
  have "slot_step S A s s1"
  proof (rule slot_step.bump_ballot [OF s1(3) _ s1(2,1) _ wf])
    show "mCurrentBallot s \<le> Some bal" using s1(4) by simp
    show "mPhase s = SCP_PHASE_CONFIRM \<longrightarrow> h \<noteq> None" using high unfolding fields .
  qed
  then show ?thesis using True s1(3) by (simp add: s1(1))
next
  case False
  then have "s1 = s" using assms unfolding updateCurrentValue_def Let_def
    by (cases "mCurrentBallot s") (auto split: if_splits)
  then show ?thesis using False by simp
qed

definition currentCounter :: "Slot \<Rightarrow> u32" where
  "currentCounter s = (case mCurrentBallot s of Some b \<Rightarrow> counter b | None \<Rightarrow> 0)"

text \<open>What the bump loop brings down: the phases left, then the counters left.\<close>

definition bumpRank :: "Slot \<Rightarrow> nat" where
  "bumpRank s = (2 - phaseNo (mPhase s)) * 2 ^ 33 + (2 ^ 32 - unat (currentCounter s))"

lemma bumpRank_phase:
  assumes "phaseNo (mPhase s) < phaseNo (mPhase s')"
  shows "bumpRank s' \<le> bumpRank s"
proof -
  have "Suc (2 - phaseNo (mPhase s')) \<le> 2 - phaseNo (mPhase s)"
    using assms phaseNo_le_2 [of "mPhase s'"] by simp
  then have "Suc (2 - phaseNo (mPhase s')) * 2 ^ 33 \<le> (2 - phaseNo (mPhase s)) * 2 ^ 33"
    by (rule mult_le_mono1)
  then show ?thesis by (simp add: bumpRank_def)
qed

lemma bumpRank_ballot:
  assumes "mPhase s = mPhase s'" "mCurrentBallot s \<le> mCurrentBallot s'"
  shows "bumpRank s' \<le> bumpRank s"
proof -
  have "currentCounter s \<le> currentCounter s'"
    using assms by (auto simp: currentCounter_def split: option.splits intro: ballot_le_counter)
  then show ?thesis using assms(1) by (simp add: bumpRank_def word_le_nat_alt diff_le_mono2)
qed

lemma bumpRank_progress: "progress s s' \<Longrightarrow> bumpRank s' \<le> bumpRank s"
  by (auto simp: progress_def intro: bumpRank_phase bumpRank_ballot)

lemma bumpRank_counter:
  assumes "mPhase s' = mPhase s" "currentCounter s < currentCounter s'"
  shows "bumpRank s' < bumpRank s"
proof -
  have "unat (currentCounter s) < unat (currentCounter s')" using assms(2) by (simp add: word_less_nat_alt)
  moreover have "unat (currentCounter s') < 2 ^ 32" 
    using unsigned_less [of "currentCounter s'", where 'a = nat] by simp
  ultimately show ?thesis using assms(1) by (simp add: bumpRank_def)
qed

lemma findBumpCounter_greater: "findBumpCounter S s t ns = Some n \<Longrightarrow> t < n"
  by (induction ns) (auto simp: Let_def split: if_splits)

context self_processing
begin

lemma bumpStateCounter_good:
  assumes "bumpStateCounter proc S v n s = Inr (w, s')" "ready s"
  shows "goodRun S A s s'" "w \<Longrightarrow> currentCounter s < n \<Longrightarrow> bumpRank s' < bumpRank s"
proof -
  define newb where "newb = SCPBallot n (case mValueOverride s of Some x \<Rightarrow> x | None \<Rightarrow> v)"
  have "goodRun S A s s' \<and> (w \<longrightarrow> currentCounter s < n \<longrightarrow> bumpRank s' < bumpRank s)"
  proof (cases "s' = s \<and> \<not> w")
    case False
    then obtain s1 s2 where upd: "updateCurrentValue newb s = Inr (True, s1)" and
        emit: "emitCurrentStateStatement proc S s1 = Inr s2" and s': "s' = checkHeardFromQuorum S s2"
      using assms(1) updateCurrentValue_step [of newb s False] unfolding newb_def [symmetric]
      by (auto simp: bumpStateCounter_def newb_def [symmetric] Let_def split: if_splits)
    have s1: "slot_step S A s s1" "mPhase s1 = mPhase s" "mPhase s \<noteq> SCP_PHASE_EXTERNALIZE"
        "mCurrentMessageLevel s1 = mCurrentMessageLevel s" "mCurrentBallot s1 = Some newb"
      using updateCurrentValue_step [OF upd] by simp_all
    have good2: "goodRun S A s1 s2" by (rule emit_good [OF emit ready_step [OF s1(1) assms(2)]])
    have heard: "slot_steps S A s2 s'" unfolding s' using checkHeardFromQuorum_step by blast
    have "mPhase s' = mPhase s2" unfolding s' by (rule checkHeardFromQuorum_fields [of S s2]) simp
    then have good3: "goodRun S A s2 s'"
      using heard by (simp add: goodRun_def notified_step) (simp add: s')
    have good1: "goodRun S A s s1" using s1 by (auto simp: goodRun_def notified_def)
    have "bumpRank s' \<le> bumpRank s1"
      using goodRun_trans [OF good2 good3] progress_steps by (auto simp: goodRun_def intro: bumpRank_progress)
    moreover have "bumpRank s1 < bumpRank s" if "currentCounter s < n"
      using that s1(2,5) by (intro bumpRank_counter) (simp_all add: currentCounter_def newb_def)
    ultimately show ?thesis
      using goodRun_trans [OF good1 goodRun_trans [OF good2 good3]] by auto
  qed simp
  then show "goodRun S A s s'" "w \<Longrightarrow> currentCounter s < n \<Longrightarrow> bumpRank s' < bumpRank s" by simp_all
qed

lemma bumpStateForce_good:
  assumes "bumpStateForce proc S v force s = Inr (w, s')" "ready s"
  shows "goodRun S A s s'"
  using assms by (auto simp: bumpStateForce_def Let_def split: if_splits dest: bumpStateCounter_good(1))

lemma abandonBallotWith_good:
  assumes "abandonBallotWith proc S n s = Inr (w, s')" "ready s"
  shows "goodRun S A s s'" "w \<Longrightarrow> currentCounter s < n \<Longrightarrow> bumpRank s' < bumpRank s"
  using assms
  by (auto simp: abandonBallotWith_def Let_def split: if_splits
      dest: bumpStateCounter_good bumpStateForce_good)

lemma attemptBump_good:
  assumes "attemptBump proc S s = Inr (w, s')" "ready s"
  shows "goodRun S A s s'" "w \<Longrightarrow> bumpRank s' < bumpRank s"
  using assms
  by (auto simp: attemptBump_def currentCounter_def [symmetric] Let_def split: if_splits option.splits
      dest: abandonBallotWith_good findBumpCounter_greater)

end

end
