(* ===== verification/BallotTermination.thy ===== *)
theory BallotTermination
  imports BallotRefinement
begin

text \<open>
  Processing an envelope always ends, in a result or in an error of the code itself. The depth of the
  recursion is the message level, which every function restores, so the depth bound of the code is
  reached before the one of the model; and every turn of the bump loop that asks for another one
  brings down \<open>bumpRank\<close>.
\<close>

section \<open>Results that keep the level and the rank\<close>

text \<open>The errors that the code of the ballot protocol raises itself.\<close>

definition genuine :: "scp_error \<Rightarrow> bool" where
  "genuine e \<longleftrightarrow>
     e \<in> {DbgAbort, NullDeref, RuntimeError ''moved to a bad state (ballot protocol)'',
          RuntimeError ''maximum number of transitions reached in advanceSlot''}"

definition ranked :: "Slot \<Rightarrow> Slot \<Rightarrow> bool" where
  "ranked s s' \<longleftrightarrow> mCurrentMessageLevel s' = mCurrentMessageLevel s \<and> bumpRank s' \<le> bumpRank s"

definition sound :: "('a \<Rightarrow> Slot) \<Rightarrow> Slot \<Rightarrow> scp_error + 'a \<Rightarrow> bool" where
  "sound f s r \<longleftrightarrow> (case r of Inl e \<Rightarrow> genuine e | Inr x \<Rightarrow> ranked s (f x))"

definition pureOk :: "scp_error + 'a \<Rightarrow> bool" where
  "pureOk r \<longleftrightarrow> (\<forall>e. r = Inl e \<longrightarrow> genuine e)"

named_theorems sound_rules \<open>rules that build results which keep the level and the rank\<close>

lemma ranked_refl [simp]: "ranked s s"
  by (simp add: ranked_def)

lemma ranked_trans: "ranked s t \<Longrightarrow> ranked t u \<Longrightarrow> ranked s u"
  by (simp add: ranked_def)

lemma sound_Inr [sound_rules]: "ranked s (f x) \<Longrightarrow> sound f s (Inr x)"
  by (simp add: sound_def)

lemma sound_Inl [sound_rules]: "genuine e \<Longrightarrow> sound f s (Inl e)"
  by (simp add: sound_def)

lemma sound_bind:
  assumes "sound f s r" "\<And>x. r = Inr x \<Longrightarrow> ranked s (f x) \<Longrightarrow> sound g s (k x)"
  shows "sound g s (bindR r k)"
  using assms by (cases r) (auto simp: sound_def)

lemma sound_bind_pure:
  assumes "pureOk r" "\<And>x. r = Inr x \<Longrightarrow> sound g s (k x)"
  shows "sound g s (bindR r k)"
  using assms by (cases r) (auto simp: sound_def pureOk_def)

lemma sound_from: "ranked s s1 \<Longrightarrow> sound f s1 r \<Longrightarrow> sound f s r"
  by (cases r) (auto simp: sound_def intro: ranked_trans)

lemma genuine_simps [simp]: "genuine DbgAbort" "genuine NullDeref"
  "genuine (RuntimeError ''moved to a bad state (ballot protocol)'')"
  "genuine (RuntimeError ''maximum number of transitions reached in advanceSlot'')"
  "\<not> genuine OutOfFuel" "\<not> genuine LoopDiverges"
  by (simp_all add: genuine_def)

lemma pureOk_simps [simp]: "pureOk (dbgAssert b)" "pureOk (deref p)" "pureOk (Inr x)"
  "pureOk (Inl e) = genuine e"
  by (auto simp: pureOk_def dbgAssert_def deref_def split: option.splits)

lemma pureOk_bind: "pureOk r \<Longrightarrow> (\<And>x. r = Inr x \<Longrightarrow> pureOk (k x)) \<Longrightarrow> pureOk (bindR r k)"
  by (cases r) (auto simp: pureOk_def)

lemma checkInvariants_pure [simp]: "pureOk (checkInvariants s)"
  unfolding checkInvariants_def
  by (intro pureOk_bind) (auto simp: split: option.splits SCPPhase.splits intro!: pureOk_bind)

lemma createStatement_pure [simp]: "pureOk (createStatement S s)"
  unfolding createStatement_def
  by (intro pureOk_bind) (auto split: SCPPhase.splits intro!: pureOk_bind)

section \<open>The functions between two processing steps\<close>

lemma rank_fields:
  "\<lbrakk>mPhase s' = mPhase s; mCurrentBallot s' = mCurrentBallot s;
    mCurrentMessageLevel s' = mCurrentMessageLevel s\<rbrakk> \<Longrightarrow> ranked s s'"
  by (simp add: ranked_def bumpRank_def currentCounter_def)

lemma rank_ballot:
  "\<lbrakk>mPhase s' = mPhase s; mCurrentBallot s \<le> mCurrentBallot s';
    mCurrentMessageLevel s' = mCurrentMessageLevel s\<rbrakk> \<Longrightarrow> ranked s s'"
  by (simp add: ranked_def bumpRank_ballot)

lemma rank_phase:
  "\<lbrakk>phaseNo (mPhase s) < phaseNo (mPhase s'); mCurrentMessageLevel s' = mCurrentMessageLevel s\<rbrakk> \<Longrightarrow>
   ranked s s'"
  by (simp add: ranked_def bumpRank_phase)

lemma bumpToBallot_pure: "pureOk (bumpToBallot bal chk s)"
  unfolding bumpToBallot_def Let_def by (intro pureOk_bind) auto

lemma updateCurrentIfNeeded_sound: "sound snd s (updateCurrentIfNeeded h s)"
proof (cases "updateCurrentIfNeeded h s")
  case (Inl e)
  then have "bumpToBallot h True s = Inl e"
    by (auto simp: updateCurrentIfNeeded_def bindR_Inl_iff split: if_splits)
  then show ?thesis using bumpToBallot_pure [of h True s] Inl by (simp add: sound_def)
next
  case (Inr x)
  obtain w s' where x: "x = (w, s')" by (cases x)
  have "ranked s s'"
    using Inr unfolding x
    by (elim updateCurrentIfNeeded_fields) (auto intro!: rank_ballot)
  then show ?thesis using Inr x by (simp add: sound_def)
qed

lemma ranked_driverCall: "ranked s s' \<Longrightarrow> ranked s (driverCall c s')"
  by (erule ranked_trans) (rule rank_fields; simp add: driverCall_def)

lemma ranked_send: "ranked s (sendLatestEnvelope (setLastEnvelope env s))"
  by (rule rank_fields) (auto simp: sendLatestEnvelope_def slot_update split: option.splits)

lemma updateCurrentValue_pure: "pureOk (updateCurrentValue bal s)"
  unfolding updateCurrentValue_def Let_def
  by (auto intro!: pureOk_bind bumpToBallot_pure split: option.splits)

locale level_bounded =
  fixes S :: SCPContext and proc :: SelfProc and l :: int
  assumes proc_sound: "mCurrentMessageLevel s = l \<Longrightarrow> sound snd s (proc env s)"
begin

lemma emit_sound:
  assumes "mCurrentMessageLevel s = l"
  shows "sound (\<lambda>s'. s') s (emitCurrentStateStatement proc S s)"
  unfolding emitCurrentStateStatement_def Let_def
  by (rule sound_bind_pure [OF createStatement_pure])
    (auto intro!: sound_bind [OF proc_sound [OF assms]] sound_rules
      elim: ranked_trans [OF _ ranked_send])

text \<open>Emitting after a change that kept the rank.\<close>

lemma emit_then:
  assumes "ranked s s1" "mCurrentMessageLevel s = l"
  shows "sound snd s (bindR (emitCurrentStateStatement proc S s1) (\<lambda>s2. Inr (True, s2)))"
proof -
  have l: "mCurrentMessageLevel s1 = l" using assms by (simp add: ranked_def)
  show ?thesis
    by (rule sound_bind [OF sound_from [OF assms(1) emit_sound [OF l]]]) (simp add: sound_def)
qed

lemma setPreparedAccept_sound:
  assumes "mCurrentMessageLevel s = l"
  shows "sound snd s (setPreparedAccept proc S bal s)"
proof -
  obtain w s1 where sp: "setPrepared bal s = (w, s1)" by (cases "setPrepared bal s")
  obtain p pp where s1: "s1 = s\<lparr>mPrepared := Some p, mPreparedPrime := pp\<rparr>"
    using sp by (rule setPrepared_fields)
  have r: "ranked s (driverCall x (s1\<lparr>mCommit := None\<rparr>))" "ranked s (driverCall x s1)" "ranked s s1" for x
    by (rule rank_fields; simp add: s1 driverCall_def)+
  show ?thesis
    unfolding setPreparedAccept_def sp Let_def prod.case
    by (cases w) (auto intro!: sound_bind_pure pureOk_bind sound_rules emit_then assms r)
qed

lemma findPreparedAccept_pure: "pureOk (findPreparedAccept S s bals)"
  by (induction bals) (auto intro!: pureOk_bind)

lemma attemptPreparedAccept_sound:
  "mCurrentMessageLevel s = l \<Longrightarrow> sound snd s (attemptPreparedAccept proc S hint s)"
  unfolding attemptPreparedAccept_def
  by (auto intro!: sound_bind_pure findPreparedAccept_pure setPreparedAccept_sound sound_rules
      split: option.splits)

lemma update_then:
  assumes "ranked s s3"
    and "\<And>w s4. updateCurrentIfNeeded h s3 = Inr (w, s4) \<Longrightarrow> ranked s s4 \<Longrightarrow> sound snd s (k w s4)"
  shows "sound snd s (bindR (updateCurrentIfNeeded h s3) (\<lambda>(w, s4). k w s4))"
  by (rule sound_bind [OF sound_from [OF assms(1) updateCurrentIfNeeded_sound]])
    (auto intro: assms(2))

lemma setPreparedConfirmed_sound:
  assumes "mCurrentMessageLevel s = l"
  shows "sound snd s (setPreparedConfirmed proc S newC newH s)"
  unfolding setPreparedConfirmed_def Let_def
  by (rule sound_bind [where f = snd],
      (auto intro!: sound_bind_pure pureOk_bind sound_rules rank_fields simp: driverCall_def) [1],
      auto intro!: sound_rules update_then emit_then assms)

lemma attemptPreparedConfirmed_sound:
  "mCurrentMessageLevel s = l \<Longrightarrow> sound snd s (attemptPreparedConfirmed proc S hint s)"
  unfolding attemptPreparedConfirmed_def Let_def
  by (auto intro!: setPreparedConfirmed_sound sound_rules split: option.splits)

lemma setAcceptCommit_sound:
  assumes "mCurrentMessageLevel s = l"
  shows "sound snd s (setAcceptCommit proc S c h s)"
proof -
  define s0 where "s0 = s\<lparr>mValueOverride := Some (bvalue h)\<rparr>"
  define changed where "changed \<longleftrightarrow> (case (mHighBallot s0, mCommit s0) of
      (Some h0, Some c0) \<Rightarrow> compareBallots h0 h \<noteq> 0 \<or> compareBallots c0 c \<noteq> 0 | _ \<Rightarrow> True)"
  define s1 where "s1 = (if changed then s0\<lparr>mCommit := Some c, mHighBallot := Some h\<rparr> else s0)"
  have s1: "ranked s s1" "mPhase s1 = mPhase s" "mCurrentMessageLevel s1 = mCurrentMessageLevel s"
    by (rule rank_fields; simp add: s1_def s0_def) (simp_all add: s1_def s0_def)
  have bump: "sound (\<lambda>s3. s3\<lparr>mPreparedPrime := None\<rparr>) s (bumpToBallot h False (s1\<lparr>mPhase := SCP_PHASE_CONFIRM\<rparr>))"
    if "mPhase s = SCP_PHASE_PREPARE"
  proof (cases "bumpToBallot h False (s1\<lparr>mPhase := SCP_PHASE_CONFIRM\<rparr>)")
    case (Inl e)
    then show ?thesis using bumpToBallot_pure [of h False] by (metis pureOk_simps(4) sound_Inl)
  next
    case (Inr s3)
    then have "ranked s (s3\<lparr>mPreparedPrime := None\<rparr>)"
      using that s1(3) by (elim bumpToBallot_fields) (auto intro!: rank_phase)
    then show ?thesis by (simp add: Inr sound_def)
  qed
  have conf: "ranked s (s1\<lparr>mPhase := SCP_PHASE_CONFIRM, mPreparedPrime := None\<rparr>)"
    if "mPhase s = SCP_PHASE_PREPARE"
    using that s1(3) by (auto intro!: rank_phase)
  have mid: "sound snd s (if mPhase s1 = SCP_PHASE_PREPARE
      then let s2 = s1\<lparr>mPhase := SCP_PHASE_CONFIRM\<rparr> in
        bindR (if (case mCurrentBallot s2 of
                     Some b \<Rightarrow> \<not> areBallotsLessAndCompatible h b | None \<Rightarrow> False)
               then bumpToBallot h False s2 else Inr s2) (\<lambda>s3.
        Inr (True, s3\<lparr>mPreparedPrime := None\<rparr>))
      else Inr (changed, s1))"
    using s1 conf
    by (auto simp: Let_def intro!: sound_rules sound_bind [OF bump])
  have "setAcceptCommit proc S c h s = bindR (if mPhase s1 = SCP_PHASE_PREPARE
      then let s2 = s1\<lparr>mPhase := SCP_PHASE_CONFIRM\<rparr> in
        bindR (if (case mCurrentBallot s2 of
                     Some b \<Rightarrow> \<not> areBallotsLessAndCompatible h b | None \<Rightarrow> False)
               then bumpToBallot h False s2 else Inr s2) (\<lambda>s3.
        Inr (True, s3\<lparr>mPreparedPrime := None\<rparr>))
      else Inr (changed, s1)) (\<lambda>(didWork, s4).
         if didWork
         then bindR (deref (mHighBallot s4)) (\<lambda>h4.
              bindR (updateCurrentIfNeeded h4 s4) (\<lambda>(_, s5).
              bindR (emitCurrentStateStatement proc S
                       (driverCall (AcceptedCommit (mSlotIndex s5) h) s5)) (\<lambda>s6.
              Inr (True, s6))))
         else Inr (False, s4))"
    unfolding setAcceptCommit_def s0_def [symmetric] changed_def [symmetric] s1_def Let_def by simp
  then show ?thesis
    by (simp only:)
      (rule sound_bind [OF mid],
       auto intro!: sound_bind_pure sound_rules update_then emit_then assms ranked_driverCall)
qed

lemma attemptAcceptCommit_sound:
  "mCurrentMessageLevel s = l \<Longrightarrow> sound snd s (attemptAcceptCommit proc S hint s)"
  unfolding attemptAcceptCommit_def Let_def
  by (auto intro!: setAcceptCommit_sound sound_rules sound_bind_pure pureOk_bind split: option.splits)

lemma setConfirmCommit_sound:
  assumes "mCurrentMessageLevel s = l" "mPhase s = SCP_PHASE_CONFIRM"
  shows "sound snd s (setConfirmCommit proc S c h s)"
  unfolding setConfirmCommit_def Let_def
proof (rule update_then)
  fix w s2
  assume upd: "updateCurrentIfNeeded h (s\<lparr>mCommit := Some c, mHighBallot := Some h\<rparr>) = Inr (w, s2)"
    and r: "ranked s s2"
  have "mPhase s2 = SCP_PHASE_CONFIRM"
    using upd by (elim updateCurrentIfNeeded_fields) (simp add: assms(2))
  then have r3: "ranked s (s2\<lparr>mPhase := SCP_PHASE_EXTERNALIZE\<rparr>)"
    using r by (intro rank_phase) (simp_all add: assms(2) ranked_def)
  have "mCurrentMessageLevel (s2\<lparr>mPhase := SCP_PHASE_EXTERNALIZE\<rparr>) = l"
    using r assms(1) by (simp add: ranked_def)
  note emit = sound_from [OF r3 emit_sound [OF this]]
  have stop: "ranked s (driverCall x (stopNomination s4))" if "ranked s s4" for x s4
    using that by (intro ranked_driverCall) (erule ranked_trans, rule rank_fields; simp add: stopNomination_def)
  show "sound snd s (bindR (emitCurrentStateStatement proc S (s2\<lparr>mPhase := SCP_PHASE_EXTERNALIZE\<rparr>))
      (\<lambda>s4. bindR (deref (mCommit (stopNomination s4))) (\<lambda>c5.
        Inr (True, driverCall (ValueExternalized (mSlotIndex (stopNomination s4)) (bvalue c5))
          (stopNomination s4)))))"
    by (rule sound_bind [OF emit]) (auto intro!: sound_bind_pure sound_rules stop)
qed (rule rank_fields; simp)

lemma attemptConfirmCommit_sound:
  "mCurrentMessageLevel s = l \<Longrightarrow> sound snd s (attemptConfirmCommit proc S hint s)"
  unfolding attemptConfirmCommit_def Let_def
  by (auto intro!: setConfirmCommit_sound sound_rules split: option.splits)

lemma bumpStateCounter_sound:
  assumes l: "mCurrentMessageLevel s = l"
  shows "sound snd s (bumpStateCounter proc S v n s)"
    "bumpStateCounter proc S v n s = Inr (True, s') \<Longrightarrow> currentCounter s < n \<Longrightarrow> bumpRank s' < bumpRank s"
proof -
  define newb where "newb = SCPBallot n (case mValueOverride s of Some x \<Rightarrow> x | None \<Rightarrow> v)"
  have heard: "ranked s2 (checkHeardFromQuorum S s2)" for s2
    by (rule checkHeardFromQuorum_fields [of S s2]) (auto intro: rank_fields)
  have upd: "ranked s s1 \<and> mCurrentMessageLevel s1 = l \<and> (w \<longrightarrow> currentCounter s < n \<longrightarrow> bumpRank s1 < bumpRank s)"
    if "updateCurrentValue newb s = Inr (w, s1)" for w s1
    using updateCurrentValue_step [OF that, of undefined undefined] l
    by (auto simp: ranked_def currentCounter_def newb_def split: if_splits
        intro!: bumpRank_progress progress_step bumpRank_counter)
  have emit: "sound id s1 (emitCurrentStateStatement proc S s1)" if "mCurrentMessageLevel s1 = l" for s1
    using emit_sound [OF that] by (simp add: id_def)
  show "sound snd s (bumpStateCounter proc S v n s)"
  proof -
    have after: "sound snd s (bindR (emitCurrentStateStatement proc S s1)
        (\<lambda>s2. Inr (True, checkHeardFromQuorum S s2)))"
      if "updateCurrentValue newb s = Inr (w, s1)" for w s1
      using upd [OF that]
      by (intro sound_bind [OF sound_from [OF _ emit]])
        (auto intro!: sound_rules elim: ranked_trans [OF _ heard])
    have "sound snd s (bindR (updateCurrentValue newb s) (\<lambda>(updated, s1).
        if updated
        then bindR (emitCurrentStateStatement proc S s1) (\<lambda>s2. Inr (True, checkHeardFromQuorum S s2))
        else Inr (False, s1)))"
      by (rule sound_bind_pure [OF updateCurrentValue_pure])
        (auto intro!: sound_rules after upd [THEN conjunct1])
    then show ?thesis
      unfolding bumpStateCounter_def Let_def newb_def [symmetric] by (auto intro!: sound_rules)
  qed
  show "bumpRank s' < bumpRank s"
    if res: "bumpStateCounter proc S v n s = Inr (True, s')" "currentCounter s < n"
  proof -
    obtain s1 s2 where 1: "updateCurrentValue newb s = Inr (True, s1)" and
        2: "emitCurrentStateStatement proc S s1 = Inr s2" and s': "s' = checkHeardFromQuorum S s2"
      using res(1) by (auto simp: bumpStateCounter_def newb_def [symmetric] Let_def split: if_splits)
    have "ranked s1 s2" using emit [of s1] upd [OF 1] 2 by (simp add: sound_def)
    then show ?thesis using upd [OF 1] heard [of s2] res(2) by (simp add: ranked_def s')
  qed
qed

lemma abandonBallotWith_sound:
  assumes "mCurrentMessageLevel s = l"
  shows "sound snd s (abandonBallotWith proc S n s)"
    "abandonBallotWith proc S n s = Inr (True, s') \<Longrightarrow> currentCounter s < n \<Longrightarrow> bumpRank s' < bumpRank s"
  using bumpStateCounter_sound [OF assms]
  by (auto simp: abandonBallotWith_def bumpStateForce_def Let_def intro!: sound_rules split: if_splits)

lemma attemptBump_sound:
  assumes "mCurrentMessageLevel s = l"
  shows "sound snd s (attemptBump proc S s)"
    "attemptBump proc S s = Inr (True, s') \<Longrightarrow> bumpRank s' < bumpRank s"
  using abandonBallotWith_sound [OF assms]
  by (auto simp: attemptBump_def currentCounter_def [symmetric] Let_def intro!: sound_rules
      split: if_splits option.splits dest: findBumpCounter_greater)

end

section \<open>The bump loop\<close>

definition loopRank :: "scp_error + (bool \<times> bool \<times> Slot) \<Rightarrow> nat" where
  "loopRank r = (case r of Inr (True, w, s) \<Rightarrow> Suc (bumpRank s) | _ \<Rightarrow> 0)"

locale sound_body =
  fixes body :: "Slot \<Rightarrow> scp_error + (bool \<times> Slot)" and l :: int
  assumes body_sound: "mCurrentMessageLevel s = l \<Longrightarrow> sound snd s (body s)"
    and body_rank: "mCurrentMessageLevel s = l \<Longrightarrow> body s = Inr (True, s') \<Longrightarrow> bumpRank s' < bumpRank s"
begin

lemma iteration_sound:
  assumes "ranked s t" "mCurrentMessageLevel s = l"
  shows "sound (\<lambda>(b, w, s'). s') s (bumpIteration body w t)"
proof -
  have "mCurrentMessageLevel t = l" using assms by (simp add: ranked_def)
  from sound_from [OF assms(1) body_sound [OF this]] show ?thesis
    unfolding bumpIteration_def by (rule sound_bind) (auto intro: sound_Inr)
qed

lemma iteration_rank:
  "mCurrentMessageLevel t = l \<Longrightarrow> loopRank (bumpIteration body w t) < Suc (bumpRank t)"
  using body_rank [of t]
  by (cases "body t") (auto simp: bumpIteration_def loopRank_def split: bool.splits)

lemma loop_sound:
  assumes "mCurrentMessageLevel s = l"
  shows "sound snd s (bumpLoop body didWork s)"
proof -
  let ?b = "\<lambda>r. case r of Inr (didBump, _, _) \<Rightarrow> didBump | Inl _ \<Rightarrow> False"
  let ?c = "\<lambda>r. case r of Inr (_, w, s') \<Rightarrow> bumpIteration body w s' | Inl e \<Rightarrow> Inl e"
  let ?P = "sound (\<lambda>(b :: bool, w :: bool, s'). s') s"
  have keep: "?P (?c r) \<and> loopRank (?c r) < loopRank r" if inv: "?P r" "?b r" for r
  proof -
    obtain w s' where r: "r = Inr (True, w, s')" using inv(2) by (auto split: sum.splits)
    then have "ranked s s'" using inv(1) by (simp add: sound_def)
    then show ?thesis
      using iteration_sound [OF _ assms] iteration_rank [of s'] assms
      by (simp add: r loopRank_def [of "Inr (True, w, s')"]) (simp add: ranked_def)
  qed
  have start: "?P (bumpIteration body didWork s)" by (rule iteration_sound [OF ranked_refl assms])
  obtain r where r: "while_option ?b ?c (bumpIteration body didWork s) = Some r"
    using measure_while_option_Some [of ?P ?b ?c loopRank] keep start by blast
  have "?P r" using r start by (rule while_option_rule [where P = ?P, rotated]) (use keep in blast)
  then show ?thesis
    unfolding bumpLoop_def r option.case by (rule sound_bind) (auto intro: sound_Inr)
qed

end

section \<open>Processing an envelope\<close>

lemma processEnvelopeWith_sound:
  assumes "\<And>hint t. mCurrentMessageLevel t = mCurrentMessageLevel s \<Longrightarrow> sound id t (advance hint t)"
  shows "sound snd s (processEnvelopeWith advance S self env s)"
proof -
  have rec: "ranked s (recordEnvelope env s)" "ranked s (recordEnvelope env (setFullyValidated b s))" for b
    by (rule rank_fields; simp add: slot_update)+
  have adv: "sound id s (advance hint t)" if "ranked s t" for hint t
    using that assms [of t hint] by (intro sound_from [OF that]) (simp add: ranked_def)
  show ?thesis
    unfolding processEnvelopeWith_def Let_def
    by (auto intro!: sound_bind_pure sound_rules rec sound_bind [OF adv [OF rec(1)]]
        sound_bind [OF adv [OF rec(2)]])
qed

lemma advanceSlot_sound:
  "\<lbrakk>0 \<le> mCurrentMessageLevel s; mCurrentMessageLevel s < 50; 50 \<le> int fuel + mCurrentMessageLevel s\<rbrakk> \<Longrightarrow>
   sound id s (advanceSlot fuel S hint s)"
proof (induction fuel arbitrary: s hint)
  case (Suc fuel)
  define l where "l = mCurrentMessageLevel s + 1"
  define proc where "proc = processEnvelopeWith (advanceSlot fuel S) S True"
  define s0 where "s0 = s\<lparr>mCurrentMessageLevel := l\<rparr>"
  show ?case
  proof (cases "l \<ge> 50")
    case True
    then show ?thesis by (simp add: MAX_ADVANCE_SLOT_RECURSION_def l_def sound_def)
  next
    case False
    have proc: "level_bounded proc l"
    proof
      fix t :: Slot and env assume "mCurrentMessageLevel t = l"
      then show "sound snd t (proc env t)"
        using Suc.IH Suc.prems False unfolding proc_def
        by (intro processEnvelopeWith_sound) (simp add: l_def del: id_apply eq_id_iff)
    qed
    note sounds = level_bounded.attemptPreparedAccept_sound [OF proc]
      level_bounded.attemptPreparedConfirmed_sound [OF proc]
      level_bounded.attemptAcceptCommit_sound [OF proc] level_bounded.attemptConfirmCommit_sound [OF proc]
    have body: "sound_body (attemptBump proc S) l"
      by unfold_locales (fact level_bounded.attemptBump_sound [OF proc])+
    note loop = sound_body.loop_sound [OF body]
    have s0: "mCurrentMessageLevel s0 = l" by (simp add: s0_def)
    have at: "mCurrentMessageLevel t = l" if "ranked s0 t" for t using that s0 by (simp add: ranked_def)
    let ?up = "\<lambda>t. t\<lparr>mCurrentMessageLevel := mCurrentMessageLevel t + 1\<rparr>"
    have fin: "ranked s0 (sendLatestEnvelope (t\<lparr>mCurrentMessageLevel := y\<rparr>)\<lparr>mCurrentMessageLevel := x\<rparr>)"
      "ranked s0 (t\<lparr>mCurrentMessageLevel := x\<rparr>)" if "ranked s0 t" "x = mCurrentMessageLevel t" for t x y
      using that
      by (auto elim!: ranked_trans intro!: rank_fields simp: sendLatestEnvelope_def slot_update
          split: option.splits)
    have heard: "ranked s0 (checkHeardFromQuorum S t)" if "ranked s0 t" for t
      using that by (rule ranked_trans)
        (rule checkHeardFromQuorum_fields [of S t], auto intro: rank_fields)
    have "sound ?up s0 (advanceSlot (Suc fuel) S hint s)"
      unfolding advanceSlot.simps Let_def proc_def [symmetric] l_def [symmetric] s0_def [symmetric]
      using False s0
      by (auto simp: MAX_ADVANCE_SLOT_RECURSION_def bindR_assoc fin heard intro!: sound_rules
          sound_bind [OF sound_from [OF _ sounds(1) [OF at]]] sound_bind [OF sound_from [OF _ sounds(2) [OF at]]]
          sound_bind [OF sound_from [OF _ sounds(3) [OF at]]] sound_bind [OF sound_from [OF _ sounds(4) [OF at]]]
          sound_bind [OF sound_from [OF _ loop [OF at]]])
    moreover have "ranked s t" if "ranked s0 (?up t)" for t
      using that by (simp add: ranked_def s0_def l_def bumpRank_def currentCounter_def)
    ultimately show ?thesis by (auto simp: sound_def split: sum.splits)
  qed
qed simp

end
