(* ===== verification/BallotRuns.thy ===== *)
theory BallotRuns
  imports BallotTermination
begin

text \<open>
  The recursion of the ballot protocol: \<open>advanceSlot\<close> meets the contract \<open>self_processing\<close> at every
  depth, and so every entry point of the protocol is a sequence of steps of the machine. That the
  entry points always return is shown with \<open>BallotTermination\<close>.
\<close>

section \<open>The bump loop\<close>

locale bump_body =
  fixes S :: SCPContext and A :: "SCPEnvelope set" and body :: "Slot \<Rightarrow> scp_error + (bool \<times> Slot)"
  assumes body_good: "body s = Inr (w, s') \<Longrightarrow> ready s \<Longrightarrow> goodRun S A s s'"
begin

abbreviation again :: "scp_error + (bool \<times> bool \<times> Slot) \<Rightarrow> bool" where
  "again r \<equiv> (case r of Inr (didBump, _, _) \<Rightarrow> didBump | Inl _ \<Rightarrow> False)"

abbreviation turn :: "scp_error + (bool \<times> bool \<times> Slot) \<Rightarrow> scp_error + (bool \<times> bool \<times> Slot)" where
  "turn r \<equiv> (case r of Inr (_, w, s') \<Rightarrow> bumpIteration body w s' | Inl e \<Rightarrow> Inl e)"

definition between :: "Slot \<Rightarrow> scp_error + (bool \<times> bool \<times> Slot) \<Rightarrow> bool" where
  "between s r \<longleftrightarrow> (\<forall>b w s'. r = Inr (b, w, s') \<longrightarrow> goodRun S A s s')"

lemma between_iteration: "ready s \<Longrightarrow> goodRun S A s s' \<Longrightarrow> between s (bumpIteration body w s')"
  by (auto simp: between_def bumpIteration_def intro: goodRun_trans body_good goodRun_ready)

lemma between_turn: "ready s \<Longrightarrow> between s r \<Longrightarrow> between s (turn r)"
proof (cases r)
  case (Inr x)
  obtain b w s' where x: "x = (b, w, s')" by (cases x)
  assume "ready s" "between s r"
  then have "between s (bumpIteration body w s')"
    using Inr x by (intro between_iteration) (auto simp: between_def)
  then show ?thesis by (simp add: Inr x)
qed (simp add: between_def)

lemma loop_good:
  assumes "bumpLoop body didWork s = Inr (w, s')" "ready s"
  shows "goodRun S A s s'"
proof -
  obtain r where r: "while_option again turn (bumpIteration body didWork s) = Some r" "\<exists>b. r = Inr (b, w, s')"
    using assms(1) by (auto simp: bumpLoop_def split: option.splits)
  have "between s r"
    using r(1) by (rule while_option_rule [where P = "between s", rotated])
      (auto simp: between_turn assms(2) intro!: between_iteration)
  then show ?thesis using r(2) by (auto simp: between_def)
qed

end

section \<open>Processing an envelope\<close>

lemma setFullyValidated_same [simp]: "setFullyValidated (mFullyValidated s) s = s"
  by (simp add: setFullyValidated_def)

lemma processEnvelopeWith_cases:
  assumes "processEnvelopeWith advance S self env s = Inr (r, s')"
    "env \<in> A \<or> ownEnvelope S s env"
  obtains "r = INVALID" "s' = s"
  | t fv where "r = VALID" "t = recordEnvelope env (setFullyValidated fv s)" "slot_step S A s t"
      "if mPhase s = SCP_PHASE_EXTERNALIZE then s' = t else advance (statement env) t = Inr s'"
proof -
  let ?st = "statement env"
  have rec: "slot_step S A s (recordEnvelope env (setFullyValidated fv s))"
    if "slotIndex ?st = mSlotIndex s" "isStatementSane S ?st self" "isNewerStatementNode (nodeID ?st) ?st s"
      "validateValues S ?st s \<noteq> kInvalidValue" "fv \<longrightarrow> mFullyValidated s"
      "mPhase s = SCP_PHASE_EXTERNALIZE \<longrightarrow> (\<exists>c. mCommit s = Some c \<and> bvalue c = bvalue (getWorkingBallot (pledges ?st)))"
    for fv
    using that assms(2) by (intro slot_step.record_envelope [where self = self]) auto
  show ?thesis
  proof (cases "r = INVALID \<and> s' = s")
    case False
    define fv where "fv = (mFullyValidated s \<and>
      (mPhase s = SCP_PHASE_EXTERNALIZE \<or> validateValues S ?st s \<noteq> kMaybeValidValue))"
    have "setFullyValidated fv s = (if mPhase s \<noteq> SCP_PHASE_EXTERNALIZE \<and> validateValues S ?st s = kMaybeValidValue
        then setFullyValidated False s else s)"
      by (simp add: fv_def setFullyValidated_def)
    then show ?thesis
      using that(2) [of "recordEnvelope env (setFullyValidated fv s)" fv] False assms(1) rec [of fv]
      by (auto simp: processEnvelopeWith_def Let_def fv_def split: if_splits)
  qed (use that(1) in blast)
qed

lemma record_good:
  assumes "slot_step S A s (recordEnvelope env (setFullyValidated fv s))"
  shows "goodRun S A s (recordEnvelope env (setFullyValidated fv s))"
  using assms by (auto simp: goodRun_def slot_update intro: notified_step [of S A s])

lemma processEnvelopeWith_good:
  assumes res: "processEnvelopeWith advance S self env s = Inr (r, s')"
    and env: "env \<in> A \<or> ownEnvelope S s env" and s: "ready s"
    and adv: "\<And>st t t'. advance st t = Inr t' \<Longrightarrow> ready t \<Longrightarrow> goodRun S A t t'"
  shows "goodRun S A s s'"
    "r = VALID \<Longrightarrow> statement env \<in> fst ` set (mStatementsHistory s')"
proof -
  have "goodRun S A s s' \<and> (r = VALID \<longrightarrow> statement env \<in> fst ` set (mStatementsHistory s'))"
    using res env
  proof (cases rule: processEnvelopeWith_cases)
    case (2 t fv)
    have good: "goodRun S A s t" using record_good 2(2,3) by blast
    have rec: "statement env \<in> fst ` set (mStatementsHistory t)" by (simp add: 2(2) slot_update)
    show ?thesis
    proof (cases "mPhase s = SCP_PHASE_EXTERNALIZE")
      case False
      then have "goodRun S A t s'" using adv [OF _ goodRun_ready [OF good s]] 2(4) by simp
      moreover from this have "prefix (mStatementsHistory t) (mStatementsHistory s')"
        using progress_steps by (auto simp: goodRun_def progress_def)
      ultimately show ?thesis
        using good rec by (auto simp: prefix_def intro: goodRun_trans)
    qed (use good rec 2(4) in simp)
  qed simp
  then show "goodRun S A s s'"
    "r = VALID \<Longrightarrow> statement env \<in> fst ` set (mStatementsHistory s')" by blast+
qed

lemma level_good:
  "goodRun S A (s\<lparr>mCurrentMessageLevel := l\<rparr>) s' \<Longrightarrow> k = mCurrentMessageLevel s \<Longrightarrow>
   goodRun S A s (s'\<lparr>mCurrentMessageLevel := k\<rparr>)"
  using slot_step.message_level [of S A s l] slot_step.message_level [of S A s' k]
  by (auto simp: goodRun_def notified_def externalizedValues_def
      intro: converse_rtranclp_into_rtranclp rtranclp.rtrancl_into_rtrancl)

lemma send_good: "goodRun S A s (sendLatestEnvelope s)"
proof -
  have "mPhase (sendLatestEnvelope s) = mPhase s"
    by (simp add: sendLatestEnvelope_def slot_update split: option.splits)
  then show ?thesis using sendLatestEnvelope_steps [of S A s] notified_step by (auto simp: goodRun_def)
qed

lemma heard_good: "goodRun S A s (checkHeardFromQuorum S s)"
proof -
  have "mPhase (checkHeardFromQuorum S s) = mPhase s" by (rule checkHeardFromQuorum_fields [of S s]) simp
  then show ?thesis
    using checkHeardFromQuorum_step [of S A s] notified_step [of S A s] by (auto simp: goodRun_def)
qed

text \<open>One level of \<open>advanceSlot\<close>, for any processing of the node's own statement that meets the contract.\<close>

lemma advance_good:
  assumes proc: "self_processing S A (processEnvelopeWith (advanceSlot fuel S) S True)"
    and res: "advanceSlot (Suc fuel) S hint s = Inr s'" and s: "ready s"
  shows "goodRun S A s s'"
proof -
  define proc where "proc = processEnvelopeWith (advanceSlot fuel S) S True"
  define s0 where "s0 = s\<lparr>mCurrentMessageLevel := mCurrentMessageLevel s + 1\<rparr>"
  note self = proc [folded proc_def]
  note steps = self_processing.attemptPreparedAccept_steps [OF self]
    self_processing.attemptPreparedConfirmed_steps [OF self]
    self_processing.attemptAcceptCommit_steps [OF self] self_processing.attemptConfirmCommit_steps [OF self]
  have body: "bump_body S A (attemptBump proc S)"
    by unfold_locales (fact self_processing.attemptBump_good(1) [OF self])
  have s0: "ready s0" using s slot_step.message_level ready_step unfolding s0_def by blast
  let ?loop = "\<lambda>w t. if mCurrentMessageLevel t = 1
    then bindR (bumpLoop (attemptBump proc S) w t) (\<lambda>(w5, s5). Inr (w5, checkHeardFromQuorum S s5)) else Inr (w, t)"
  have "\<not> MAX_ADVANCE_SLOT_RECURSION \<le> mCurrentMessageLevel s0"
    using res by (auto simp: Let_def s0_def)
  then obtain w1 s1 w2 s2 w3 s3 w4 s4 w6 s6 where
      attempts: "attemptPreparedAccept proc S hint s0 = Inr (w1, s1)"
        "attemptPreparedConfirmed proc S hint s1 = Inr (w2, s2)"
        "attemptAcceptCommit proc S hint s2 = Inr (w3, s3)" "attemptConfirmCommit proc S hint s3 = Inr (w4, s4)" and
      loop: "?loop (w4 \<or> w3 \<or> w2 \<or> w1) s4 = Inr (w6, s6)" and
      s': "s' = (let s7 = s6\<lparr>mCurrentMessageLevel := mCurrentMessageLevel s6 - 1\<rparr>
        in if w6 then sendLatestEnvelope s7 else s7)"
    using res
    unfolding advanceSlot.simps Let_def proc_def [symmetric] s0_def [symmetric]
    by (auto split del: if_split)
  from attempts have good: "goodRun S A s0 s4"
    using s0 by (meson steps goodRun_trans goodRun_ready)
  then have "ready s4" using s0 goodRun_ready by blast
  then have "goodRun S A s4 s6"
    using loop by (auto split: if_splits intro!: goodRun_trans [OF bump_body.loop_good [OF body] heard_good])
  with good have run: "goodRun S A s0 s6" by (rule goodRun_trans)
  then have "mCurrentMessageLevel s6 - 1 = mCurrentMessageLevel s" by (simp add: goodRun_def s0_def)
  then have "goodRun S A s (s6\<lparr>mCurrentMessageLevel := mCurrentMessageLevel s6 - 1\<rparr>)"
    using run unfolding s0_def by (rule level_good [rotated])
  then show ?thesis using send_good by (auto simp: s' Let_def intro: goodRun_trans)
qed

lemma processEnvelopeWith_contract:
  assumes "\<And>st t t'. advance st t = Inr t' \<Longrightarrow> ready t \<Longrightarrow> goodRun S A t t'"
  shows "self_processing S A (processEnvelopeWith advance S True)"
proof
  fix env r and s s' :: Slot
  assume a: "processEnvelopeWith advance S True env s = Inr (r, s')" "ownEnvelope S s env" "ready s"
  show "goodRun S A s s'"
    by (rule processEnvelopeWith_good(1) [OF a(1) disjI2 [OF a(2)] a(3)]) (rule assms)
next
  fix env and s s' :: Slot
  assume a: "processEnvelopeWith advance S True env s = Inr (VALID, s')" "ownEnvelope S s env" "ready s"
  show "statement env \<in> fst ` set (mStatementsHistory s')"
    by (rule processEnvelopeWith_good(2) [OF a(1) disjI2 [OF a(2)] a(3)]) (auto intro: assms)
next
  fix env r and s s' :: Slot
  assume "processEnvelopeWith advance S True env s = Inr (r, s')" "mPhase s = SCP_PHASE_EXTERNALIZE"
  then show "mDriverCalls s' = mDriverCalls s"
    by (auto simp: processEnvelopeWith_def Let_def slot_update split: if_splits)
qed

lemma advanceSlot_processing: "self_processing S A (processEnvelopeWith (advanceSlot fuel S) S True)"
proof (induction fuel)
  case 0
  show ?case by (rule processEnvelopeWith_contract) simp
next
  case (Suc fuel)
  show ?case by (rule processEnvelopeWith_contract) (rule advance_good [OF Suc])
qed

section \<open>The entry points\<close>

lemma processEnvelope_eq: "processEnvelope S self = processEnvelopeWith (advanceSlot 50 S) S self"
  by (intro ext) (simp add: processEnvelope_def)

interpretation ballot_self: self_processing S A "processEnvelope S True" for S A
  unfolding processEnvelope_eq by (rule advanceSlot_processing)

interpretation ballot_bump: bump_body S A "attemptBump (processEnvelope S True) S" for S A
  by unfold_locales (rule ballot_self.attemptBump_good(1))

lemma processEnvelope_sound:
  "mCurrentMessageLevel s = 0 \<Longrightarrow> sound snd s (processEnvelope S self env s)"
  unfolding processEnvelope_eq by (rule processEnvelopeWith_sound) (rule advanceSlot_sound; simp)

interpretation ballot_level: level_bounded S "processEnvelope S True" 0 for S
  by unfold_locales (rule processEnvelope_sound)

interpretation ballot_loop: sound_body "attemptBump (processEnvelope S True) S" 0 for S
  by unfold_locales (rule ballot_level.attemptBump_sound; assumption)+

lemma processEnvelope_good:
  assumes "processEnvelope S self env s = Inr (r, s')" "env \<in> A \<or> ownEnvelope S s env" "ready s"
  shows "goodRun S A s s'"
  using assms(1) unfolding processEnvelope_eq
proof (rule processEnvelopeWith_good(1) [OF _ assms(2,3)])
  show "goodRun S A t t'" if "advanceSlot 50 S st t = Inr t'" "ready t" for st t t'
    by (rule advance_good [OF advanceSlot_processing [of S A 49]]) (use that in simp_all)
qed

lemma bumpState_good: "bumpState S v force s = Inr (w, s') \<Longrightarrow> ready s \<Longrightarrow> goodRun S A s s'"
  unfolding bumpState_def by (rule ballot_self.bumpStateForce_good)

lemma abandonBallot_good: "abandonBallot S n s = Inr (w, s') \<Longrightarrow> ready s \<Longrightarrow> goodRun S A s s'"
  unfolding abandonBallot_def by (rule ballot_self.abandonBallotWith_good)

lemma bumpState_sound: "mCurrentMessageLevel s = 0 \<Longrightarrow> sound snd s (bumpState S v force s)"
  unfolding bumpState_def bumpStateForce_def Let_def
  by (auto intro!: sound_rules ballot_level.bumpStateCounter_sound)

lemma abandonBallot_sound: "mCurrentMessageLevel s = 0 \<Longrightarrow> sound snd s (abandonBallot S n s)"
  unfolding abandonBallot_def by (rule ballot_level.abandonBallotWith_sound)

end
