(* ===== verification/Nomination.thy ===== *)
theory Nomination
  imports BallotProtocol
begin

text \<open>
  The nomination protocol of SCP (\<^verbatim>\<open>scp/NominationProtocol.cpp\<close>), function by function, in the code's
  order. A node that changed its votes processes its own nomination, which may change the votes
  again. The values such a turn may add come from the application (\<open>extractValidValue\<close>), and the code
  has no bound on the number of turns; the model is the partial function \<open>nom_processEnvelope\<close>, whose
  value is \<open>None\<close> where the code does not return.

  The names that the ballot protocol uses as well carry the prefix \<^verbatim>\<open>nom\<close>.
\<close>

section \<open>Nomination statements\<close>

text \<open>The two value lists of a nomination. Only nominations reach the functions below: the accessor
  of the union throws on other statements.\<close>

fun nomVotes :: "SCPPledges \<Rightarrow> Value list" where
  "nomVotes (SCP_ST_NOMINATE _ vs _) = vs"
| "nomVotes _ = []"

fun nomAccepted :: "SCPPledges \<Rightarrow> Value list" where
  "nomAccepted (SCP_ST_NOMINATE _ _ as) = as"
| "nomAccepted _ = []"

text \<open>\<^verbatim>\<open>std::includes\<close>: a merge that presumes both ranges sorted.\<close>

fun std_includes :: "'a::linorder list \<Rightarrow> 'a list \<Rightarrow> bool" where
  "std_includes v [] = True"
| "std_includes [] (y # ys) = False"
| "std_includes (x # xs) (y # ys) =
     (if y < x then False else if x < y then std_includes xs (y # ys) else std_includes xs ys)"

text \<open>Whether \<open>p\<close> is a subset of \<open>v\<close>, and the flag \<^verbatim>\<open>notEqual\<close>.\<close>

definition isSubsetHelper :: "Value list \<Rightarrow> Value list \<Rightarrow> bool \<times> bool" where
  "isSubsetHelper p v =
     (if length p \<le> length v
      then let res = std_includes v p in (res, if res then length p \<noteq> length v else True)
      else (False, True))"

definition nom_isNewerStatement :: "SCPPledges \<Rightarrow> SCPPledges \<Rightarrow> bool" where
  "nom_isNewerStatement oldst st =
     (let (res1, grows) = isSubsetHelper (nomVotes oldst) (nomVotes st) in
      if res1
      then let (res2, g) = isSubsetHelper (nomAccepted oldst) (nomAccepted st) in
           if res2 then grows \<or> g else False
      else False)"

definition nom_isNewerStatementNode :: "NodeID \<Rightarrow> SCPPledges \<Rightarrow> Slot \<Rightarrow> bool" where
  "nom_isNewerStatementNode n st s =
     (case map_of (mLatestNominations s) n of
        None \<Rightarrow> True
      | Some e \<Rightarrow> nom_isNewerStatement (pledges (statement e)) st)"

text \<open>\<^verbatim>\<open>std::adjacent_find\<close> with \<^verbatim>\<open>!(l < r)\<close> finds nothing.\<close>

fun ascending :: "Value list \<Rightarrow> bool" where
  "ascending (x # y # xs) = (x < y \<and> ascending (y # xs))"
| "ascending _ = True"

definition nom_isSane :: "SCPStatement \<Rightarrow> bool" where
  "nom_isSane st =
     (length (nomVotes (pledges st)) + length (nomAccepted (pledges st)) \<noteq> 0 \<and>
      ascending (nomVotes (pledges st)) \<and> ascending (nomAccepted (pledges st)))"

definition nom_validateValue :: "SCPContext \<Rightarrow> Value \<Rightarrow> Slot \<Rightarrow> ValidationLevel" where
  "nom_validateValue S v s = validateValue S (mSlotIndex s) v True"

definition nom_extractValidValue :: "SCPContext \<Rightarrow> Value \<Rightarrow> Slot \<Rightarrow> Value" where
  "nom_extractValidValue S v s = extractValidValue S (mSlotIndex s) v"

definition nom_recordEnvelope :: "SCPEnvelope \<Rightarrow> Slot \<Rightarrow> Slot" where
  "nom_recordEnvelope env s =
     recordStatement (statement env)
       (s\<lparr>mLatestNominations := map_put (nodeID (statement env)) env (mLatestNominations s)\<rparr>)"

definition acceptPredicate :: "Value \<Rightarrow> SCPStatement \<Rightarrow> bool" where
  "acceptPredicate v st \<longleftrightarrow> v \<in> set (nomAccepted (pledges st))"

definition votedNominate :: "Value \<Rightarrow> SCPStatement \<Rightarrow> bool" where
  "votedNominate v st \<longleftrightarrow> v \<in> set (nomVotes (pledges st))"

text \<open>The values \<^verbatim>\<open>applyAll\<close> passes to its processor, in order; also \<^verbatim>\<open>getStatementValues\<close>.\<close>

definition applyAll :: "SCPPledges \<Rightarrow> Value list" where
  "applyAll nom = nomVotes nom @ nomAccepted nom"

section \<open>Leaders and their values\<close>

definition hashNode :: "SCPContext \<Rightarrow> bool \<Rightarrow> NodeID \<Rightarrow> Slot \<Rightarrow> scp_error + u64" where
  "hashNode S isPriority n s =
     bindR (dbgAssert (mPreviousValue s \<noteq> [])) (\<lambda>_.
     Inr (computeHashNode S (mSlotIndex s) (mPreviousValue s) isPriority (mRoundNumber s) n))"

definition hashValue :: "SCPContext \<Rightarrow> Value \<Rightarrow> Slot \<Rightarrow> scp_error + u64" where
  "hashValue S v s =
     bindR (dbgAssert (mPreviousValue s \<noteq> [])) (\<lambda>_.
     Inr (computeValueHash S (mSlotIndex s) (mPreviousValue s) (mRoundNumber s) v))"

definition getNodePriority ::
  "SCPContext \<Rightarrow> NodeID \<Rightarrow> SCPQuorumSet \<Rightarrow> Slot \<Rightarrow> scp_error + u64" where
  "getNodePriority S n qset s =
     (let w = (if n = localNodeID S then UINT64_MAX else getNodeWeight n qset) in
      bindR (hashNode S False n s) (\<lambda>h. if h < w then hashNode S True n s else Inr 0))"

text \<open>The body of the loop over the nodes: the leaders and the top priority so far.\<close>

fun leaderLoop ::
  "(NodeID \<Rightarrow> scp_error + u64) \<Rightarrow> NodeID list \<Rightarrow> NodeID list \<times> u64 \<Rightarrow> scp_error + (NodeID list \<times> u64)" where
  "leaderLoop prio [] acc = Inr acc"
| "leaderLoop prio (cur # ns) (leaders, topPriority) =
     bindR (prio cur) (\<lambda>w.
     let (leaders1, top1) = (if w > topPriority then ([], w) else (leaders, topPriority));
         leaders2 = (if w = top1 \<and> w > 0 then set_insert cur leaders1 else leaders1)
     in leaderLoop prio ns (leaders2, top1))"

definition updateRoundLeaders :: "SCPContext \<Rightarrow> Slot \<Rightarrow> scp_error + Slot" where
  "updateRoundLeaders S s =
     (let localID = localNodeID S;
          myQSet = normalizeQSet (localQSet S) (Some localID) in
      bindR (getNodePriority S localID myQSet s) (\<lambda>topPriority.
      bindR (leaderLoop (\<lambda>cur. getNodePriority S cur myQSet s) (forAllNodes myQSet)
               ([localID], topPriority)) (\<lambda>(leaders, _).
      Inr (s\<lparr>mRoundLeaders := leaders\<rparr>))))"

text \<open>The value a vote for \<open>v\<close> would be cast for: \<open>v\<close> itself or what can be extracted from it.\<close>

definition valueToNominate :: "SCPContext \<Rightarrow> Value \<Rightarrow> Slot \<Rightarrow> Value" where
  "valueToNominate S v s =
     (if nom_validateValue S v s = kFullyValidatedValue then v else nom_extractValidValue S v s)"

fun newValueLoop ::
  "SCPContext \<Rightarrow> Slot \<Rightarrow> Value list \<Rightarrow> Value \<times> u64 \<Rightarrow> scp_error + (Value \<times> u64)" where
  "newValueLoop S s [] acc = Inr acc"
| "newValueLoop S s (v # vs) (newVote, newHash) =
     (let x = valueToNominate S v s in
      if x \<noteq> [] \<and> x \<notin> set (mVotes s)
      then bindR (hashValue S x s) (\<lambda>curHash.
           newValueLoop S s vs (if curHash \<ge> newHash then (x, curHash) else (newVote, newHash)))
      else newValueLoop S s vs (newVote, newHash))"

definition getNewValueFromNomination :: "SCPContext \<Rightarrow> SCPPledges \<Rightarrow> Slot \<Rightarrow> scp_error + Value" where
  "getNewValueFromNomination S nom s =
     bindR (newValueLoop S s (applyAll nom) ([], 0)) (\<lambda>(newVote, _). Inr newVote)"

section \<open>Processing a nomination\<close>

text \<open>Attempt to promote a vote to accepted, with the flag \<^verbatim>\<open>modified\<close>.\<close>

definition promoteVote :: "SCPContext \<Rightarrow> Value \<Rightarrow> bool \<times> Slot \<Rightarrow> bool \<times> Slot" where
  "promoteVote S v = (\<lambda>(modified, s).
     if v \<in> set (mAccepted s) then (modified, s)
     else if federatedAccept S (votedNominate v) (acceptPredicate v) (mLatestNominations s)
     then if nom_validateValue S v s = kFullyValidatedValue
          then (True, s\<lparr>mAccepted := set_insert v (mAccepted s), mVotes := set_insert v (mVotes s)\<rparr>)
          else let toVote = nom_extractValidValue S v s in
            if toVote \<noteq> [] \<and> toVote \<notin> set (mVotes s)
            then (True, s\<lparr>mVotes := set_insert toVote (mVotes s)\<rparr>)
            else (modified, s)
     else (modified, s))"

text \<open>Attempt to promote an accepted value to candidate, with the flag \<^verbatim>\<open>newCandidates\<close>.\<close>

definition promoteAccepted :: "SCPContext \<Rightarrow> Value \<Rightarrow> bool \<times> Slot \<Rightarrow> bool \<times> Slot" where
  "promoteAccepted S a = (\<lambda>(newCandidates, s).
     if a \<in> set (mCandidates s) then (newCandidates, s)
     else if federatedRatify S (acceptPredicate a) (mLatestNominations s)
     then (True, s\<lparr>mCandidates := set_insert a (mCandidates s)\<rparr>)
     else (newCandidates, s))"

text \<open>Only take round leader votes when still looking for candidates.\<close>

definition takeLeaderVote ::
  "SCPContext \<Rightarrow> SCPStatement \<Rightarrow> bool \<times> Slot \<Rightarrow> scp_error + (bool \<times> Slot)" where
  "takeLeaderVote S st = (\<lambda>(modified, s).
     if mCandidates s = [] \<and> nodeID st \<in> set (mRoundLeaders s)
     then bindR (getNewValueFromNomination S (pledges st) s) (\<lambda>newVote.
          if newVote \<noteq> []
          then Inr (True, driverCall (NominatingValue (mSlotIndex s) newVote)
                            (s\<lparr>mVotes := set_insert newVote (mVotes s)\<rparr>))
          else Inr (modified, s))
     else Inr (modified, s))"

text \<open>The part of \<^verbatim>\<open>processEnvelope\<close> before the node emits: \<^verbatim>\<open>modified\<close>, \<^verbatim>\<open>newCandidates\<close> and the slot.\<close>

definition nom_update :: "SCPContext \<Rightarrow> SCPStatement \<Rightarrow> Slot \<Rightarrow> scp_error + (bool \<times> bool \<times> Slot)" where
  "nom_update S st s =
     (let (modified, s1) = fold (promoteVote S) (nomVotes (pledges st)) (False, s);
          (newCandidates, s2) = fold (promoteAccepted S) (mAccepted s1) (False, s1)
      in bindR (takeLeaderVote S st (modified, s2)) (\<lambda>(modified, s3).
         Inr (modified, newCandidates, s3)))"

text \<open>The part after the node emitted.\<close>

definition nom_newCandidates :: "SCPContext \<Rightarrow> bool \<Rightarrow> Slot \<Rightarrow> scp_error + (EnvelopeState \<times> Slot)" where
  "nom_newCandidates S newCandidates s =
     (if newCandidates
      then let v = combineCandidates S (mSlotIndex s) (mCandidates s);
               s1 = driverCall (UpdatedCandidateValue (mSlotIndex s) v)
                      (s\<lparr>mLatestCompositeCandidate := v\<rparr>)
           in bindR (bumpState S v False s1) (\<lambda>(_, s2). Inr (VALID, s2))
      else Inr (VALID, s))"

text \<open>\<^verbatim>\<open>emitNomination\<close> makes an envelope, processes it and emits it. The slot index of the envelope is
  the slot's own, so \<^verbatim>\<open>Slot::processEnvelope\<close> hands it on to \<open>nom_processEnvelope\<close>.\<close>

definition nominationEnvelope :: "SCPContext \<Rightarrow> Slot \<Rightarrow> SCPEnvelope" where
  "nominationEnvelope S s = createEnvelope S (SCP_ST_NOMINATE (localQSetHash S) (mVotes s) (mAccepted s)) s"

definition finishNomination ::
  "SCPEnvelope \<Rightarrow> scp_error + (EnvelopeState \<times> Slot) \<Rightarrow> scp_error + Slot" where
  "finishNomination envelope processed =
     bindR processed (\<lambda>(res, s).
     if res = VALID
     then if (case mNominationLastEnvelope s of
                None \<Rightarrow> True
              | Some e \<Rightarrow> nom_isNewerStatement (pledges (statement e)) (pledges (statement envelope)))
          then let s1 = s\<lparr>mNominationLastEnvelope := Some envelope\<rparr>
               in Inr (if mFullyValidated s1 then driverCall (EmitEnvelope envelope) s1 else s1)
          else Inr s
     else Inl (RuntimeError ''moved to a bad state (nomination)''))"

partial_function (option) nom_processEnvelope ::
  "SCPContext \<Rightarrow> SCPEnvelope \<Rightarrow> Slot \<Rightarrow> (scp_error + (EnvelopeState \<times> Slot)) option" where
  [code]: "nom_processEnvelope S env s =
     (if \<not> nom_isNewerStatementNode (nodeID (statement env)) (pledges (statement env)) s
      then Some (Inr (INVALID, s))
      else if \<not> nom_isSane (statement env) then Some (Inr (INVALID, s))
      else let s1 = nom_recordEnvelope env s in
        if \<not> mNominationStarted s1 then Some (Inr (VALID, s1))
        else case nom_update S (statement env) s1 of
            Inl e \<Rightarrow> Some (Inl e)
          | Inr (modified, newCandidates, s2) \<Rightarrow>
              if modified
              then let own = nominationEnvelope S s2 in
                Option.bind (nom_processEnvelope S own s2) (\<lambda>processed.
                Some (bindR (finishNomination own processed) (nom_newCandidates S newCandidates)))
              else Some (nom_newCandidates S newCandidates s2))"

definition emitNomination :: "SCPContext \<Rightarrow> Slot \<Rightarrow> (scp_error + Slot) option" where
  "emitNomination S s =
     (let envelope = nominationEnvelope S s
      in map_option (finishNomination envelope) (nom_processEnvelope S envelope s))"

section \<open>Nominating\<close>

text \<open>Take the votes of the leaders; the last value looked at is the one reported.\<close>

fun leaderVotes ::
  "SCPContext \<Rightarrow> NodeID list \<Rightarrow> Value \<times> bool \<times> Slot \<Rightarrow> scp_error + (Value \<times> bool \<times> Slot)" where
  "leaderVotes S [] acc = Inr acc"
| "leaderVotes S (leader # ls) (nominatingValue, updated, s) =
     (case map_of (mLatestNominations s) leader of
        None \<Rightarrow> leaderVotes S ls (nominatingValue, updated, s)
      | Some e \<Rightarrow>
          bindR (getNewValueFromNomination S (pledges (statement e)) s) (\<lambda>v.
          leaderVotes S ls
            (if v \<noteq> [] then (v, True, s\<lparr>mVotes := set_insert v (mVotes s)\<rparr>) else (v, updated, s))))"

text \<open>The part of \<^verbatim>\<open>nominate\<close> before the node emits: the flag \<^verbatim>\<open>updated\<close> and the slot.\<close>

definition nominateVotes ::
  "SCPContext \<Rightarrow> Value \<Rightarrow> Value \<Rightarrow> Slot \<Rightarrow> scp_error + (bool \<times> Slot)" where
  "nominateVotes S val previousValue s =
     bindR (updateRoundLeaders S (s\<lparr>mNominationStarted := True, mPreviousValue := previousValue,
              mRoundNumber := mRoundNumber s + 1\<rparr>)) (\<lambda>s1.
     bindR (if localNodeID S \<in> set (mRoundLeaders s1)
            then Inr (val, val \<notin> set (mVotes s1), s1\<lparr>mVotes := set_insert val (mVotes s1)\<rparr>)
            else leaderVotes S (mRoundLeaders s1) ([], False, s1)) (\<lambda>(nominatingValue, updated, s2).
     let timeout = computeTimeout (word_of_int (mRoundNumber s2));
         s3 = driverCall (NominatingValue (mSlotIndex s2) nominatingValue) s2;
         s4 = driverCall (SetupTimer (mSlotIndex s2) NOMINATION_TIMER timeout
                (Some (NominateTimeout val previousValue))) s3
     in Inr (updated, s4)))"

definition nom_nominate ::
  "SCPContext \<Rightarrow> Value \<Rightarrow> Value \<Rightarrow> bool \<Rightarrow> Slot \<Rightarrow> (scp_error + (bool \<times> Slot)) option" where
  "nom_nominate S val previousValue timedout s =
     (if timedout \<and> \<not> mNominationStarted s then Some (Inr (False, s))
      else case nominateVotes S val previousValue s of
          Inl e \<Rightarrow> Some (Inl e)
        | Inr (updated, s1) \<Rightarrow>
            if updated
            then map_option (\<lambda>r. bindR r (\<lambda>s2. Inr (True, s2))) (emitNomination S s1)
            else Some (Inr (False, s1)))"

section \<open>Saving and restoring state\<close>

definition nom_setStateFromEnvelope :: "SCPEnvelope \<Rightarrow> Slot \<Rightarrow> scp_error + Slot" where
  "nom_setStateFromEnvelope e s =
     (if mNominationStarted s
      then Inl (RuntimeError ''Cannot set state after nomination is started'')
      else let s1 = nom_recordEnvelope e s;
               nom = pledges (statement e)
           in Inr (s1\<lparr>mAccepted := set_insert_all (nomAccepted nom) (mAccepted s1),
                      mVotes := set_insert_all (nomVotes nom) (mVotes s1),
                      mNominationLastEnvelope := Some e\<rparr>))"

definition nom_getCurrentState :: "SCPContext \<Rightarrow> Slot \<Rightarrow> SCPEnvelope list" where
  "nom_getCurrentState S s =
     map snd (filter (\<lambda>(n, env). n \<noteq> localNodeID S \<or> mFullyValidated s) (mLatestNominations s))"

end
