(* ===== verification/NodeSteps.thy ===== *)
theory NodeSteps
  imports SlotSteps
begin

text \<open>
  The machine of a whole slot: a step of the ballot protocol, or one of the nomination protocol, which
  leaves the ballot protocol's part of the state alone, records and emits nominations only, and never
  tells the driver that a value externalized. The invariants of \<open>SlotSteps\<close> carry over.
\<close>

section \<open>Steps of nomination\<close>

text \<open>The slot without the members of the nomination protocol and without the two logs.\<close>

definition ballotView :: "Slot \<Rightarrow> Slot" where
  "ballotView s = s\<lparr>mRoundNumber := 0, mVotes := [], mAccepted := [], mCandidates := [],
     mLatestNominations := [], mNominationLastEnvelope := None, mRoundLeaders := [],
     mNominationStarted := False, mLatestCompositeCandidate := [], mPreviousValue := [],
     mStatementsHistory := [], mDriverCalls := []\<rparr>"

definition nomRun :: "Slot \<Rightarrow> Slot \<Rightarrow> bool" where
  "nomRun s s' \<longleftrightarrow> ballotView s' = ballotView s \<and>
     (\<exists>hs. mStatementsHistory s' = mStatementsHistory s @ hs \<and> list_all (\<lambda>x. isNomination (fst x)) hs) \<and>
     (\<exists>cs. mDriverCalls s' = mDriverCalls s @ cs \<and> list_all quietNomination cs)"

lemma nomRun_refl [simp]: "nomRun s s"
  by (simp add: nomRun_def)

lemma nomRunE:
  assumes "nomRun s s'"
  obtains hs cs where "ballotView s' = ballotView s"
    "mStatementsHistory s' = mStatementsHistory s @ hs" "list_all (\<lambda>x. isNomination (fst x)) hs"
    "mDriverCalls s' = mDriverCalls s @ cs" "list_all quietNomination cs"
  using assms unfolding nomRun_def by blast

lemma nomRunI:
  assumes "ballotView s' = ballotView s"
    "mStatementsHistory s' = mStatementsHistory s @ hs" "list_all (\<lambda>x. isNomination (fst x)) hs"
    "mDriverCalls s' = mDriverCalls s @ cs" "list_all quietNomination cs"
  shows "nomRun s s'"
  using assms unfolding nomRun_def by blast

lemma nomRun_trans:
  assumes "nomRun s t" "nomRun t u"
  shows "nomRun s u"
proof -
  obtain hs cs where 1: "ballotView t = ballotView s"
    "mStatementsHistory t = mStatementsHistory s @ hs" "list_all (\<lambda>x. isNomination (fst x)) hs"
    "mDriverCalls t = mDriverCalls s @ cs" "list_all quietNomination cs"
    using assms(1) by (rule nomRunE)
  obtain hs' cs' where 2: "ballotView u = ballotView t"
    "mStatementsHistory u = mStatementsHistory t @ hs'" "list_all (\<lambda>x. isNomination (fst x)) hs'"
    "mDriverCalls u = mDriverCalls t @ cs'" "list_all quietNomination cs'"
    using assms(2) by (rule nomRunE)
  show ?thesis
    by (rule nomRunI [of u s "hs @ hs'" "cs @ cs'"]) (use 1 2 in simp_all)
qed

lemma ballotView_fields:
  "mSlotIndex (ballotView s) = mSlotIndex s" "mFullyValidated (ballotView s) = mFullyValidated s"
  "mNextAllocation (ballotView s) = mNextAllocation s"
  "mCurrentBallot (ballotView s) = mCurrentBallot s" "mPrepared (ballotView s) = mPrepared s"
  "mPreparedPrime (ballotView s) = mPreparedPrime s" "mHighBallot (ballotView s) = mHighBallot s"
  "mCommit (ballotView s) = mCommit s" "mLatestEnvelopes (ballotView s) = mLatestEnvelopes s"
  "mPhase (ballotView s) = mPhase s"
  "mCurrentMessageLevel (ballotView s) = mCurrentMessageLevel s"
  "mLastEnvelope (ballotView s) = mLastEnvelope s"
  "mLastEnvelopeEmit (ballotView s) = mLastEnvelopeEmit s"
  by (simp_all add: ballotView_def)

lemma nomRun_fields:
  assumes "nomRun s s'"
  shows
    "mSlotIndex s' = mSlotIndex s" "mFullyValidated s' = mFullyValidated s"
    "mNextAllocation s' = mNextAllocation s" "mCurrentBallot s' = mCurrentBallot s"
    "mPrepared s' = mPrepared s" "mPreparedPrime s' = mPreparedPrime s"
    "mHighBallot s' = mHighBallot s" "mCommit s' = mCommit s"
    "mLatestEnvelopes s' = mLatestEnvelopes s" "mPhase s' = mPhase s"
    "mCurrentMessageLevel s' = mCurrentMessageLevel s" "mLastEnvelope s' = mLastEnvelope s"
    "mLastEnvelopeEmit s' = mLastEnvelopeEmit s"
  using assms unfolding nomRun_def by (metis ballotView_fields)+

lemma nomRun_logs:
  assumes "nomRun s s'"
  shows "externalizedValues s' = externalizedValues s" "emittedBallots s' = emittedBallots s"
    "prefix (mStatementsHistory s) (mStatementsHistory s')" "prefix (mDriverCalls s) (mDriverCalls s')"
  using assms by (auto simp: nomRun_def externalizedValues_def emittedBallots_def)

section \<open>The machine\<close>

inductive node_step :: "SCPContext \<Rightarrow> SCPEnvelope set \<Rightarrow> Slot \<Rightarrow> Slot \<Rightarrow> bool" for S A where
  ballot_step: "slot_step S A s s' \<Longrightarrow> node_step S A s s'"
| nomination_step: "nomRun s s' \<Longrightarrow> node_step S A s s'"

abbreviation node_steps :: "SCPContext \<Rightarrow> SCPEnvelope set \<Rightarrow> Slot \<Rightarrow> Slot \<Rightarrow> bool" where
  "node_steps S A \<equiv> (node_step S A)\<^sup>*\<^sup>*"

lemma slot_steps_node: "slot_steps S A s s' \<Longrightarrow> node_steps S A s s'"
  by (erule rtranclp_mono [THEN predicate2D, rotated]) (blast intro: node_step.ballot_step)

lemma wellFormed_node:
  assumes "node_step S A s s'" "wellFormed s"
  shows "wellFormed s'"
  using assms
proof (cases rule: node_step.cases)
  case nomination_step
  then show ?thesis using assms(2) by (simp add: wellFormed_iff nomRun_fields)
qed (rule wellFormed_step)

lemma locked_node:
  assumes "node_step S A s s'" "wellFormed s" "locked s v"
  shows "locked s' v"
  using assms
proof (cases rule: node_step.cases)
  case nomination_step
  then show ?thesis using assms(3) by (simp add: locked_def nomRun_fields)
qed (rule locked_step)

lemma progress_node:
  assumes "node_step S A s s'"
  shows "progress s s'"
  using assms
proof (cases rule: node_step.cases)
  case nomination_step
  then show ?thesis by (simp add: progress_def nomRun_fields nomRun_logs)
qed (rule progress_step)

lemma latestInv_node:
  assumes "node_step S A s s'" "latestInv s"
  shows "latestInv s'"
  using assms
proof (cases rule: node_step.cases)
  case nomination_step
  then have "fst ` set (mStatementsHistory s) \<subseteq> fst ` set (mStatementsHistory s')"
    using nomRun_logs(3) by (fastforce simp: prefix_def)
  then show ?thesis using assms(2) nomination_step by (simp add: latestInv_def nomRun_fields) blast
qed (rule latestInv_step)

lemma notifyInv_node:
  assumes "node_step S A s s'" "wellFormed s" "notifyInv s"
  shows "notifyInv s'"
  using assms
proof (cases rule: node_step.cases)
  case nomination_step
  then show ?thesis using assms(3) by (simp add: notifyInv_def locked_def nomRun_fields nomRun_logs)
qed (rule notifyInv_step)

lemma emitInv_node:
  assumes "node_step S A s s'" "emitInv S s"
  shows "emitInv S s'"
  using assms
proof (cases rule: node_step.cases)
  case nomination_step
  then show ?thesis by (intro emitInv_keep [OF assms(2)]) (simp_all add: nomRun_fields nomRun_logs)
qed (rule emitInv_step)

lemma vouched_node:
  assumes "node_step S A s s'" "wellFormed s" "vouched S s st"
  shows "vouched S s' st"
  using assms(3) locked_node [OF assms(1,2)] progress_node [OF assms(1)] phaseNo_le_2 [of "mPhase s'"]
  by (auto simp: vouched_def progress_def split: SCPPledges.splits)

lemma vouchInv_node:
  assumes step: "node_step S A s s'" and wf: "wellFormed s" and inv: "vouchInv S s" and auth: "authentic S A s"
  shows "vouchInv S s'"
  using step
proof (cases rule: node_step.cases)
  case ballot_step
  then show ?thesis using wf inv auth unfolding authentic_def by (rule vouchInv_step)
next
  case nomination_step
  then obtain hs where hs: "mStatementsHistory s' = mStatementsHistory s @ hs"
      "list_all (\<lambda>x. isNomination (fst x)) hs"
    by (rule nomRunE)
  have new: "vouched S s' (fst x)" if "x \<in> set hs" for x
    using hs(2) that
    by (cases "pledges (fst x)") (simp_all add: list_all_iff isNomination_def vouched_def, fastforce+)
  show ?thesis
    unfolding vouchInv_def
  proof (intro ballI impI)
    fix x assume "x \<in> set (mStatementsHistory s')" "nodeID (fst x) = localNodeID S"
    then show "vouched S s' (fst x)"
      using inv new [of x] vouched_node [OF step wf, of "fst x"] unfolding hs(1) vouchInv_def by auto
  qed
qed

lemma supersedes_node:
  assumes "node_step S A s s'" "latestInv s"
  shows "supersedes (mLatestEnvelopes s) (mLatestEnvelopes s')"
  using assms
proof (cases rule: node_step.cases)
  case nomination_step
  then show ?thesis by (simp add: nomRun_fields)
qed (rule supersedes_step)

lemma slotInv_node:
  assumes "node_step S A s s'" "slotInv S s" "authentic S A s"
  shows "slotInv S s' \<and> authentic S A s'"
  using assms wellFormed_node latestInv_node notifyInv_node emitInv_node vouchInv_node vouched_node
  by (simp add: slotInv_def authentic_def)

section \<open>Runs\<close>

lemma slotInv_nodes:
  assumes "node_steps S A s s'" "slotInv S s" "authentic S A s"
  shows "slotInv S s' \<and> authentic S A s'"
  using assms by (induction rule: rtranclp_induct) (auto dest: slotInv_node)

lemma progress_nodes:
  assumes "node_steps S A s s'"
  shows "progress s s'"
  using assms by (induction rule: rtranclp_induct) (auto dest: progress_node intro: progress_trans)

lemma wellFormed_nodes:
  assumes "node_steps S A s s'" "wellFormed s"
  shows "wellFormed s'"
  using assms by (induction rule: rtranclp_induct) (auto dest: wellFormed_node)

lemma locked_nodes:
  assumes "node_steps S A s s'" "wellFormed s" "locked s v"
  shows "locked s' v"
  using assms(1,3) wellFormed_nodes [OF _ assms(2)]
  by (induction rule: rtranclp_induct) (auto dest: locked_node)

lemma notifyInv_nodes:
  assumes "node_steps S A s s'" "wellFormed s" "notifyInv s"
  shows "notifyInv s'"
  using assms(1,3) wellFormed_nodes [OF _ assms(2)]
  by (induction rule: rtranclp_induct) (auto dest: notifyInv_node)

lemma supersedes_nodes:
  assumes "node_steps S A s s'" "latestInv s"
  shows "latestInv s' \<and> supersedes (mLatestEnvelopes s) (mLatestEnvelopes s')"
  using assms
  by (induction rule: rtranclp_induct)
    (auto dest: latestInv_node supersedes_node intro: supersedes_trans)

end
