(* ===== verification/SCP.thy ===== *)
theory SCP
  imports Nomination "HOL-Library.While_Combinator"
begin

text \<open>
  The slot as its clients see it (\<^verbatim>\<open>scp/Slot.cpp\<close>): envelopes are dispatched to the two protocols; and
  the SCP object of a node (\<^verbatim>\<open>scp/SCP.cpp\<close>), a map from slot indices to slots, together with the local
  node whose quorum set it holds (\<^verbatim>\<open>scp/LocalNode.cpp\<close>).

  A result is \<open>None\<close> where the code does not return (see \<open>nom_processEnvelope\<close>).
\<close>

section \<open>The slot\<close>

definition slot_processEnvelope ::
  "SCPContext \<Rightarrow> SCPEnvelope \<Rightarrow> bool \<Rightarrow> Slot \<Rightarrow> (scp_error + (EnvelopeState \<times> Slot)) option" where
  "slot_processEnvelope S env self s =
     (if slotIndex (statement env) \<noteq> mSlotIndex s then Some (Inl DbgAbort)
      else if isNominate (pledges (statement env)) then nom_processEnvelope S env s
      else Some (processEnvelope S self env s))"

definition slot_abandonBallot :: "SCPContext \<Rightarrow> Slot \<Rightarrow> scp_error + (bool \<times> Slot)" where
  "slot_abandonBallot S s = abandonBallot S 0 s"

definition slot_bumpState :: "SCPContext \<Rightarrow> Value \<Rightarrow> bool \<Rightarrow> Slot \<Rightarrow> scp_error + (bool \<times> Slot)" where
  "slot_bumpState S v force s = bumpState S v force s"

definition slot_nominate ::
  "SCPContext \<Rightarrow> Value \<Rightarrow> Value \<Rightarrow> bool \<Rightarrow> Slot \<Rightarrow> (scp_error + (bool \<times> Slot)) option" where
  "slot_nominate S val previousValue timedout s = nom_nominate S val previousValue timedout s"

text \<open>A timer of the slot fires: the callback the slot registered.\<close>

definition slot_timer :: "SCPContext \<Rightarrow> TimerCallback \<Rightarrow> Slot \<Rightarrow> (scp_error + Slot) option" where
  "slot_timer S cb s =
     (case cb of
        BallotProtocolTimerExpired \<Rightarrow> Some (ballotProtocolTimerExpired S s)
      | NominateTimeout val previousValue \<Rightarrow>
          map_option (\<lambda>r. bindR r (\<lambda>(_, s1). Inr s1)) (slot_nominate S val previousValue True s))"

definition slot_getLatestMessagesSend :: "Slot \<Rightarrow> SCPEnvelope list" where
  "slot_getLatestMessagesSend s =
     (if mFullyValidated s
      then (case mNominationLastEnvelope s of Some e \<Rightarrow> [e] | None \<Rightarrow> []) @
           (case mLastEnvelopeEmit s of Some (_, e) \<Rightarrow> [e] | None \<Rightarrow> [])
      else [])"

definition slot_setStateFromEnvelope :: "SCPContext \<Rightarrow> SCPEnvelope \<Rightarrow> Slot \<Rightarrow> scp_error + Slot" where
  "slot_setStateFromEnvelope S e s =
     (if nodeID (statement e) = localNodeID S \<and> slotIndex (statement e) = mSlotIndex s
      then if isNominate (pledges (statement e)) then nom_setStateFromEnvelope e s
           else setStateFromEnvelope e s
      else Inr s)"

definition slot_getCurrentState :: "SCPContext \<Rightarrow> Slot \<Rightarrow> SCPEnvelope list" where
  "slot_getCurrentState S s = nom_getCurrentState S s @ getCurrentState S s"

definition slot_getEntireCurrentState :: "SCPContext \<Rightarrow> Slot \<Rightarrow> SCPEnvelope list \<times> Slot" where
  "slot_getEntireCurrentState S s =
     (let old = mFullyValidated s;
          s1 = s\<lparr>mFullyValidated := True\<rparr>;
          r = slot_getCurrentState S s1
      in (r, s1\<lparr>mFullyValidated := old\<rparr>))"

definition slot_getExternalizingState :: "SCPContext \<Rightarrow> Slot \<Rightarrow> scp_error + SCPEnvelope list" where
  "slot_getExternalizingState S s = getExternalizingState S s"

definition slot_getStatementCount :: "Slot \<Rightarrow> nat" where
  "slot_getStatementCount s = length (mStatementsHistory s)"

definition getStatementValues :: "SCPStatement \<Rightarrow> Value list" where
  "getStatementValues st =
     (if isNominate (pledges st) then applyAll (pledges st)
      else [bvalue (getWorkingBallot (pledges st))])"

section \<open>The transitive quorum\<close>

datatype TriBool = TB_TRUE | TB_FALSE | TB_MAYBE

text \<open>The search keeps its work in unordered sets; which element \<^verbatim>\<open>begin()\<close> of such a set gives is not
  specified, and is the parameter \<open>pick\<close>.\<close>

record QuorumSearch =
  backlog :: "NodeID list"
  visited :: "NodeID list"
  searchResult :: TriBool
  foundNode :: bool

type_synonym StatementMap = "(NodeID \<times> SCPStatement list) list"

definition exploreStatement ::
  "(SCPStatement \<Rightarrow> SCPQuorumSet option) \<Rightarrow> SCPStatement \<Rightarrow> QuorumSearch \<Rightarrow> QuorumSearch" where
  "exploreStatement qfun st q =
     (case qfun st of
        None \<Rightarrow> q\<lparr>searchResult := TB_MAYBE\<rparr>
      | Some qset \<Rightarrow> q\<lparr>backlog :=
          set_insert_all (filter (\<lambda>n. n \<notin> set (visited q)) (forAllNodes qset)) (backlog q)\<rparr>)"

definition searchStep ::
  "(NodeID list \<Rightarrow> NodeID) \<Rightarrow> NodeID \<Rightarrow> (SCPStatement \<Rightarrow> SCPQuorumSet option) \<Rightarrow> StatementMap \<Rightarrow>
   QuorumSearch \<Rightarrow> QuorumSearch" where
  "searchStep pick node qfun m q =
     (let c = pick (backlog q) in
      if c = node then q\<lparr>foundNode := True\<rparr>
      else let q1 = q\<lparr>backlog := remove1 c (backlog q), visited := set_insert c (visited q)\<rparr> in
        case map_of m c of
          None \<Rightarrow> q1\<lparr>searchResult := TB_MAYBE\<rparr>
        | Some sts \<Rightarrow> fold (exploreStatement qfun) sts q1)"

definition ln_isNodeInQuorum ::
  "(NodeID list \<Rightarrow> NodeID) \<Rightarrow> NodeID \<Rightarrow> NodeID \<Rightarrow> (SCPStatement \<Rightarrow> SCPQuorumSet option) \<Rightarrow> StatementMap \<Rightarrow>
   TriBool option" where
  "ln_isNodeInQuorum pick mNodeID node qfun m =
     map_option (\<lambda>q. if foundNode q then TB_TRUE else searchResult q)
       (while_option (\<lambda>q. backlog q \<noteq> [] \<and> \<not> foundNode q) (searchStep pick node qfun m)
          \<lparr>backlog = [mNodeID], visited = [], searchResult = TB_FALSE, foundNode = False\<rparr>)"

text \<open>The map from nodes to all the statements recorded of them.\<close>

definition addStatement :: "SCPStatement \<Rightarrow> StatementMap \<Rightarrow> StatementMap" where
  "addStatement st m =
     map_put (nodeID st) ((case map_of m (nodeID st) of Some l \<Rightarrow> l | None \<Rightarrow> []) @ [st]) m"

definition statementsByNode :: "Slot \<Rightarrow> StatementMap" where
  "statementsByNode s = fold (\<lambda>h. addStatement (fst h)) (mStatementsHistory s) []"

definition slot_isNodeInQuorum ::
  "(NodeID list \<Rightarrow> NodeID) \<Rightarrow> SCPContext \<Rightarrow> NodeID \<Rightarrow> Slot \<Rightarrow> TriBool option" where
  "slot_isNodeInQuorum pick S node s =
     ln_isNodeInQuorum pick (localNodeID S) node
       (\<lambda>st. getQSet S (getCompanionQuorumSetHashFromStatement (pledges st))) (statementsByNode s)"

section \<open>The SCP object\<close>

text \<open>The SHA-256 hash of a quorum set is the parameter \<open>qsetHash\<close>.\<close>

record SCP =
  mContext :: SCPContext
  mKnownSlots :: "(u64 \<times> Slot) list"

definition newLocalNode ::
  "(SCPQuorumSet \<Rightarrow> Hash) \<Rightarrow> NodeID \<Rightarrow> bool \<Rightarrow> SCPQuorumSet \<Rightarrow> SCPContext \<Rightarrow> SCPContext" where
  "newLocalNode qsetHash n isValidator qSet driver =
     (let mQSet = normalizeQSet qSet None
      in driver\<lparr>localNodeID := n, localIsValidator := isValidator, localQSet := mQSet,
                localQSetHash := qsetHash mQSet\<rparr>)"

definition newSCP ::
  "(SCPQuorumSet \<Rightarrow> Hash) \<Rightarrow> SCPContext \<Rightarrow> NodeID \<Rightarrow> bool \<Rightarrow> SCPQuorumSet \<Rightarrow> SCP" where
  "newSCP qsetHash driver n isValidator qSetLocal =
     \<lparr>mContext = newLocalNode qsetHash n isValidator qSetLocal driver, mKnownSlots = []\<rparr>"

definition getSlot :: "u64 \<Rightarrow> bool \<Rightarrow> SCP \<Rightarrow> Slot option \<times> SCP" where
  "getSlot i create scp =
     (case map_of (mKnownSlots scp) i of
        None \<Rightarrow>
          if create
          then let res = newSlot (mContext scp) i
               in (Some res, scp\<lparr>mKnownSlots := map_put i res (mKnownSlots scp)\<rparr>)
          else (None, scp)
      | Some res \<Rightarrow> (Some res, scp))"

text \<open>A slot is a shared object: an operation on it changes the entry of the map.\<close>

definition putSlot :: "u64 \<Rightarrow> Slot \<Rightarrow> SCP \<Rightarrow> SCP" where
  "putSlot i s scp = scp\<lparr>mKnownSlots := map_put i s (mKnownSlots scp)\<rparr>"

definition onSlot ::
  "u64 \<Rightarrow> (SCPContext \<Rightarrow> Slot \<Rightarrow> (scp_error + ('a \<times> Slot)) option) \<Rightarrow> SCP \<Rightarrow> (scp_error + ('a \<times> SCP)) option" where
  "onSlot i f scp =
     (case getSlot i True scp of
        (Some s, scp1) \<Rightarrow>
          map_option (\<lambda>r. bindR r (\<lambda>(x, s1). Inr (x, putSlot i s1 scp1))) (f (mContext scp1) s)
      | (None, scp1) \<Rightarrow> Some (Inl NullDeref))"

definition receiveEnvelope :: "SCPEnvelope \<Rightarrow> SCP \<Rightarrow> (scp_error + (EnvelopeState \<times> SCP)) option" where
  "receiveEnvelope env scp =
     (if \<not> verifyEnvelope (mContext scp) env then Some (Inr (INVALID, scp))
      else onSlot (slotIndex (statement env)) (\<lambda>S. slot_processEnvelope S env False) scp)"

definition nominate :: "u64 \<Rightarrow> Value \<Rightarrow> Value \<Rightarrow> SCP \<Rightarrow> (scp_error + (bool \<times> SCP)) option" where
  "nominate i val previousValue scp =
     (if \<not> localIsValidator (mContext scp) then Some (Inl DbgAbort)
      else onSlot i (\<lambda>S. slot_nominate S val previousValue False) scp)"

definition scp_stopNomination :: "u64 \<Rightarrow> SCP \<Rightarrow> SCP" where
  "scp_stopNomination i scp =
     (case getSlot i False scp of
        (Some s, scp1) \<Rightarrow> putSlot i (stopNomination s) scp1
      | (None, scp1) \<Rightarrow> scp1)"

definition updateLocalQuorumSet :: "(SCPQuorumSet \<Rightarrow> Hash) \<Rightarrow> SCPQuorumSet \<Rightarrow> SCP \<Rightarrow> SCP" where
  "updateLocalQuorumSet qsetHash qSet scp =
     scp\<lparr>mContext := (mContext scp)\<lparr>localQSetHash := qsetHash qSet, localQSet := qSet\<rparr>\<rparr>"

fun purgeLoop :: "u64 \<Rightarrow> (u64 \<times> Slot) list \<Rightarrow> (u64 \<times> Slot) list" where
  "purgeLoop maxSlotIndex [] = []"
| "purgeLoop maxSlotIndex ((i, s) # m) =
     (if i < maxSlotIndex then purgeLoop maxSlotIndex m else (i, s) # purgeLoop maxSlotIndex m)"

definition purgeSlots :: "u64 \<Rightarrow> SCP \<Rightarrow> SCP" where
  "purgeSlots maxSlotIndex scp = scp\<lparr>mKnownSlots := purgeLoop maxSlotIndex (mKnownSlots scp)\<rparr>"

definition isSlotFullyValidated :: "u64 \<Rightarrow> SCP \<Rightarrow> bool" where
  "isSlotFullyValidated i scp =
     (case fst (getSlot i False scp) of Some s \<Rightarrow> mFullyValidated s | None \<Rightarrow> False)"

definition getKnownSlotsCount :: "SCP \<Rightarrow> nat" where
  "getKnownSlotsCount scp = length (mKnownSlots scp)"

definition getCumulativeStatemtCount :: "SCP \<Rightarrow> nat" where
  "getCumulativeStatemtCount scp =
     fold (\<lambda>(i, s) c. c + slot_getStatementCount s) (mKnownSlots scp) 0"

definition getLatestMessagesSend :: "u64 \<Rightarrow> SCP \<Rightarrow> SCPEnvelope list" where
  "getLatestMessagesSend i scp =
     (case fst (getSlot i False scp) of Some s \<Rightarrow> slot_getLatestMessagesSend s | None \<Rightarrow> [])"

definition scp_setStateFromEnvelope :: "u64 \<Rightarrow> SCPEnvelope \<Rightarrow> SCP \<Rightarrow> (scp_error + (unit \<times> SCP)) option" where
  "scp_setStateFromEnvelope i e scp =
     (if verifyEnvelope (mContext scp) e
      then onSlot i (\<lambda>S s. Some (bindR (slot_setStateFromEnvelope S e s) (\<lambda>s1. Inr ((), s1)))) scp
      else Some (Inr ((), scp)))"

definition scp_empty :: "SCP \<Rightarrow> bool" where
  "scp_empty scp \<longleftrightarrow> mKnownSlots scp = []"

definition getLowSlotIndex :: "SCP \<Rightarrow> scp_error + u64" where
  "getLowSlotIndex scp = bindR (dbgAssert (\<not> scp_empty scp)) (\<lambda>_. Inr (fst (hd (mKnownSlots scp))))"

definition getHighSlotIndex :: "SCP \<Rightarrow> scp_error + u64" where
  "getHighSlotIndex scp = bindR (dbgAssert (\<not> scp_empty scp)) (\<lambda>_. Inr (fst (last (mKnownSlots scp))))"

definition scp_getCurrentState :: "u64 \<Rightarrow> SCP \<Rightarrow> SCPEnvelope list" where
  "scp_getCurrentState i scp =
     (case fst (getSlot i False scp) of
        Some s \<Rightarrow> slot_getCurrentState (mContext scp) s | None \<Rightarrow> [])"

definition scp_getExternalizingState :: "u64 \<Rightarrow> SCP \<Rightarrow> scp_error + SCPEnvelope list" where
  "scp_getExternalizingState i scp =
     (case fst (getSlot i False scp) of
        Some s \<Rightarrow> slot_getExternalizingState (mContext scp) s | None \<Rightarrow> Inr [])"

text \<open>The most recent slot that knows decides.\<close>

fun inQuorumLoop :: "(Slot \<Rightarrow> TriBool option) \<Rightarrow> (u64 \<times> Slot) list \<Rightarrow> TriBool \<Rightarrow> TriBool option" where
  "inQuorumLoop f [] res = Some res"
| "inQuorumLoop f ((i, s) # m) res =
     Option.bind (f s) (\<lambda>r. if r = TB_TRUE \<or> r = TB_FALSE then Some r else inQuorumLoop f m r)"

definition scp_isNodeInQuorum :: "(NodeID list \<Rightarrow> NodeID) \<Rightarrow> NodeID \<Rightarrow> SCP \<Rightarrow> TriBool option" where
  "scp_isNodeInQuorum pick node scp =
     inQuorumLoop (slot_isNodeInQuorum pick (mContext scp) node) (rev (mKnownSlots scp)) TB_MAYBE"

end
