(* ===== verification/NominationRuns.thy ===== *)
theory NominationRuns
  imports NodeSteps BallotRuns SCP
begin

text \<open>
  What the nomination protocol does to a slot: it is a sequence of steps of the machine, the sets of
  votes, accepted values and candidates only grow, and the node's own nominations are always newer
  than the ones it made before.
\<close>

section \<open>Orders of nominations\<close>

lemma ascending_iff: "ascending xs \<longleftrightarrow> set_invar xs"
  unfolding set_invar_def by (induction xs rule: ascending.induct) (auto elim: order.strict_trans)

lemma std_includes_iff: "sorted v \<Longrightarrow> distinct v \<Longrightarrow> sorted p \<Longrightarrow> distinct p \<Longrightarrow> std_includes v p \<longleftrightarrow> set p \<subseteq> set v"
  by (induction v p rule: std_includes.induct) (auto simp: order_less_le)

lemma isSubsetHelper_iff:
  assumes "set_invar p" "set_invar v"
  shows "isSubsetHelper p v = (set p \<subseteq> set v, \<not> set p \<subseteq> set v \<or> set p \<noteq> set v)"
proof -
  have dist: "distinct p" "distinct v" and inc: "std_includes v p \<longleftrightarrow> set p \<subseteq> set v"
    using assms by (simp_all add: set_invar_iff std_includes_iff)
  have len: "length p = card (set p)" "length v = card (set v)" using dist by (simp_all add: distinct_card)
  have "set p \<subseteq> set v \<Longrightarrow> length p \<le> length v" "set p \<subseteq> set v \<Longrightarrow> length p = length v \<longleftrightarrow> set p = set v"
    unfolding len using card_subset_eq [of "set v" "set p"] card_mono [of "set v" "set p"] by auto
  then show ?thesis by (auto simp: isSubsetHelper_def inc Let_def)
qed

definition nomLess :: "SCPPledges \<Rightarrow> SCPPledges \<Rightarrow> bool" where
  "nomLess a b \<longleftrightarrow>
     set (nomVotes a) \<subseteq> set (nomVotes b) \<and> set (nomAccepted a) \<subseteq> set (nomAccepted b) \<and>
     (set (nomVotes a) \<noteq> set (nomVotes b) \<or> set (nomAccepted a) \<noteq> set (nomAccepted b))"

definition nomSorted :: "SCPPledges \<Rightarrow> bool" where
  "nomSorted pl \<longleftrightarrow> set_invar (nomVotes pl) \<and> set_invar (nomAccepted pl)"

lemma nom_isNewerStatement_iff:
  "nomSorted a \<Longrightarrow> nomSorted b \<Longrightarrow> nom_isNewerStatement a b \<longleftrightarrow> nomLess a b"
  by (auto simp: nom_isNewerStatement_def nomLess_def nomSorted_def isSubsetHelper_iff)

lemma nom_isSane_iff:
  "nom_isSane st \<longleftrightarrow> nomSorted (pledges st) \<and> set (applyAll (pledges st)) \<noteq> {}"
  by (auto simp: nom_isSane_def nomSorted_def ascending_iff applyAll_def)

section \<open>Frame of the ballot protocol\<close>

text \<open>The members of the nomination protocol that the ballot protocol never writes.\<close>

definition nominationView :: "Slot \<Rightarrow> Value list \<times> Value list \<times> Value list \<times> EnvMap \<times> SCPEnvelope option" where
  "nominationView s =
     (mVotes s, mAccepted s, mCandidates s, mLatestNominations s, mNominationLastEnvelope s)"

lemma nominationView_step:
  assumes "slot_step S A s s'"
  shows "nominationView s' = nominationView s \<and> mSlotIndex s' = mSlotIndex s"
  using assms
proof (cases rule: slot_step.cases)
  case (accept_prepared bal w s1 c)
  obtain p pp where "s1 = s\<lparr>mPrepared := Some p, mPreparedPrime := pp\<rparr>"
    using accept_prepared(4) by (rule setPrepared_fields)
  then show ?thesis by (simp add: accept_prepared(6) nominationView_def slot_update)
qed (simp_all add: nominationView_def slot_update)

lemma nominationView_steps:
  assumes "slot_steps S A s s'"
  shows "nominationView s' = nominationView s \<and> mSlotIndex s' = mSlotIndex s"
  using assms by (induction rule: rtranclp_induct) (auto dest: nominationView_step)

lemma bumpState_frame:
  assumes "bumpState S v force s = Inr (w, s')" "ready s"
  shows "nominationView s' = nominationView s" "mSlotIndex s' = mSlotIndex s"
  using nominationView_steps bumpState_good [OF assms, of "{}"] by (auto simp: goodRun_def)

section \<open>Runs of a node\<close>

definition nodeRun :: "SCPContext \<Rightarrow> SCPEnvelope set \<Rightarrow> Slot \<Rightarrow> Slot \<Rightarrow> bool" where
  "nodeRun S A s s' \<longleftrightarrow> node_steps S A s s' \<and> mCurrentMessageLevel s' = mCurrentMessageLevel s \<and>
     (notified s \<longrightarrow> notified s')"

lemma nodeRun_refl [simp]: "nodeRun S A s s"
  by (simp add: nodeRun_def)

lemma nodeRun_trans: "nodeRun S A s t \<Longrightarrow> nodeRun S A t u \<Longrightarrow> nodeRun S A s u"
  by (auto simp: nodeRun_def)

lemma nodeRun_good: "goodRun S A s s' \<Longrightarrow> nodeRun S A s s'"
  by (auto simp: goodRun_def nodeRun_def slot_steps_node)

lemma nodeRun_nom:
  assumes "nomRun s s'"
  shows "nodeRun S A s s'"
proof -
  have "notified s \<Longrightarrow> notified s'" by (simp add: notified_def nomRun_fields [OF assms] nomRun_logs [OF assms])
  then show ?thesis
    using node_step.nomination_step [OF assms] by (auto simp: nodeRun_def nomRun_fields [OF assms])
qed

lemma nodeRun_ready: "nodeRun S A s s' \<Longrightarrow> ready s \<Longrightarrow> ready s'"
  by (auto simp: nodeRun_def ready_def intro: wellFormed_nodes notifyInv_nodes)

section \<open>Induction on the recursion\<close>

text \<open>One level of \<open>nom_processEnvelope\<close>, over an arbitrary processing of the node's own nomination: the
  five ways it can end.\<close>

definition nomLevel ::
  "(SCPContext \<Rightarrow> SCPEnvelope \<Rightarrow> Slot \<Rightarrow> (scp_error + (EnvelopeState \<times> Slot)) option) \<Rightarrow>
   SCPContext \<Rightarrow> SCPEnvelope \<Rightarrow> Slot \<Rightarrow> (scp_error + (EnvelopeState \<times> Slot)) option" where
  "nomLevel f S env s =
     (if \<not> nom_isNewerStatementNode (nodeID (statement env)) (pledges (statement env)) s
      then Some (Inr (INVALID, s))
      else if \<not> nom_isSane (statement env) then Some (Inr (INVALID, s))
      else let s1 = nom_recordEnvelope env s in
        if \<not> mNominationStarted s1 then Some (Inr (VALID, s1))
        else case nom_update S (statement env) s1 of
            Inl e \<Rightarrow> Some (Inl e)
          | Inr (modified, newCandidates, s2) \<Rightarrow>
              if modified
              then let own = nominationEnvelope S s2 in
                Option.bind (f S own s2) (\<lambda>processed.
                Some (bindR (finishNomination own processed) (nom_newCandidates S newCandidates)))
              else Some (nom_newCandidates S newCandidates s2))"

lemma nomLevel_unfold: "nom_processEnvelope S env s = nomLevel nom_processEnvelope S env s"
  unfolding nomLevel_def by (rule nom_processEnvelope.simps)

lemma nom_processEnvelope_induct:
  assumes "nom_processEnvelope S env s = Some res"
    and "\<And>f S env s res. (\<And>S env s res. f S env s = Some res \<Longrightarrow> P S env s res) \<Longrightarrow>
      nomLevel f S env s = Some res \<Longrightarrow> P S env s res"
  shows "P S env s res"
  using nom_processEnvelope.raw_induct [OF _ assms(1), of P] assms(2) unfolding nomLevel_def by blast

definition newAndSane :: "SCPEnvelope \<Rightarrow> Slot \<Rightarrow> bool" where
  "newAndSane env s \<longleftrightarrow> nom_isSane (statement env) \<and>
     nom_isNewerStatementNode (nodeID (statement env)) (pledges (statement env)) s"

lemma nomLevel_cases:
  assumes "nomLevel f S env s = Some res"
  obtains (invalid) "\<not> newAndSane env s" "res = Inr (INVALID, s)"
  | (idle) "newAndSane env s" "res = Inr (VALID, nom_recordEnvelope env s)"
  | (error) e where "newAndSane env s" "nom_update S (statement env) (nom_recordEnvelope env s) = Inl e" "res = Inl e"
  | (quiet) n s2 where "newAndSane env s"
      "nom_update S (statement env) (nom_recordEnvelope env s) = Inr (False, n, s2)" "res = nom_newCandidates S n s2"
  | (emit) n s2 p where "newAndSane env s"
      "nom_update S (statement env) (nom_recordEnvelope env s) = Inr (True, n, s2)"
      "f S (nominationEnvelope S s2) s2 = Some p"
      "res = bindR (finishNomination (nominationEnvelope S s2) p) (nom_newCandidates S n)"
proof (cases "newAndSane env s \<and> mNominationStarted (nom_recordEnvelope env s)")
  case False
  then show ?thesis
    using assms that(1,2) by (auto simp: nomLevel_def newAndSane_def Let_def split: if_splits)
next
  case True
  then show ?thesis
    using assms that(3-5) by (auto simp: nomLevel_def newAndSane_def Let_def split: sum.splits if_splits bind_splits)
qed

section \<open>Relations that every part of the protocol respects\<close>

text \<open>A relation between slots that holds across every part of the processing of a nomination holds
  across the whole of it, however often the node processes nominations of its own.\<close>

locale nomination_relation =
  fixes S :: SCPContext and I :: "Slot \<Rightarrow> bool" and R :: "Slot \<Rightarrow> Slot \<Rightarrow> bool"
    and E :: "Slot \<Rightarrow> SCPEnvelope \<Rightarrow> bool" and Own :: "Slot \<Rightarrow> SCPEnvelope \<Rightarrow> bool"
  assumes R_trans: "I s \<Longrightarrow> R s t \<Longrightarrow> R t u \<Longrightarrow> R s u"
    and R_refl: "I s \<Longrightarrow> R s s"
    and R_keeps: "I s \<Longrightarrow> R s t \<Longrightarrow> I t"
    and Own_keeps: "I s \<Longrightarrow> R s t \<Longrightarrow> Own s env \<Longrightarrow> Own t env"
    and own_nomination: "I s \<Longrightarrow> Own s (nominationEnvelope S s)"
    and own_acceptable: "Own s env \<Longrightarrow> E s env"
    and R_record: "I s \<Longrightarrow> E s env \<Longrightarrow> nom_isSane (statement env) \<Longrightarrow>
      nom_isNewerStatementNode (nodeID (statement env)) (pledges (statement env)) s \<Longrightarrow>
      R s (nom_recordEnvelope env s)"
    and R_update: "I s \<Longrightarrow> nom_update S st s = Inr (modified, newCandidates, s') \<Longrightarrow> R s s'"
    and R_finish: "I s \<Longrightarrow> Own s env \<Longrightarrow> finishNomination env (Inr (r, s)) = Inr s' \<Longrightarrow> R s s'"
    and R_candidates: "I s \<Longrightarrow> nom_newCandidates S newCandidates s = Inr (r, s') \<Longrightarrow> R s s'"
begin

lemma modified_rel:
  assumes up: "nom_update S st s1 = Inr (modified, newC, s2)" and i1: "I s1"
    and own: "\<And>r3 s3. p = Inr (r3, s3) \<Longrightarrow> I s2 \<Longrightarrow> E s2 (nominationEnvelope S s2) \<Longrightarrow> R s2 s3"
    and res: "bindR (finishNomination (nominationEnvelope S s2) p) (nom_newCandidates S newC) = Inr (r, s')"
  shows "R s1 s'"
proof -
  note r2 = R_update [OF i1 up]
  note i2 = R_keeps [OF i1 r2]
  note env = own_nomination [OF i2]
  obtain s4 where s4: "finishNomination (nominationEnvelope S s2) p = Inr s4" "nom_newCandidates S newC s4 = Inr (r, s')"
    using res by auto
  obtain r3 s3 where p: "p = Inr (r3, s3)" using s4(1) by (auto simp: finishNomination_def)
  note r3 = own [OF p i2 own_acceptable [OF env]]
  note i3 = R_keeps [OF i2 r3]
  have r4: "R s3 s4" using s4(1) unfolding p by (rule R_finish [OF i3 Own_keeps [OF i2 r3 env]])
  have "R s4 s'" using s4(2) by (rule R_candidates [OF R_keeps [OF i3 r4]])
  then show ?thesis using R_trans i1 i2 i3 r2 r3 r4 by blast
qed

lemma process_rel:
  assumes "nom_processEnvelope S env s = Some res"
  shows "res = Inr (r, s') \<Longrightarrow> I s \<Longrightarrow> E s env \<Longrightarrow> R s s'"
proof -
  let ?P = "\<lambda>S' env s res. S' = S \<longrightarrow> (\<forall>r s'. res = Inr (r, s') \<longrightarrow> I s \<longrightarrow> E s env \<longrightarrow> R s s')"
  have "?P S env s res"
    using assms
  proof (rule nom_processEnvelope_induct [where P = ?P], intro impI allI)
    fix f S' env s res r s'
    assume IH: "\<And>S' env s res. f S' env s = Some res \<Longrightarrow> ?P S' env s res"
      and level: "nomLevel f S' env s = Some res"
      and S': "S' = S" and res: "res = Inr (r, s')" and s: "I s" and env: "E s env"
    have r1: "R s (nom_recordEnvelope env s)" if "newAndSane env s"
      using that R_record [OF s env] by (simp add: newAndSane_def)
    have i1: "I (nom_recordEnvelope env s)" if "newAndSane env s" by (rule R_keeps [OF s r1 [OF that]])
    from level show "R s s'"
      unfolding S' res
    proof (cases rule: nomLevel_cases)
      case invalid
      then show ?thesis using R_refl [OF s] by simp
    next
      case idle
      then show ?thesis using r1 by simp
    next
      case (quiet n s2)
      note r2 = R_update [OF i1 [OF quiet(1)] quiet(2)]
      have "R s2 s'" by (rule R_candidates [OF R_keeps [OF i1 [OF quiet(1)] r2] quiet(3) [symmetric]])
      then show ?thesis using R_trans s r1 [OF quiet(1)] i1 [OF quiet(1)] r2 by blast
    next
      case (emit n s2 p)
      have "R (nom_recordEnvelope env s) s'"
        by (rule modified_rel [OF emit(2) i1 [OF emit(1)] _ emit(4) [symmetric]])
          (use IH [OF emit(3)] in blast)
      then show ?thesis by (rule R_trans [OF s r1 [OF emit(1)]])
    qed simp
  qed
  then show "res = Inr (r, s') \<Longrightarrow> I s \<Longrightarrow> E s env \<Longrightarrow> R s s'" by blast
qed

lemma emit_rel:
  assumes "emitNomination S s = Some (Inr s')" "I s"
  shows "R s s'"
proof -
  let ?own = "nominationEnvelope S s"
  obtain p where p: "nom_processEnvelope S ?own s = Some p" "finishNomination ?own p = Inr s'"
    using assms(1) by (auto simp: emitNomination_def Let_def)
  obtain r s1 where pr: "p = Inr (r, s1)" using p(2) by (auto simp: finishNomination_def)
  have own: "Own s ?own" by (rule own_nomination [OF assms(2)])
  have r1: "R s s1" by (rule process_rel [OF p(1) pr assms(2) own_acceptable [OF own]])
  have "R s1 s'" using p(2) unfolding pr by (rule R_finish [OF R_keeps [OF assms(2) r1] Own_keeps [OF assms(2) r1 own]])
  then show ?thesis by (rule R_trans [OF assms(2) r1])
qed

end

section \<open>The invariant of the protocol\<close>

definition nomInv :: "SCPContext \<Rightarrow> Slot \<Rightarrow> bool" where
  "nomInv S s \<longleftrightarrow>
     set_invar (mVotes s) \<and> set_invar (mAccepted s) \<and> set_invar (mCandidates s) \<and>
     set (mCandidates s) \<subseteq> set (mAccepted s) \<and> set (mAccepted s) \<subseteq> set (mVotes s) \<and>
     (\<forall>a \<in> set (mAccepted s). nom_validateValue S a s = kFullyValidatedValue) \<and>
     map_invar (mLatestNominations s) \<and>
     (\<forall>n e. map_of (mLatestNominations s) n = Some e \<longrightarrow>
        nodeID (statement e) = n \<and> isNomination (statement e) \<and> nom_isSane (statement e))"

definition nomGrows :: "Slot \<Rightarrow> Slot \<Rightarrow> bool" where
  "nomGrows s s' \<longleftrightarrow> set (mVotes s) \<subseteq> set (mVotes s') \<and> set (mAccepted s) \<subseteq> set (mAccepted s') \<and>
     set (mCandidates s) \<subseteq> set (mCandidates s')"

text \<open>The node's own nominations: all that it recorded or sent is covered by its present votes, and
  each nomination it sent is larger than the one before.\<close>

definition belowSlot :: "Slot \<Rightarrow> SCPEnvelope \<Rightarrow> bool" where
  "belowSlot s e \<longleftrightarrow> set (nomVotes (pledges (statement e))) \<subseteq> set (mVotes s) \<and>
     set (nomAccepted (pledges (statement e))) \<subseteq> set (mAccepted s)"

definition ownNomination :: "SCPContext \<Rightarrow> Slot \<Rightarrow> SCPEnvelope \<Rightarrow> bool" where
  "ownNomination S s e \<longleftrightarrow> isNomination (statement e) \<and> nodeID (statement e) = localNodeID S \<and>
     nomSorted (pledges (statement e)) \<and> belowSlot s e"

fun nominationIn :: "DriverCall \<Rightarrow> SCPEnvelope list" where
  "nominationIn (EmitEnvelope e) = (if isNomination (statement e) then [e] else [])"
| "nominationIn _ = []"

definition emittedNominations :: "Slot \<Rightarrow> SCPEnvelope list" where
  "emittedNominations s = concat (map nominationIn (mDriverCalls s))"

definition upToLast :: "Slot \<Rightarrow> SCPEnvelope \<Rightarrow> bool" where
  "upToLast s x \<longleftrightarrow> (\<exists>e. mNominationLastEnvelope s = Some e \<and>
     (x = e \<or> nomLess (pledges (statement x)) (pledges (statement e))))"

definition nomOwn :: "SCPContext \<Rightarrow> Slot \<Rightarrow> bool" where
  "nomOwn S s \<longleftrightarrow>
     (\<forall>e. map_of (mLatestNominations s) (localNodeID S) = Some e \<longrightarrow> belowSlot s e) \<and>
     (\<forall>e. mNominationLastEnvelope s = Some e \<longrightarrow> ownNomination S s e) \<and>
     sorted_wrt (\<lambda>a b. nomLess (pledges (statement a)) (pledges (statement b))) (emittedNominations s) \<and>
     (\<forall>x \<in> set (emittedNominations s). ownNomination S s x \<and> upToLast s x)"

lemma belowSlot_grows: "belowSlot s e \<Longrightarrow> nomGrows s s' \<Longrightarrow> belowSlot s' e"
  by (auto simp: belowSlot_def nomGrows_def)

lemma ownNomination_grows: "ownNomination S s e \<Longrightarrow> nomGrows s s' \<Longrightarrow> ownNomination S s' e"
  by (auto simp: ownNomination_def intro: belowSlot_grows)

lemma nomOwn_keep:
  assumes "nomOwn S s" "nomGrows s s'" "mLatestNominations s' = mLatestNominations s"
    "mNominationLastEnvelope s' = mNominationLastEnvelope s" "emittedNominations s' = emittedNominations s"
  shows "nomOwn S s'"
  using assms(1) belowSlot_grows [OF _ assms(2)] ownNomination_grows [OF _ assms(2)]
  unfolding nomOwn_def upToLast_def assms(3-5) by blast

text \<open>One change within the protocol.\<close>

definition nomUpdate :: "SCPContext \<Rightarrow> Slot \<Rightarrow> Slot \<Rightarrow> bool" where
  "nomUpdate S s s' \<longleftrightarrow> nomRun s s' \<and> nomGrows s s' \<and> nomInv S s' \<and> nomOwn S s'"

definition nomOk :: "SCPContext \<Rightarrow> Slot \<Rightarrow> bool" where
  "nomOk S s \<longleftrightarrow> nomInv S s \<and> nomOwn S s"

lemma nomOkD:
  assumes "nomOk S s"
  shows "nomInv S s" "map_of (mLatestNominations s) (localNodeID S) = Some e \<Longrightarrow> belowSlot s e"
    "mNominationLastEnvelope s = Some e \<Longrightarrow> ownNomination S s e"
    "sorted_wrt (\<lambda>a b. nomLess (pledges (statement a)) (pledges (statement b))) (emittedNominations s)"
    "x \<in> set (emittedNominations s) \<Longrightarrow> ownNomination S s x"
    "x \<in> set (emittedNominations s) \<Longrightarrow> upToLast s x"
  using assms unfolding nomOk_def nomOwn_def by simp_all

lemma nomUpdate_refl: "nomOk S s \<Longrightarrow> nomUpdate S s s"
  by (simp add: nomUpdate_def nomGrows_def nomOk_def)

lemma nomUpdate_trans: "nomUpdate S s t \<Longrightarrow> nomUpdate S t u \<Longrightarrow> nomUpdate S s u"
  by (auto simp: nomUpdate_def nomGrows_def intro: nomRun_trans)

lemma nomUpdateD: "nomUpdate S s s' \<Longrightarrow> nomOk S s'"
  by (simp add: nomUpdate_def nomOk_def)

lemma quiet_no_nominations: "list_all quiet cs \<Longrightarrow> concat (map nominationIn cs) = []"
  by (induction cs) (auto simp: quiet_def split: DriverCall.splits)

text \<open>A change of the nomination protocol's sets and of what does not matter to the invariant.\<close>

lemma nomUpdateI:
  assumes "nomOk S s" "nomGrows s s'" "nomInv S s'" "ballotView s' = ballotView s"
    "mStatementsHistory s' = mStatementsHistory s" "mDriverCalls s' = mDriverCalls s @ cs" "list_all quiet cs"
    "mLatestNominations s' = mLatestNominations s" "mNominationLastEnvelope s' = mNominationLastEnvelope s"
  shows "nomUpdate S s s'"
proof -
  have emitted: "emittedNominations s' = emittedNominations s"
    using quiet_no_nominations [OF assms(7)] by (simp add: emittedNominations_def assms(6))
  have "nomOwn S s" using assms(1) by (simp add: nomOk_def)
  from nomOwn_keep [OF this assms(2,8,9) emitted] have "nomOwn S s'" .
  moreover have "list_all quietNomination cs"
    using assms(7) by (auto simp: list_all_iff quietNomination_def)
  then have "nomRun s s'" using assms(4-6) by (intro nomRunI [of s' s "[]" cs]) simp_all
  ultimately show ?thesis using assms(2,3) by (simp add: nomUpdate_def)
qed

lemma vote_update:
  assumes "nomOk S s" "list_all quiet cs"
  shows "nomUpdate S s (s\<lparr>mVotes := set_insert x (mVotes s), mDriverCalls := mDriverCalls s @ cs\<rparr>)"
  by (rule nomUpdateI [OF assms(1) _ _ _ _ _ assms(2)])
    (use assms(1) in \<open>auto simp: nomGrows_def nomInv_def nomOk_def nom_validateValue_def ballotView_def\<close>)

lemma call_update:
  assumes "nomOk S s" "list_all quiet cs"
  shows "nomUpdate S s (s\<lparr>mDriverCalls := mDriverCalls s @ cs\<rparr>)"
  by (rule nomUpdateI [OF assms(1) _ _ _ _ _ assms(2)])
    (use assms(1) in \<open>auto simp: nomGrows_def nomInv_def nomOk_def nom_validateValue_def ballotView_def\<close>)

lemmas vote_update_silent = vote_update [where cs = "[]", simplified]

lemma promoteVote_update:
  assumes "nomOk S s" "promoteVote S v (m, s) = (m', s')"
  shows "nomUpdate S s s'"
proof -
  have acc: "nomUpdate S s (s\<lparr>mAccepted := set_insert v (mAccepted s), mVotes := set_insert v (mVotes s)\<rparr>)"
    if "nom_validateValue S v s = kFullyValidatedValue"
    by (rule nomUpdateI [OF assms(1), of _ "[]"])
      (use assms(1) that in \<open>auto simp: nomGrows_def nomInv_def nomOk_def nom_validateValue_def ballotView_def\<close>)
  show ?thesis
    using assms(2) acc vote_update_silent [OF assms(1)] nomUpdate_refl [OF assms(1)]
    by (auto simp: promoteVote_def Let_def split: if_splits)
qed

lemma promoteVotes_update:
  "nomOk S s \<Longrightarrow> fold (promoteVote S) vs (m, s) = (m', s') \<Longrightarrow> nomUpdate S s s'"
proof (induction vs arbitrary: m s)
  case (Cons v vs)
  obtain m1 s1 where 1: "promoteVote S v (m, s) = (m1, s1)" by (cases "promoteVote S v (m, s)")
  have up: "nomUpdate S s s1" by (rule promoteVote_update [OF Cons.prems(1) 1])
  then show ?case
    using Cons.IH [OF nomUpdateD [OF up]] Cons.prems(2) 1 by (auto intro: nomUpdate_trans)
qed (simp add: nomUpdate_refl)

lemma promoteAccepted_update:
  "nomOk S s \<Longrightarrow> set as \<subseteq> set (mAccepted s) \<Longrightarrow> fold (promoteAccepted S) as (m, s) = (m', s') \<Longrightarrow>
   nomUpdate S s s' \<and> mVotes s' = mVotes s \<and> mAccepted s' = mAccepted s"
proof (induction as arbitrary: m s)
  case (Cons a as)
  obtain m1 s1 where 1: "promoteAccepted S a (m, s) = (m1, s1)" by (cases "promoteAccepted S a (m, s)")
  have add: "nomUpdate S s (s\<lparr>mCandidates := set_insert a (mCandidates s)\<rparr>)"
    by (rule nomUpdateI [OF Cons.prems(1), of _ "[]"])
      (use Cons.prems(1,2) in \<open>auto simp: nomGrows_def nomInv_def nomOk_def nom_validateValue_def ballotView_def\<close>)
  have up: "nomUpdate S s s1 \<and> mAccepted s1 = mAccepted s \<and> mVotes s1 = mVotes s"
    using 1 add nomUpdate_refl [OF Cons.prems(1)] by (auto simp: promoteAccepted_def split: if_splits)
  then show ?case
    using Cons.IH [of s1 m1] Cons.prems(2,3) 1 by (auto dest: nomUpdateD intro: nomUpdate_trans)
qed (simp add: nomUpdate_refl)

lemma takeLeaderVote_update:
  assumes "nomOk S s" "takeLeaderVote S st (m, s) = Inr (m', s')"
  shows "nomUpdate S s s'"
  using assms(2) vote_update [OF assms(1)] nomUpdate_refl [OF assms(1)]
  by (auto simp: takeLeaderVote_def slot_update quiet_def split: if_splits)

lemma nom_update_update:
  assumes "nomOk S s" "nom_update S st s = Inr (m, n, s')"
  shows "nomUpdate S s s'"
proof -
  obtain m1 s1 where 1: "fold (promoteVote S) (nomVotes (pledges st)) (False, s) = (m1, s1)" by fastforce
  obtain n1 s2 where 2: "fold (promoteAccepted S) (mAccepted s1) (False, s1) = (n1, s2)" by fastforce
  have 3: "takeLeaderVote S st (m1, s2) = Inr (m, s')"
    using assms(2) by (auto simp: nom_update_def 1 2)
  have up1: "nomUpdate S s s1" by (rule promoteVotes_update [OF assms(1) 1])
  moreover have up2: "nomUpdate S s1 s2"
    using promoteAccepted_update [OF nomUpdateD [OF up1] _ 2] by simp
  moreover have "nomUpdate S s2 s'" by (rule takeLeaderVote_update [OF nomUpdateD [OF up2] 3])
  ultimately show ?thesis by (blast intro: nomUpdate_trans)
qed

text \<open>A nomination that may be recorded: one of another node, or one of the node's own that its votes
  cover.\<close>

definition acceptable :: "SCPContext \<Rightarrow> Slot \<Rightarrow> SCPEnvelope \<Rightarrow> bool" where
  "acceptable S s env \<longleftrightarrow> isNomination (statement env) \<and>
     (nodeID (statement env) = localNodeID S \<longrightarrow> belowSlot s env)"

lemma nom_record_update:
  assumes "nomOk S s" "acceptable S s env" "nom_isSane (statement env)"
  shows "nomUpdate S s (nom_recordEnvelope env s)"
proof -
  have nomination: "isNomination (statement env)" using assms(2) by (simp add: acceptable_def)
  let ?s' = "nom_recordEnvelope env s"
  have "nomRun s ?s'"
    by (rule nomRunI [of _ _ "[(statement env, mFullyValidated s)]" "[]"])
      (simp_all add: nom_recordEnvelope_def slot_update ballotView_def nomination)
  moreover have "nomInv S ?s'"
    using assms nomination
    by (simp add: nomOk_def nomInv_def nom_recordEnvelope_def slot_update nom_validateValue_def map_put_invar
        map_of_map_put)
  moreover have grows: "nomGrows s ?s'" by (simp add: nomGrows_def nom_recordEnvelope_def slot_update)
  moreover have "nomOwn S ?s'"
    using assms(1,2) belowSlot_grows [OF _ grows] ownNomination_grows [OF _ grows]
    by (auto simp: nomOwn_def nomOk_def nomInv_def acceptable_def nom_recordEnvelope_def slot_update
        map_of_map_put emittedNominations_def upToLast_def split: if_splits)
  ultimately show ?thesis by (simp add: nomUpdate_def)
qed

lemma nomLess_trans: "nomLess a b \<Longrightarrow> nomLess b c \<Longrightarrow> nomLess a c"
  by (auto simp: nomLess_def)

text \<open>The node takes an envelope of its own as the last one, and possibly sends it.\<close>

lemma last_update:
  assumes ok: "nomOk S s" and own: "ownNomination S s env"
    and newer: "\<And>e. mNominationLastEnvelope s = Some e \<Longrightarrow> nomLess (pledges (statement e)) (pledges (statement env))"
    and cs: "cs = [] \<or> cs = [EmitEnvelope env]"
  shows "nomUpdate S s (s\<lparr>mNominationLastEnvelope := Some env, mDriverCalls := mDriverCalls s @ cs\<rparr>)"
    (is "nomUpdate S s ?s'")
proof -
  have grows: "nomGrows s ?s'" by (simp add: nomGrows_def)
  have nom: "isNomination (statement env)" using own by (simp add: ownNomination_def)
  have emitted: "emittedNominations ?s' = emittedNominations s @ (if cs = [] then [] else [env])"
    using cs nom by (auto simp: emittedNominations_def)
  have less: "nomLess (pledges (statement x)) (pledges (statement env))"
    if x: "x \<in> set (emittedNominations s)" for x
  proof -
    obtain e where "mNominationLastEnvelope s = Some e" "x = e \<or> nomLess (pledges (statement x)) (pledges (statement e))"
      using nomOkD(6) [OF ok x] by (auto simp: upToLast_def)
    then show ?thesis using newer [of e] nomLess_trans by auto
  qed
  have keep: "ownNomination S ?s' x" if "ownNomination S s x" for x
    by (rule ownNomination_grows [OF that grows])
  have "sorted_wrt (\<lambda>a b. nomLess (pledges (statement a)) (pledges (statement b))) (emittedNominations ?s')"
    using nomOkD(4) [OF ok] less unfolding emitted by (simp add: sorted_wrt_append)
  moreover have "\<forall>x \<in> set (emittedNominations ?s'). ownNomination S ?s' x \<and> upToLast ?s' x"
    using nomOkD(5) [OF ok] less keep own unfolding emitted by (auto simp: upToLast_def)
  moreover have "\<forall>e. map_of (mLatestNominations ?s') (localNodeID S) = Some e \<longrightarrow> belowSlot ?s' e"
    using nomOkD(2) [OF ok] belowSlot_grows [OF _ grows] by auto
  moreover have "\<forall>e. mNominationLastEnvelope ?s' = Some e \<longrightarrow> ownNomination S ?s' e" using keep own by simp
  ultimately have "nomOwn S ?s'" unfolding nomOwn_def by blast
  moreover have "nomInv S ?s'" using ok by (simp add: nomOk_def nomInv_def nom_validateValue_def)
  moreover have "nomRun s ?s'"
    using cs nom by (intro nomRunI [of _ _ "[]" cs]) (auto simp: ballotView_def quietNomination_def)
  ultimately show ?thesis using grows by (simp add: nomUpdate_def)
qed

lemma finish_update:
  assumes "nomOk S s" "ownNomination S s env" "finishNomination env (Inr (r, s)) = Inr s'"
  shows "nomUpdate S s s'"
proof (cases "s' = s")
  case False
  define cs where "cs = (if mFullyValidated s then [EmitEnvelope env] else [])"
  have newer: "nomLess (pledges (statement e)) (pledges (statement env))" if "mNominationLastEnvelope s = Some e" for e
  proof -
    have "nomSorted (pledges (statement e))" "nomSorted (pledges (statement env))"
      using nomOkD(3) [OF assms(1) that] assms(2) by (simp_all add: ownNomination_def)
    then show ?thesis
      using assms(3) False that by (auto simp: finishNomination_def nom_isNewerStatement_iff split: if_splits)
  qed
  have "s' = s\<lparr>mNominationLastEnvelope := Some env, mDriverCalls := mDriverCalls s @ cs\<rparr>"
    using assms(3) False by (auto simp: finishNomination_def slot_update cs_def Let_def split: if_splits)
  then show ?thesis using last_update [OF assms(1,2) newer, of cs] by (auto simp: cs_def)
qed (simp add: nomUpdate_refl [OF assms(1)])

section \<open>Whole runs\<close>

text \<open>What a whole run of the protocol guarantees.\<close>

definition nominationRun :: "SCPContext \<Rightarrow> SCPEnvelope set \<Rightarrow> Slot \<Rightarrow> Slot \<Rightarrow> bool" where
  "nominationRun S A s s' \<longleftrightarrow> nodeRun S A s s' \<and> nomGrows s s' \<and> nomOk S s' \<and> mSlotIndex s' = mSlotIndex s"

definition nomReady :: "SCPContext \<Rightarrow> Slot \<Rightarrow> bool" where
  "nomReady S s \<longleftrightarrow> ready s \<and> emitInv S s \<and> nomOk S s"

lemma nominationRun_update: "nomUpdate S s s' \<Longrightarrow> nominationRun S A s s'"
  by (simp add: nominationRun_def nomUpdate_def nomOk_def nodeRun_nom nomRun_fields(1))

lemma nominationRun_refl: "nomReady S s \<Longrightarrow> nominationRun S A s s"
  by (simp add: nominationRun_def nomReady_def nomGrows_def)

lemma nominationRun_trans: "nominationRun S A s t \<Longrightarrow> nominationRun S A t u \<Longrightarrow> nominationRun S A s u"
  by (auto simp: nominationRun_def nomGrows_def intro: nodeRun_trans)

lemma emitInv_nodes:
  assumes "node_steps S A s s'" "emitInv S s"
  shows "emitInv S s'"
  using assms by (induction rule: rtranclp_induct) (auto dest: emitInv_node)

lemma nominationRun_ready: "nominationRun S A s t \<Longrightarrow> nomReady S s \<Longrightarrow> nomReady S t"
  using emitInv_nodes by (auto simp: nominationRun_def nomReady_def nodeRun_def intro: nodeRun_ready [of S A s t])

text \<open>The ballot protocol sends no nominations.\<close>

lemma emittedNominations_step:
  assumes "slot_step S A s s'" "emitInv S s"
  shows "emittedNominations s' = emittedNominations s"
  using assms(1)
proof (cases rule: slot_step.cases)
  case (accept_prepared bal w s1 c)
  obtain p pp where "s1 = s\<lparr>mPrepared := Some p, mPreparedPrime := pp\<rparr>"
    using accept_prepared(4) by (rule setPrepared_fields)
  then show ?thesis by (simp add: accept_prepared(6) emittedNominations_def slot_update)
next
  case (send_envelope p e)
  then have "\<not> isNomination (statement e)" using assms(2) by (auto simp: emitInv_def ownLast_def)
  then show ?thesis by (simp add: send_envelope emittedNominations_def slot_update)
qed (simp_all add: emittedNominations_def slot_update quiet_no_nominations)

lemma emittedNominations_steps:
  assumes "slot_steps S A s s'" "emitInv S s"
  shows "emittedNominations s' = emittedNominations s \<and> emitInv S s'"
  using assms by (induction rule: rtranclp_induct) (auto dest: emittedNominations_step emitInv_step)

lemma nominationRun_frame:
  assumes "goodRun S A s s'" "nomReady S s"
  shows "nominationRun S A s s'"
proof -
  have steps: "slot_steps S A s s'" using assms(1) by (simp add: goodRun_def)
  have view: "nominationView s' = nominationView s" "mSlotIndex s' = mSlotIndex s"
    using nominationView_steps [OF steps] by auto
  then have grows: "nomGrows s s'" and "nomInv S s'"
    using assms(2) by (simp_all add: nomGrows_def nomInv_def nomOk_def nomReady_def nominationView_def
        nom_validateValue_def)
  moreover have "nomOwn S s'"
    using nomOwn_keep [OF _ grows] view(1) emittedNominations_steps [OF steps] assms(2)
    by (auto simp: nominationView_def nomReady_def nomOk_def)
  ultimately show ?thesis
    using assms(1) view(2) nodeRun_good by (simp add: nominationRun_def nomOk_def)
qed

lemma candidates_run:
  assumes "nomReady S s" "nom_newCandidates S newCandidates s = Inr (r, s')"
  shows "nominationRun S A s s'"
proof (cases newCandidates)
  case True
  define v where "v = combineCandidates S (mSlotIndex s) (mCandidates s)"
  define s1 where "s1 = driverCall (UpdatedCandidateValue (mSlotIndex s) v) (s\<lparr>mLatestCompositeCandidate := v\<rparr>)"
  have ok: "nomOk S s" using assms(1) by (simp add: nomReady_def)
  have "nomUpdate S s s1"
    unfolding s1_def
    by (rule nomUpdateI [OF ok, of _ "[UpdatedCandidateValue (mSlotIndex s) v]"])
      (use ok in \<open>auto simp: nomGrows_def nomInv_def nomOk_def nom_validateValue_def ballotView_def slot_update quiet_def\<close>)
  then have run: "nominationRun S A s s1" by (rule nominationRun_update)
  then have s1: "nomReady S s1" using assms(1) by (rule nominationRun_ready)
  obtain w where "bumpState S v False s1 = Inr (w, s')"
    using assms(2) True by (auto simp: nom_newCandidates_def v_def s1_def Let_def)
  then have "goodRun S A s1 s'" using s1 by (intro bumpState_good) (auto simp: nomReady_def)
  then show ?thesis using run nominationRun_frame [OF _ s1] nominationRun_trans by blast
qed (use assms in \<open>auto simp: nom_newCandidates_def nominationRun_refl\<close>)

lemma nominationEnvelope_fields [simp]:
  "isNomination (statement (nominationEnvelope S s))"
  "nodeID (statement (nominationEnvelope S s)) = localNodeID S"
  "slotIndex (statement (nominationEnvelope S s)) = mSlotIndex s"
  "pledges (statement (nominationEnvelope S s)) = SCP_ST_NOMINATE (localQSetHash S) (mVotes s) (mAccepted s)"
  by (simp_all add: nominationEnvelope_def createEnvelope_def isNomination_def Let_def)

interpretation nomination: nomination_relation S "nomReady S" "nominationRun S A" "acceptable S" "ownNomination S"
  for S A
proof
  show "nominationRun S A s u" if "nominationRun S A s t" "nominationRun S A t u" for s t u
    using that by (rule nominationRun_trans)
  show "nominationRun S A s s" if "nomReady S s" for s
    using that by (rule nominationRun_refl)
  show "nomReady S t" if "nomReady S s" "nominationRun S A s t" for s t
    using that(2,1) by (rule nominationRun_ready)
  show "ownNomination S t env" if "nominationRun S A s t" "ownNomination S s env" for s t env
    using that ownNomination_grows by (auto simp: nominationRun_def)
  show "ownNomination S s (nominationEnvelope S s)" if "nomReady S s" for s
    using that by (simp add: ownNomination_def belowSlot_def nomSorted_def nomReady_def nomOk_def nomInv_def)
  show "acceptable S s env" if "ownNomination S s env" for s env
    using that by (simp add: acceptable_def ownNomination_def)
  show "nominationRun S A s (nom_recordEnvelope env s)"
    if "nomReady S s" "acceptable S s env" "nom_isSane (statement env)" for s env
    using that by (intro nominationRun_update nom_record_update) (auto simp: nomReady_def)
  show "nominationRun S A s s'" if "nomReady S s" "nom_update S st s = Inr (m, n, s')" for s st m n s'
    using that by (intro nominationRun_update nom_update_update) (auto simp: nomReady_def)
  show "nominationRun S A s s'"
    if "nomReady S s" "ownNomination S s env" "finishNomination env (Inr (r, s)) = Inr s'" for s env r s'
    using that by (intro nominationRun_update finish_update) (auto simp: nomReady_def)
  show "nominationRun S A s s'" if "nomReady S s" "nom_newCandidates S n s = Inr (r, s')" for s n r s'
    using that by (rule candidates_run)
qed

section \<open>Nominating\<close>

lemma updateRoundLeaders_fields:
  "updateRoundLeaders S s = Inr s' \<Longrightarrow> \<exists>l. s' = s\<lparr>mRoundLeaders := l\<rparr>"
  by (auto simp: updateRoundLeaders_def Let_def)

lemma leaderVotes_update:
  "nomOk S s \<Longrightarrow> leaderVotes S ls (v, u, s) = Inr (v', u', s') \<Longrightarrow> nomUpdate S s s'"
proof (induction ls arbitrary: v u s)
  case (Cons l ls)
  note vote = vote_update_silent [OF Cons.prems(1)]
  show ?case
  proof (cases "map_of (mLatestNominations s) l")
    case None
    then show ?thesis using Cons by simp
  next
    case (Some e)
    then obtain x where
      "leaderVotes S ls (if x \<noteq> [] then (x, True, s\<lparr>mVotes := set_insert x (mVotes s)\<rparr>) else (x, u, s)) = Inr (v', u', s')"
      using Cons.prems(2) by auto
    then show ?thesis
      using Cons.IH [OF nomUpdateD [OF vote [of x]]] Cons.IH [OF Cons.prems(1)] nomUpdate_trans [OF vote [of x]]
      by (cases "x = []") simp_all
  qed
qed (simp add: nomUpdate_refl)

lemma nominateVotes_update:
  assumes "nomOk S s" "nominateVotes S v pv s = Inr (u, s')"
  shows "nomUpdate S s s'"
proof -
  let ?s0 = "s\<lparr>mNominationStarted := True, mPreviousValue := pv, mRoundNumber := mRoundNumber s + 1\<rparr>"
  obtain s1 where s1: "updateRoundLeaders S ?s0 = Inr s1" using assms(2) by (auto simp: nominateVotes_def)
  then obtain l where l: "s1 = ?s0\<lparr>mRoundLeaders := l\<rparr>" using updateRoundLeaders_fields by blast
  have up1: "nomUpdate S s s1"
    unfolding l
    by (rule nomUpdateI [OF assms(1), of _ "[]"])
      (use assms(1) in \<open>auto simp: nomGrows_def nomInv_def nomOk_def nom_validateValue_def ballotView_def\<close>)
  have ok1: "nomOk S s1" by (rule nomUpdateD [OF up1])
  obtain x w s2 where x: "(if localNodeID S \<in> set (mRoundLeaders s1)
        then Inr (v, v \<notin> set (mVotes s1), s1\<lparr>mVotes := set_insert v (mVotes s1)\<rparr>)
        else leaderVotes S (mRoundLeaders s1) ([], False, s1)) = Inr (x, w, s2)" and
      s': "s' = s2\<lparr>mDriverCalls := mDriverCalls s2 @ [NominatingValue (mSlotIndex s2) x,
        SetupTimer (mSlotIndex s2) NOMINATION_TIMER (computeTimeout (word_of_int (mRoundNumber s2)))
          (Some (NominateTimeout v pv))]\<rparr>"
    using assms(2) s1 by (auto simp: nominateVotes_def Let_def slot_update)
  have up2: "nomUpdate S s1 s2"
    using x leaderVotes_update [OF ok1] vote_update_silent [OF ok1] by (auto split: if_splits)
  have ok2: "nomOk S s2" by (rule nomUpdateD [OF up2])
  have "nomUpdate S s2 s'"
    unfolding s' by (rule call_update [OF ok2]) (simp add: quiet_def)
  then show ?thesis using up1 up2 by (blast intro: nomUpdate_trans)
qed

lemma nom_nominate_run:
  assumes "nomReady S s" "nom_nominate S v pv timedout s = Some (Inr (u, s'))"
  shows "nominationRun S A s s'"
proof (cases "s' = s")
  case False
  then obtain u1 s1 where s1: "nominateVotes S v pv s = Inr (u1, s1)"
      "s' = s1 \<or> emitNomination S s1 = Some (Inr s')"
    using assms(2) by (auto simp: nom_nominate_def split: if_splits sum.splits)
  have run: "nominationRun S A s s1"
    using nominateVotes_update [OF _ s1(1)] assms(1) by (auto simp: nomReady_def intro: nominationRun_update)
  have "nomReady S s1" by (rule nominationRun_ready [OF run assms(1)])
  then show ?thesis using run s1(2) nomination.emit_rel nominationRun_trans by blast
qed (simp add: nominationRun_refl [OF assms(1)])

lemma nom_processEnvelope_run:
  assumes "nomReady S s" "acceptable S s env" "nom_processEnvelope S env s = Some (Inr (r, s'))"
  shows "nominationRun S A s s'"
  by (rule nomination.process_rel [OF assms(3) refl assms(1,2)])

end
