(* ===== verification/SlotRuns.thy ===== *)
theory SlotRuns
  imports NominationRuns
begin

text \<open>
  A slot driven by its environment: messages, timers and calls of the application arrive in any
  order. Every input that the slot survives is a sequence of steps of the machine (a simulation), so
  the invariants of the machine hold in every reachable state of the slot.
\<close>

section \<open>Inputs\<close>

text \<open>The operations a client of the slot may call.\<close>

datatype SlotInput =
    Receive SCPEnvelope
  | Nominate Value Value
  | TimerFires TimerCallback
  | AbandonBallot
  | BumpState Value bool
  | StopNomination

definition dropResult :: "(scp_error + ('a \<times> 'b)) option \<Rightarrow> (scp_error + 'b) option" where
  "dropResult r = map_option (\<lambda>x. bindR x (\<lambda>(_, s). Inr s)) r"

fun slot_input :: "SCPContext \<Rightarrow> SlotInput \<Rightarrow> Slot \<Rightarrow> (scp_error + Slot) option" where
  "slot_input S (Receive env) s = dropResult (slot_processEnvelope S env False s)"
| "slot_input S (Nominate v pv) s = dropResult (slot_nominate S v pv False s)"
| "slot_input S (TimerFires cb) s = slot_timer S cb s"
| "slot_input S AbandonBallot s = dropResult (Some (slot_abandonBallot S s))"
| "slot_input S (BumpState v force) s = dropResult (Some (slot_bumpState S v force s))"
| "slot_input S StopNomination s = Some (Inr (stopNomination s))"

fun received :: "SlotInput \<Rightarrow> SCPEnvelope set" where
  "received (Receive env) = {env}"
| "received _ = {}"

text \<open>A message that carries the node's own identity is one the node sent itself; all other messages
  are arbitrary.\<close>

definition trustworthy :: "SCPContext \<Rightarrow> SlotInput \<Rightarrow> Slot \<Rightarrow> bool" where
  "trustworthy S inp s \<longleftrightarrow>
     (\<forall>env. inp = Receive env \<longrightarrow> nodeID (statement env) = localNodeID S \<longrightarrow>
        EmitEnvelope env \<in> set (mDriverCalls s))"

lemma trustworthy_acceptable:
  assumes "nomOk S s" "trustworthy S (Receive env) s" "isNomination (statement env)"
  shows "acceptable S s env"
proof -
  have "belowSlot s env" if "nodeID (statement env) = localNodeID S"
  proof -
    have "EmitEnvelope env \<in> set (mDriverCalls s)" using assms(2) that by (simp add: trustworthy_def)
    then have "env \<in> set (emittedNominations s)" using assms(3) by (force simp: emittedNominations_def)
    then show ?thesis using nomOkD(5) [OF assms(1)] by (simp add: ownNomination_def)
  qed
  then show ?thesis using assms(3) by (simp add: acceptable_def)
qed

lemma dropResult_iff: "dropResult r = Some (Inr s') \<longleftrightarrow> (\<exists>x. r = Some (Inr (x, s')))"
  by (auto simp: dropResult_def)

lemma stopNomination_run: "nomReady S s \<Longrightarrow> nominationRun S A s (stopNomination s)"
  by (rule nominationRun_update, rule nomUpdateI [of _ _ _ "[]"])
    (auto simp: nomGrows_def nomInv_def nomOk_def nom_validateValue_def ballotView_def nomReady_def slot_update)

lemma slot_input_run:
  assumes "nomReady S s" "slot_input S inp s = Some (Inr s')" "trustworthy S inp s"
  shows "nominationRun S (received inp) s s'"
proof -
  have ready: "ready s" using assms(1) by (simp add: nomReady_def)
  have ballot: "nominationRun S A s s'" if "goodRun S A s s'" for A
    using that assms(1) by (rule nominationRun_frame)
  show ?thesis
  proof (cases inp)
    case (Receive env)
    then obtain r where r: "slot_processEnvelope S env False s = Some (Inr (r, s'))"
      using assms(2) by (auto simp: dropResult_iff)
    show ?thesis
    proof (cases "isNominate (pledges (statement env))")
      case True
      then have "isNomination (statement env)" by (auto simp: isNomination_def split: SCPPledges.splits)
      then have "acceptable S s env"
        using trustworthy_acceptable assms(1,3) by (auto simp: nomReady_def Receive)
      then show ?thesis
        using r True assms(1) by (intro nom_processEnvelope_run) (auto simp: slot_processEnvelope_def split: if_splits)
    next
      case False
      then have "processEnvelope S False env s = Inr (r, s')"
        using r by (auto simp: slot_processEnvelope_def split: if_splits)
      then show ?thesis by (intro ballot processEnvelope_good) (auto simp: Receive ready)
    qed
  next
    case (Nominate v pv)
    then show ?thesis
      using assms by (auto simp: dropResult_iff slot_nominate_def intro: nom_nominate_run)
  next
    case (TimerFires cb)
    then show ?thesis
      using assms(2) nom_nominate_run [OF assms(1)] ballot abandonBallot_good [OF _ ready]
      by (cases cb) (auto simp: slot_timer_def ballotProtocolTimerExpired_def slot_nominate_def)
  qed (use assms stopNomination_run ballot abandonBallot_good [OF _ ready] bumpState_good [OF _ ready] in
      \<open>auto simp: dropResult_iff slot_abandonBallot_def slot_bumpState_def\<close>)
qed

section \<open>Reachable states\<close>

inductive slot_reachable :: "SCPContext \<Rightarrow> u64 \<Rightarrow> Slot \<Rightarrow> bool" for S i where
  created: "slot_reachable S i (newSlot S i)"
| input: "slot_reachable S i s \<Longrightarrow> trustworthy S inp s \<Longrightarrow> slot_input S inp s = Some (Inr s') \<Longrightarrow>
    slot_reachable S i s'"

lemma emitted_vouched:
  assumes "slotInv S s" "EmitEnvelope env \<in> set (mDriverCalls s)"
  shows "vouched S s (statement env)"
proof (cases "isNomination (statement env)")
  case True
  then show ?thesis by (auto simp: isNomination_def vouched_def split: SCPPledges.splits)
next
  case False
  then have "env \<in> set (emittedBallots s)"
    using assms(2) by (force simp: emittedBallots_def)
  then have "nodeID (statement env) = localNodeID S" "statement env \<in> fst ` set (mStatementsHistory s)"
    using assms(1) by (auto simp: slotInv_def emitInv_def ownEmitted_def)
  then show ?thesis using assms(1) by (auto simp: slotInv_def vouchInv_def)
qed

lemma trustworthy_authentic:
  "slotInv S s \<Longrightarrow> trustworthy S inp s \<Longrightarrow> authentic S (received inp) s"
  by (cases inp) (auto simp: authentic_def trustworthy_def emitted_vouched)

definition fullInv :: "SCPContext \<Rightarrow> u64 \<Rightarrow> Slot \<Rightarrow> bool" where
  "fullInv S i s \<longleftrightarrow> slotInv S s \<and> nomOk S s \<and> notified s \<and> mCurrentMessageLevel s = 0 \<and> mSlotIndex s = i"

lemma fullInv_new: "fullInv S i (newSlot S i)"
proof -
  have "nomOk S (newSlot S i)" "notified (newSlot S i)"
    by (simp_all add: nomOk_def nomOwn_def nomInv_def newSlot_def map_invar_def notified_def
        emittedNominations_def)
  then show ?thesis by (simp add: fullInv_def) (simp add: newSlot_def)
qed

lemma fullInv_input:
  assumes "fullInv S i s" "trustworthy S inp s" "slot_input S inp s = Some (Inr s')"
  shows "fullInv S i s'" "nominationRun S (received inp) s s'"
proof -
  have ready: "nomReady S s" using assms(1) by (auto simp: fullInv_def nomReady_def ready_def slotInv_def)
  show run: "nominationRun S (received inp) s s'" by (rule slot_input_run [OF ready assms(3,2)])
  have "authentic S (received inp) s"
    using trustworthy_authentic assms(1,2) by (auto simp: fullInv_def)
  then have "slotInv S s'"
    using run slotInv_nodes assms(1) by (auto simp: nominationRun_def nodeRun_def fullInv_def)
  then show "fullInv S i s'"
    using run assms(1) by (auto simp: fullInv_def nominationRun_def nodeRun_def)
qed

lemma reachable_fullInv: "slot_reachable S i s \<Longrightarrow> fullInv S i s"
  by (induction rule: slot_reachable.induct) (auto intro: fullInv_new fullInv_input)

end
