(* ===== verification/Agreement.thy ===== *)
theory Agreement
  imports SlotRuns QuorumProofs
begin

text \<open>
  A network of nodes that run the slot of \<open>SlotRuns\<close>. The well-behaved nodes run the code; all other
  nodes may send anything to anyone at any time, and messages may be lost, delayed, duplicated and
  reordered. If the quorums of the well-behaved nodes intersect in well-behaved nodes, no two of them
  ever externalize different values.
\<close>

section \<open>Federations\<close>

text \<open>A set of nodes is a quorum when it has a slice of each of its well-behaved members.\<close>

definition quorum_of :: "NodeID set \<Rightarrow> (NodeID \<Rightarrow> SCPContext) \<Rightarrow> NodeID set \<Rightarrow> bool" where
  "quorum_of W ctx V \<longleftrightarrow> (\<forall>n \<in> V \<inter> W. sat (\<lambda>m. m \<in> V) (localQSet (ctx n)))"

definition quorum_intersection :: "NodeID set \<Rightarrow> (NodeID \<Rightarrow> SCPContext) \<Rightarrow> bool" where
  "quorum_intersection W ctx \<longleftrightarrow>
     (\<forall>V1 V2. quorum_of W ctx V1 \<longrightarrow> quorum_of W ctx V2 \<longrightarrow> V1 \<inter> W \<noteq> {} \<longrightarrow> V2 \<inter> W \<noteq> {} \<longrightarrow>
        V1 \<inter> V2 \<inter> W \<noteq> {})"

text \<open>The well-behaved nodes know their names, and the driver finds no other quorum set under the hash
  of a well-behaved node's quorum set (\<^verbatim>\<open>SCPDriver::getQSet\<close>: retrieves a quorum set from its hash).\<close>

definition federation :: "NodeID set \<Rightarrow> (NodeID \<Rightarrow> SCPContext) \<Rightarrow> bool" where
  "federation W ctx \<longleftrightarrow>
     (\<forall>w \<in> W. localNodeID (ctx w) = w) \<and>
     (\<forall>v \<in> W. \<forall>w \<in> W. \<forall>q. getQSet (ctx v) (localQSetHash (ctx w)) = Some q \<longrightarrow> q = localQSet (ctx w))"

section \<open>The network\<close>

type_synonym Network = "NodeID \<Rightarrow> Slot"

text \<open>Only the owner can send a message in the name of a well-behaved node.\<close>

definition delivered :: "NodeID set \<Rightarrow> Network \<Rightarrow> SlotInput \<Rightarrow> bool" where
  "delivered W \<sigma> inp \<longleftrightarrow>
     (\<forall>env. inp = Receive env \<longrightarrow> nodeID (statement env) \<in> W \<longrightarrow>
        EmitEnvelope env \<in> set (mDriverCalls (\<sigma> (nodeID (statement env)))))"

inductive network_reachable :: "NodeID set \<Rightarrow> (NodeID \<Rightarrow> SCPContext) \<Rightarrow> u64 \<Rightarrow> Network \<Rightarrow> bool"
  for W ctx i where
  init: "network_reachable W ctx i (\<lambda>n. newSlot (ctx n) i)"
| node: "network_reachable W ctx i \<sigma> \<Longrightarrow> w \<in> W \<Longrightarrow> delivered W \<sigma> inp \<Longrightarrow>
    slot_input (ctx w) inp (\<sigma> w) = Some (Inr s') \<Longrightarrow> network_reachable W ctx i (\<sigma>(w := s'))"

section \<open>The invariant of the network\<close>

text \<open>What a node holds of a well-behaved node is backed by that node's state.\<close>

definition backed :: "NodeID set \<Rightarrow> (NodeID \<Rightarrow> SCPContext) \<Rightarrow> Network \<Rightarrow> SCPEnvelope \<Rightarrow> bool" where
  "backed W ctx \<sigma> env \<longleftrightarrow>
     (nodeID (statement env) \<in> W \<longrightarrow>
        vouched (ctx (nodeID (statement env))) (\<sigma> (nodeID (statement env))) (statement env))"

definition knownBacked :: "NodeID set \<Rightarrow> (NodeID \<Rightarrow> SCPContext) \<Rightarrow> Network \<Rightarrow> bool" where
  "knownBacked W ctx \<sigma> \<longleftrightarrow>
     (\<forall>w \<in> W. \<forall>n e. map_of (mLatestEnvelopes (\<sigma> w)) n = Some e \<longrightarrow> backed W ctx \<sigma> e)"

text \<open>A quorum whose well-behaved members are all locked on the value.\<close>

definition certified :: "NodeID set \<Rightarrow> (NodeID \<Rightarrow> SCPContext) \<Rightarrow> Network \<Rightarrow> NodeID \<Rightarrow> Value \<Rightarrow> bool" where
  "certified W ctx \<sigma> w v \<longleftrightarrow>
     (\<exists>V. w \<in> V \<and> quorum_of W ctx V \<and> (\<forall>n \<in> V \<inter> W. locked (\<sigma> n) v))"

definition extCertified :: "NodeID set \<Rightarrow> (NodeID \<Rightarrow> SCPContext) \<Rightarrow> Network \<Rightarrow> bool" where
  "extCertified W ctx \<sigma> \<longleftrightarrow>
     (\<forall>w \<in> W. mPhase (\<sigma> w) = SCP_PHASE_EXTERNALIZE \<longrightarrow> (\<exists>v. certified W ctx \<sigma> w v))"

definition netInv :: "NodeID set \<Rightarrow> (NodeID \<Rightarrow> SCPContext) \<Rightarrow> Network \<Rightarrow> bool" where
  "netInv W ctx \<sigma> \<longleftrightarrow>
     (\<forall>w \<in> W. slotInv (ctx w) (\<sigma> w)) \<and> knownBacked W ctx \<sigma> \<and> extCertified W ctx \<sigma>"

lemma locked_unique: "locked s v \<Longrightarrow> locked s v' \<Longrightarrow> v = v'"
  by (auto simp: locked_def)

lemma latest_filtered:
  assumes "latestInv s" "n \<in> set (filterNodes (mLatestEnvelopes s) P)"
    "map_of (mLatestEnvelopes s) n = Some e"
  shows "P (statement e)"
  using assms by (auto simp: filterNodes_def latestInv_def map_invar_def strict_sorted_iff
      dest: eq_key_imp_eq_value)

text \<open>What a ratified commit certifies.\<close>

lemma ratified_member:
  assumes fed: "federation W ctx" and W: "w \<in> W" "n \<in> W" and e: "nodeID (statement e) = n" "backed W ctx \<sigma> e"
    and ext: "extCertified W ctx \<sigma>" and commit: "commitPredicate bal iv (statement e)"
    and q: "getQuorumSetFromStatement (ctx w) (statement e) = Some q" "sat P q"
  shows "locked (\<sigma> n) (bvalue bal)" "sat P (localQSet (ctx n)) \<or> certified W ctx \<sigma> n (bvalue bal)"
proof -
  have v: "vouched (ctx n) (\<sigma> n) (statement e)" using W(2) e by (simp add: backed_def)
  have "locked (\<sigma> n) (bvalue bal) \<and> (sat P (localQSet (ctx n)) \<or> certified W ctx \<sigma> n (bvalue bal))"
  proof (cases "pledges (statement e)")
    case (SCP_ST_CONFIRM b p c h d)
    then have "locked (\<sigma> n) (bvalue bal)" "q = localQSet (ctx n)"
      using v commit q(1) fed W
      by (auto simp: vouched_def commitPredicate_def getQuorumSetFromStatement_def federation_def)
    then show ?thesis using q(2) by simp
  next
    case (SCP_ST_EXTERNALIZE c h d)
    then have lock: "locked (\<sigma> n) (bvalue bal)" and "mPhase (\<sigma> n) = SCP_PHASE_EXTERNALIZE"
      using v commit by (auto simp: vouched_def commitPredicate_def)
    then obtain x where x: "certified W ctx \<sigma> n x" using ext W(2) by (auto simp: extCertified_def)
    then have "locked (\<sigma> n) x" using W(2) by (auto simp: certified_def)
    then have "x = bvalue bal" using lock by (rule locked_unique)
    then show ?thesis using x lock by simp
  qed (use commit in \<open>simp_all add: commitPredicate_def\<close>)
  then show "locked (\<sigma> n) (bvalue bal)" "sat P (localQSet (ctx n)) \<or> certified W ctx \<sigma> n (bvalue bal)" by auto
qed

lemma ratified_certified:
  assumes fed: "federation W ctx" and w: "w \<in> W" and inv: "latestInv s"
    and known: "\<And>n e. map_of (mLatestEnvelopes s) n = Some e \<Longrightarrow> backed W ctx \<sigma> e"
    and ext: "extCertified W ctx \<sigma>"
    and rat: "federatedRatify (ctx w) (commitPredicate bal iv) (mLatestEnvelopes s)"
    and locked: "locked (\<sigma> w) (bvalue bal)"
  shows "certified W ctx \<sigma> w (bvalue bal)"
proof -
  let ?m = "mLatestEnvelopes s" and ?v = "bvalue bal"
  obtain U where U: "U \<subseteq> set (filterNodes ?m (commitPredicate bal iv))"
      "is_quorum_in ?m (getQuorumSetFromStatement (ctx w)) U" "sat (\<lambda>n. n \<in> U) (localQSet (ctx w))"
    using rat unfolding federatedRatify_def isQuorum_iff by blast
  have member: "locked (\<sigma> n) ?v \<and> (sat (\<lambda>m. m \<in> U) (localQSet (ctx n)) \<or> certified W ctx \<sigma> n ?v)"
    if n: "n \<in> U" "n \<in> W" for n
  proof -
    obtain e q where e: "map_of ?m n = Some e" "getQuorumSetFromStatement (ctx w) (statement e) = Some q"
        "sat (\<lambda>m. m \<in> U) q"
      using U(2) n(1) by (auto simp: is_quorum_in_def)
    have "commitPredicate bal iv (statement e)"
      by (rule latest_filtered [OF inv subsetD [OF U(1) n(1)] e(1)])
    moreover have "nodeID (statement e) = n" using inv e(1) by (simp add: latestInv_def)
    ultimately show ?thesis
      using ratified_member [OF fed w n(2) _ known [OF e(1)] ext _ e(2,3)] by blast
  qed
  define C where "C = {V. quorum_of W ctx V \<and> (\<forall>n \<in> V \<inter> W. locked (\<sigma> n) ?v)}"
  define V where "V = insert w (U \<union> \<Union> C)"
  have sat: "sat (\<lambda>m. m \<in> V) q" if "sat (\<lambda>m. m \<in> X) q" "X \<subseteq> V" for X q
    by (rule sat_mono [OF _ that(1)]) (use that(2) in blast)
  have inC: "sat (\<lambda>m. m \<in> V) (localQSet (ctx n))" if "n \<in> X" "X \<in> C" "n \<in> W" for n X
  proof (rule sat)
    show "sat (\<lambda>m. m \<in> X) (localQSet (ctx n))" using that unfolding C_def quorum_of_def by blast
    show "X \<subseteq> V" using that(2) unfolding V_def by blast
  qed
  have "quorum_of W ctx V"
    unfolding quorum_of_def
  proof
    fix n assume "n \<in> V \<inter> W"
    then show "sat (\<lambda>m. m \<in> V) (localQSet (ctx n))"
    proof (cases "n \<in> \<Union> C")
      case False
      then have "n = w \<or> n \<in> U" "\<not> certified W ctx \<sigma> n ?v"
        using \<open>n \<in> V \<inter> W\<close> unfolding V_def certified_def C_def by blast+
      then have "sat (\<lambda>m. m \<in> U) (localQSet (ctx n))" using member U(3) \<open>n \<in> V \<inter> W\<close> by blast
      then show ?thesis by (rule sat) (auto simp: V_def)
    qed (use inC \<open>n \<in> V \<inter> W\<close> in blast)
  qed
  moreover have "locked (\<sigma> n) ?v" if "n \<in> V \<inter> W" for n
    using that member locked unfolding V_def C_def by blast
  ultimately show ?thesis unfolding certified_def by (intro exI [of _ V]) (auto simp: V_def)
qed

section \<open>Steps of one node\<close>

lemma latest_step:
  assumes "node_step S A s s'" "latestInv s" "map_of (mLatestEnvelopes s') n = Some e"
  shows "map_of (mLatestEnvelopes s) n = Some e \<or> e \<in> A \<or> ownEnvelope S s e"
  using assms(1)
proof (cases rule: node_step.cases)
  case nomination_step
  then show ?thesis using assms(3) by (simp add: nomRun_fields)
next
  case ballot_step
  then show ?thesis
  proof (cases rule: slot_step.cases)
    case (record_envelope env self fv)
    then show ?thesis
      using assms(2,3) by (auto simp: slot_update latestInv_def map_of_map_put split: if_splits)
  next
    case (accept_prepared bal w s1 c)
    obtain p pp where "s1 = s\<lparr>mPrepared := Some p, mPreparedPrime := pp\<rparr>"
      using accept_prepared(4) by (rule setPrepared_fields)
    then show ?thesis using assms(3) by (simp add: accept_prepared(6) slot_update)
  qed (use assms(3) in \<open>simp_all add: slot_update\<close>)
qed

lemma externalize_step:
  assumes "node_step S A s s'" "mPhase s \<noteq> SCP_PHASE_EXTERNALIZE" "mPhase s' = SCP_PHASE_EXTERNALIZE"
  obtains bal iv where "federatedRatify S (commitPredicate bal iv) (mLatestEnvelopes s)"
    "locked s (bvalue bal)"
  using assms(1)
proof (cases rule: node_step.cases)
  case nomination_step
  then show ?thesis using assms(2,3) by (simp add: nomRun_fields)
next
  case ballot_step
  then show ?thesis
  proof (cases rule: slot_step.cases)
    case (accept_prepared bal w s1 c)
    obtain p pp where "s1 = s\<lparr>mPrepared := Some p, mPreparedPrime := pp\<rparr>"
      using accept_prepared(4) by (rule setPrepared_fields)
    then show ?thesis using assms(2,3) by (simp add: accept_prepared(6) slot_update)
  next
    case (confirm_commit bal lo hi cs b1 hq)
    show ?thesis
      by (rule that [of bal "(lo, hi)"]) (use confirm_commit in \<open>simp_all add: locked_def\<close>)
  qed (use assms(2,3) in \<open>simp_all add: slot_update\<close>)
qed

lemma backed_step:
  assumes "backed W ctx \<sigma> e" "node_step (ctx w) A (\<sigma> w) s'" "wellFormed (\<sigma> w)"
  shows "backed W ctx (\<sigma>(w := s')) e"
  using assms(1) vouched_node [OF assms(2,3), of "statement e"]
  by (cases "nodeID (statement e) = w") (auto simp: backed_def)

lemma certified_step:
  assumes "certified W ctx \<sigma> x v" "node_step (ctx w) A (\<sigma> w) s'" "wellFormed (\<sigma> w)"
  shows "certified W ctx (\<sigma>(w := s')) x v"
  using assms(1) locked_node [OF assms(2,3)] unfolding certified_def by (metis fun_upd_apply)

lemma netInv_step:
  assumes fed: "federation W ctx" and inv: "netInv W ctx \<sigma>" and w: "w \<in> W"
    and A: "\<forall>env \<in> A. backed W ctx \<sigma> env" and step: "node_step (ctx w) A (\<sigma> w) s'"
  shows "netInv W ctx (\<sigma>(w := s'))" "\<forall>env \<in> A. backed W ctx (\<sigma>(w := s')) env"
proof -
  let ?\<sigma>' = "\<sigma>(w := s')"
  have id: "localNodeID (ctx w) = w" using fed w by (simp add: federation_def)
  have invw: "slotInv (ctx w) (\<sigma> w)" and known: "knownBacked W ctx \<sigma>" and ext: "extCertified W ctx \<sigma>"
    using inv w by (auto simp: netInv_def)
  have wf: "wellFormed (\<sigma> w)" and latest: "latestInv (\<sigma> w)" using invw by (auto simp: slotInv_def)
  have "authentic (ctx w) A (\<sigma> w)" using A w id by (auto simp: authentic_def backed_def)
  then have inv': "slotInv (ctx w) s'" using slotInv_node [OF step invw] by simp
  note bstep = backed_step [of W ctx \<sigma> _ w A s', OF _ step wf]
  note cstep = certified_step [of W ctx \<sigma> _ _ w A s', OF _ step wf]
  show keep: "\<forall>env \<in> A. backed W ctx ?\<sigma>' env" using A bstep by blast
  have known': "knownBacked W ctx ?\<sigma>'"
    unfolding knownBacked_def
  proof (intro ballI allI impI)
    fix x n e assume x: "x \<in> W" and e: "map_of (mLatestEnvelopes (?\<sigma>' x)) n = Some e"
    have old: "backed W ctx ?\<sigma>' e" if "map_of (mLatestEnvelopes (\<sigma> x)) n = Some e"
      using known x that bstep by (auto simp: knownBacked_def)
    have own: "backed W ctx ?\<sigma>' e" if own: "ownEnvelope (ctx w) (\<sigma> w) e"
      using vouched_own(1,2) [OF own] id by (intro bstep) (simp add: backed_def)
    show "backed W ctx ?\<sigma>' e"
      using e old own keep latest_step [OF step latest] by (cases "x = w") auto
  qed
  have "extCertified W ctx ?\<sigma>'"
    unfolding extCertified_def
  proof (intro ballI impI)
    fix x assume x: "x \<in> W" and phase: "mPhase (?\<sigma>' x) = SCP_PHASE_EXTERNALIZE"
    show "\<exists>v. certified W ctx ?\<sigma>' x v"
    proof (cases "mPhase (\<sigma> x) = SCP_PHASE_EXTERNALIZE")
      case True
      then show ?thesis using ext x cstep unfolding extCertified_def by blast
    next
      case False
      then have x_w: "x = w" using phase by (auto split: if_splits)
      obtain bal iv where "federatedRatify (ctx w) (commitPredicate bal iv) (mLatestEnvelopes (\<sigma> w))"
          "locked (\<sigma> w) (bvalue bal)"
        using externalize_step [OF step] False phase unfolding x_w by auto
      then have "certified W ctx \<sigma> w (bvalue bal)"
        using known w by (intro ratified_certified [OF fed w latest _ ext]) (auto simp: knownBacked_def)
      then show ?thesis using cstep x_w by blast
    qed
  qed
  then show "netInv W ctx ?\<sigma>'" using inv known' inv' by (simp add: netInv_def)
qed

section \<open>Reachable networks\<close>

lemma netInv_steps:
  assumes "node_steps (ctx w) A s s'"
  shows "federation W ctx \<Longrightarrow> w \<in> W \<Longrightarrow> netInv W ctx (\<sigma>(w := s)) \<Longrightarrow>
    \<forall>env \<in> A. backed W ctx (\<sigma>(w := s)) env \<Longrightarrow>
    netInv W ctx (\<sigma>(w := s')) \<and> (\<forall>env \<in> A. backed W ctx (\<sigma>(w := s')) env)"
  using assms
proof (induction rule: rtranclp_induct)
  case (step t u)
  then have "netInv W ctx (\<sigma>(w := t))" "\<forall>env \<in> A. backed W ctx (\<sigma>(w := t)) env" by blast+
  from netInv_step [OF step.prems(1) this(1) step.prems(2) this(2)] show ?case
    using step.hyps(2) by (metis fun_upd_same fun_upd_upd)
qed blast

text \<open>Every well-behaved node is in the invariant of a slot, and the network in its own.\<close>

definition goodNetwork :: "NodeID set \<Rightarrow> (NodeID \<Rightarrow> SCPContext) \<Rightarrow> u64 \<Rightarrow> Network \<Rightarrow> bool" where
  "goodNetwork W ctx i \<sigma> \<longleftrightarrow> netInv W ctx \<sigma> \<and> (\<forall>w \<in> W. fullInv (ctx w) i (\<sigma> w))"

lemma goodNetwork_init: "goodNetwork W ctx i (\<lambda>n. newSlot (ctx n) i)"
  by (simp add: goodNetwork_def fullInv_new netInv_def knownBacked_def extCertified_def)
    (simp add: newSlot_def)

lemma goodNetwork_node:
  assumes fed: "federation W ctx" and good: "goodNetwork W ctx i \<sigma>" and w: "w \<in> W"
    and inp: "delivered W \<sigma> inp" "slot_input (ctx w) inp (\<sigma> w) = Some (Inr s')"
  shows "goodNetwork W ctx i (\<sigma>(w := s'))"
proof -
  have inv: "fullInv (ctx n) i (\<sigma> n)" "slotInv (ctx n) (\<sigma> n)" if "n \<in> W" for n
    using good that by (auto simp: goodNetwork_def fullInv_def)
  have "localNodeID (ctx w) = w" using fed w by (simp add: federation_def)
  then have trust: "trustworthy (ctx w) inp (\<sigma> w)" using inp(1) w by (auto simp: trustworthy_def delivered_def)
  note run = fullInv_input [OF inv(1) [OF w] trust inp(2)]
  have "\<forall>env \<in> received inp. backed W ctx \<sigma> env"
    using inp(1) emitted_vouched [OF inv(2)] by (cases inp) (auto simp: backed_def delivered_def)
  then have "netInv W ctx (\<sigma>(w := s'))"
    using netInv_steps [of ctx w "received inp" "\<sigma> w" s' W \<sigma>] run(2) fed w good
    by (auto simp: nominationRun_def nodeRun_def goodNetwork_def)
  then show ?thesis using good run(1) by (simp add: goodNetwork_def)
qed

lemma reachable_goodNetwork:
  "network_reachable W ctx i \<sigma> \<Longrightarrow> federation W ctx \<Longrightarrow> goodNetwork W ctx i \<sigma>"
  by (induction rule: network_reachable.induct) (auto intro: goodNetwork_init goodNetwork_node)

lemma externalized_locked:
  assumes "fullInv S i s" "ValueExternalized j v \<in> set (mDriverCalls s)"
  shows "j = i" "mPhase s = SCP_PHASE_EXTERNALIZE" "locked s v"
proof -
  have "(j, v) \<in> set (externalizedValues s)" using assms(2) by (force simp: externalizedValues_def)
  then show "j = i" "mPhase s = SCP_PHASE_EXTERNALIZE" "locked s v"
    using assms(1) by (auto simp: fullInv_def slotInv_def notifyInv_def)
qed

lemma goodNetwork_agreement:
  assumes "quorum_intersection W ctx" "goodNetwork W ctx i \<sigma>" "w1 \<in> W" "w2 \<in> W"
    "mPhase (\<sigma> w1) = SCP_PHASE_EXTERNALIZE" "locked (\<sigma> w1) v1"
    "mPhase (\<sigma> w2) = SCP_PHASE_EXTERNALIZE" "locked (\<sigma> w2) v2"
  shows "v1 = v2"
proof -
  obtain x1 x2 where "certified W ctx \<sigma> w1 x1" "certified W ctx \<sigma> w2 x2"
    using assms unfolding goodNetwork_def netInv_def extCertified_def by blast
  then obtain V1 V2 where V: "w1 \<in> V1" "quorum_of W ctx V1" "\<forall>n \<in> V1 \<inter> W. locked (\<sigma> n) x1"
      "w2 \<in> V2" "quorum_of W ctx V2" "\<forall>n \<in> V2 \<inter> W. locked (\<sigma> n) x2"
    by (auto simp: certified_def)
  then obtain n where "n \<in> V1 \<inter> V2 \<inter> W" using assms(1,3,4) unfolding quorum_intersection_def by blast
  then have "x1 = x2" "x1 = v1" "x2 = v2" using V assms(3-) locked_unique by blast+
  then show ?thesis by simp
qed

end
