(* ===== verification/NominationTermination.thy ===== *)
theory NominationTermination
  imports SlotRuns
begin

text \<open>
  Nomination ends: every time the node processes a nomination of its own it has more votes or more
  accepted values than before, and if the application keeps the contract of \<open>extractValidValue\<close> all
  of them come from a finite set. And the node never finds its own nomination invalid.
\<close>

section \<open>The values in play\<close>

text \<open>\<^verbatim>\<open>SCPDriver::extractValidValue\<close> returns a value that the node would agree to (fully validated), or
  the empty value.\<close>

definition extractContract :: "SCPContext \<Rightarrow> u64 \<Rightarrow> bool" where
  "extractContract S i \<longleftrightarrow>
     (\<forall>v. extractValidValue S i v = [] \<or>
        validateValue S i (extractValidValue S i v) True = kFullyValidatedValue)"

definition closedValues :: "SCPContext \<Rightarrow> u64 \<Rightarrow> Value set \<Rightarrow> bool" where
  "closedValues S i U \<longleftrightarrow>
     (\<forall>v \<in> U. validateValue S i v True \<noteq> kFullyValidatedValue \<longrightarrow>
        extractValidValue S i v = [] \<or> extractValidValue S i v \<in> U)"

definition valuesIn :: "Value set \<Rightarrow> Slot \<Rightarrow> bool" where
  "valuesIn U s \<longleftrightarrow> set (mVotes s) \<subseteq> U \<and> set (mAccepted s) \<subseteq> U"

definition grown :: "Slot \<Rightarrow> Slot \<Rightarrow> bool" where
  "grown s s' \<longleftrightarrow> nomGrows s s' \<and>
     (set (mVotes s) \<noteq> set (mVotes s') \<or> set (mAccepted s) \<noteq> set (mAccepted s'))"

lemma closedValues_closure:
  assumes "extractContract S i"
  shows "closedValues S i (B \<union> (extractValidValue S i ` B - {[]}))"
  using assms by (auto simp: extractContract_def closedValues_def)

lemma nomGrows_refl [simp]: "nomGrows s s"
  by (simp add: nomGrows_def)

lemma nomGrows_trans: "nomGrows s t \<Longrightarrow> nomGrows t u \<Longrightarrow> nomGrows s u"
  by (auto simp: nomGrows_def)

lemma grown_trans: "nomGrows s t \<Longrightarrow> nomGrows t u \<Longrightarrow> grown s t \<or> grown t u \<Longrightarrow> grown s u"
  by (auto simp: grown_def nomGrows_def)

text \<open>What one change does to the sets, with its flag.\<close>

definition growStep :: "SCPContext \<Rightarrow> Value set \<Rightarrow> Slot \<Rightarrow> bool \<Rightarrow> Slot \<Rightarrow> bool" where
  "growStep S U s m s' \<longleftrightarrow> nomGrows s s' \<and> (m \<longrightarrow> grown s s') \<and> mSlotIndex s' = mSlotIndex s \<and>
     mLatestNominations s' = mLatestNominations s \<and> (valuesIn U s \<longrightarrow> valuesIn U s')"

lemma growStep_trans: "growStep S U s a t \<Longrightarrow> growStep S U t b u \<Longrightarrow> growStep S U s (a \<or> b) u"
  using nomGrows_trans [of s t u] grown_trans [of s t u] by (auto simp: growStep_def)

lemma growStep_weaken: "growStep S U s True t \<Longrightarrow> growStep S U s m t"
  by (simp add: growStep_def)

lemma growStep_refl: "growStep S U s False s"
  by (simp add: growStep_def)

lemma growStep_vote:
  "x \<in> U \<Longrightarrow> x \<notin> set (mVotes s) \<Longrightarrow> growStep S U s True (s\<lparr>mVotes := set_insert x (mVotes s), mDriverCalls := cs\<rparr>)"
  by (auto simp: growStep_def grown_def nomGrows_def valuesIn_def)

lemma valueToNominate_in:
  assumes "closedValues S (mSlotIndex s) U" "v \<in> U" "valueToNominate S v s \<noteq> []"
  shows "valueToNominate S v s \<in> U"
  using assms
  by (auto simp: valueToNominate_def closedValues_def nom_validateValue_def nom_extractValidValue_def
      split: if_splits)

lemma promoteVote_cases:
  assumes "promoteVote S v (m, s) = (m', s')"
  obtains "m' = m" "s' = s"
  | "v \<notin> set (mAccepted s)"
    "s' = s\<lparr>mAccepted := set_insert v (mAccepted s), mVotes := set_insert v (mVotes s)\<rparr>"
  | "nom_validateValue S v s \<noteq> kFullyValidatedValue" "nom_extractValidValue S v s \<noteq> []"
    "nom_extractValidValue S v s \<notin> set (mVotes s)"
    "s' = s\<lparr>mVotes := set_insert (nom_extractValidValue S v s) (mVotes s)\<rparr>"
proof -
  let ?x = "nom_extractValidValue S v s"
  note def = assms [unfolded promoteVote_def prod.case Let_def]
  consider "v \<in> set (mAccepted s) \<or> \<not> federatedAccept S (votedNominate v) (acceptPredicate v) (mLatestNominations s)"
    | "v \<notin> set (mAccepted s)" "federatedAccept S (votedNominate v) (acceptPredicate v) (mLatestNominations s)"
      "nom_validateValue S v s = kFullyValidatedValue"
    | "v \<notin> set (mAccepted s)" "federatedAccept S (votedNominate v) (acceptPredicate v) (mLatestNominations s)"
      "nom_validateValue S v s \<noteq> kFullyValidatedValue" "?x \<noteq> [] \<and> ?x \<notin> set (mVotes s)"
    | "v \<notin> set (mAccepted s)" "federatedAccept S (votedNominate v) (acceptPredicate v) (mLatestNominations s)"
      "nom_validateValue S v s \<noteq> kFullyValidatedValue" "\<not> (?x \<noteq> [] \<and> ?x \<notin> set (mVotes s))"
    by blast
  then show ?thesis
  proof cases
    case 1
    then show ?thesis using that(1) def by (simp split: if_splits)
  next
    case 2
    show ?thesis by (rule that(2)) (use 2 def in simp_all)
  next
    case 3
    show ?thesis by (rule that(3)) (use 3 def in simp_all)
  next
    case 4
    show ?thesis by (rule that(1)) (use 4 def in \<open>simp_all split: if_splits\<close>)
  qed
qed

lemma promoteVote_grow:
  assumes "closedValues S (mSlotIndex s) U" "v \<in> U" "promoteVote S v (m, s) = (m', s')"
  shows "growStep S U s (m' \<and> \<not> m) s'"
  using assms(3)
proof (cases rule: promoteVote_cases)
  case 1
  then show ?thesis by (simp add: growStep_refl)
next
  case 2
  show ?thesis
    unfolding 2(2)
    by (rule growStep_weaken) (use 2(1) assms(2) in \<open>auto simp: growStep_def grown_def nomGrows_def valuesIn_def\<close>)
next
  case 3
  then have "nom_extractValidValue S v s \<in> U"
    using assms(1,2) by (auto simp: closedValues_def nom_validateValue_def nom_extractValidValue_def)
  then have "growStep S U s True s'" using growStep_vote [OF _ 3(3), of U S "mDriverCalls s"] 3(4) by simp
  then show ?thesis by (rule growStep_weaken)
qed

lemma promoteVotes_grow:
  "closedValues S (mSlotIndex s) U \<Longrightarrow> set vs \<subseteq> U \<Longrightarrow> fold (promoteVote S) vs (m, s) = (m', s') \<Longrightarrow>
   growStep S U s (m' \<and> \<not> m) s'"
proof (induction vs arbitrary: m s)
  case (Cons v vs)
  obtain m1 s1 where 1: "promoteVote S v (m, s) = (m1, s1)" by (cases "promoteVote S v (m, s)")
  have up: "growStep S U s (m1 \<and> \<not> m) s1" using Cons.prems by (intro promoteVote_grow [OF _ _ 1]) auto
  then have "growStep S U s1 (m' \<and> \<not> m1) s'"
    using Cons.prems 1 by (intro Cons.IH) (auto simp: growStep_def)
  from growStep_trans [OF up this] show ?case by (auto simp: growStep_def)
qed (simp add: growStep_refl)

lemma newValueLoop_in:
  assumes "closedValues S (mSlotIndex s) U"
  shows "set vs \<subseteq> U \<Longrightarrow> newValueLoop S s vs acc = Inr (x, h) \<Longrightarrow> fst acc = [] \<or> fst acc \<in> U - set (mVotes s) \<Longrightarrow>
    x = [] \<or> x \<in> U - set (mVotes s)"
proof (induction vs arbitrary: acc)
  case (Cons v vs)
  obtain nv nh where acc: "acc = (nv, nh)" by (cases acc)
  let ?y = "valueToNominate S v s"
  have "?y \<noteq> [] \<Longrightarrow> ?y \<in> U" using valueToNominate_in [OF assms, of v] Cons.prems(1) by simp
  then obtain acc' where "newValueLoop S s vs acc' = Inr (x, h)" "fst acc' = [] \<or> fst acc' \<in> U - set (mVotes s)"
    using Cons.prems(2,3) unfolding acc by (auto simp: Let_def split: if_splits)
  then show ?case using Cons.IH Cons.prems(1) by auto
qed simp

lemma takeLeaderVote_grow:
  assumes "closedValues S (mSlotIndex s) U" "set (applyAll (pledges st)) \<subseteq> U" "takeLeaderVote S st (m, s) = Inr (m', s')"
  shows "growStep S U s (m' \<and> \<not> m) s'"
proof -
  have new: "x \<in> U - set (mVotes s)" if "getNewValueFromNomination S (pledges st) s = Inr x" "x \<noteq> []" for x
    using that newValueLoop_in [OF assms(1,2), of "([], 0)"] by (auto simp: getNewValueFromNomination_def)
  show ?thesis
    using assms(3) growStep_refl [of S U s] growStep_vote [of _ U s S] new
    by (auto simp: takeLeaderVote_def slot_update growStep_def split: if_splits)
qed

lemma promoteAccepted_latest:
  "fold (promoteAccepted S) as (m, s) = (m', s') \<Longrightarrow> mLatestNominations s' = mLatestNominations s"
proof (induction as arbitrary: m s)
  case (Cons a as)
  obtain m1 s1 where 1: "promoteAccepted S a (m, s) = (m1, s1)" by (cases "promoteAccepted S a (m, s)")
  then have "mLatestNominations s1 = mLatestNominations s" by (auto simp: promoteAccepted_def split: if_splits)
  then show ?case using Cons.IH [of m1 s1] Cons.prems 1 by simp
qed simp

lemma nom_update_grow:
  assumes ok: "nomOk S s" and U: "closedValues S (mSlotIndex s) U" "set (applyAll (pledges st)) \<subseteq> U"
    and res: "nom_update S st s = Inr (m, n, s')"
  shows "growStep S U s m s'"
proof -
  obtain m1 s1 where 1: "fold (promoteVote S) (nomVotes (pledges st)) (False, s) = (m1, s1)" by fastforce
  obtain n1 s2 where 2: "fold (promoteAccepted S) (mAccepted s1) (False, s1) = (n1, s2)" by fastforce
  have 3: "takeLeaderVote S st (m1, s2) = Inr (m, s')"
    using res by (auto simp: nom_update_def 1 2)
  have up1: "growStep S U s m1 s1"
    using promoteVotes_grow [OF U(1) _ 1] U(2) by (auto simp: applyAll_def)
  have ok1: "nomOk S s1" using promoteVotes_update [OF ok 1] nomUpdateD by blast
  have same: "nomUpdate S s1 s2" "mVotes s2 = mVotes s1" "mAccepted s2 = mAccepted s1"
    using promoteAccepted_update [OF ok1 _ 2] by auto
  then have up2: "growStep S U s1 False s2"
    using promoteAccepted_latest [OF 2] by (simp add: growStep_def nomUpdate_def nomRun_fields(1) valuesIn_def)
  have idx: "mSlotIndex s2 = mSlotIndex s" using up1 up2 by (simp add: growStep_def)
  have "growStep S U s2 (m \<and> \<not> m1) s'"
    using U by (intro takeLeaderVote_grow [OF _ _ 3]) (simp_all add: idx)
  from growStep_trans [OF growStep_trans [OF up1 up2] this] show ?thesis by (auto simp: growStep_def)
qed

section \<open>Nomination ends\<close>

definition roomLeft :: "Value set \<Rightarrow> Slot \<Rightarrow> nat" where
  "roomLeft U s = 2 * card U - (card (set (mVotes s)) + card (set (mAccepted s)))"

lemma roomLeft_less:
  assumes "finite U" "grown s s'" "valuesIn U s'"
  shows "roomLeft U s' < roomLeft U s"
proof -
  have sub: "set (mVotes s) \<subseteq> set (mVotes s')" "set (mAccepted s) \<subseteq> set (mAccepted s')"
    using assms(2) by (auto simp: grown_def nomGrows_def)
  have "card (set (mVotes s)) < card (set (mVotes s')) \<or> card (set (mAccepted s)) < card (set (mAccepted s'))"
    using assms(2) sub by (auto simp: grown_def intro: psubset_card_mono)
  moreover have "card (set (mVotes s)) \<le> card (set (mVotes s'))" "card (set (mAccepted s)) \<le> card (set (mAccepted s'))"
    using sub by (auto intro: card_mono)
  moreover have "card (set (mVotes s')) \<le> card U" "card (set (mAccepted s')) \<le> card U"
    using assms(1,3) by (auto simp: valuesIn_def intro: card_mono)
  ultimately show ?thesis by (auto simp: roomLeft_def)
qed

lemma nom_record_fields:
  "mVotes (nom_recordEnvelope env s) = mVotes s" "mAccepted (nom_recordEnvelope env s) = mAccepted s"
  "mSlotIndex (nom_recordEnvelope env s) = mSlotIndex s"
  by (simp_all add: nom_recordEnvelope_def slot_update)

lemma nom_processEnvelope_returns:
  "finite U \<Longrightarrow> closedValues S (mSlotIndex s) U \<Longrightarrow> valuesIn U s \<Longrightarrow> set (applyAll (pledges (statement env))) \<subseteq> U \<Longrightarrow>
   nomReady S s \<Longrightarrow> acceptable S s env \<Longrightarrow> \<exists>res. nom_processEnvelope S env s = Some res"
proof (induction "roomLeft U s" arbitrary: s env rule: less_induct)
  case less
  define s1 where "s1 = nom_recordEnvelope env s"
  show ?case
  proof (cases "nom_isNewerStatementNode (nodeID (statement env)) (pledges (statement env)) s \<and>
      nom_isSane (statement env) \<and> mNominationStarted s1 \<and> (\<exists>n s2. nom_update S (statement env) s1 = Inr (True, n, s2))")
    case False
    then show ?thesis
      by (subst nom_processEnvelope.simps)
        (auto simp: Let_def s1_def [symmetric] split: sum.splits)
  next
    case True
    then obtain n s2 where up: "nom_update S (statement env) s1 = Inr (True, n, s2)" by blast
    have ready1: "nomReady S s1"
      unfolding s1_def by (rule nomination.R_keeps [OF less.prems(5) nomination.R_record [where A = "{}"]])
        (use less.prems True in auto)
    then have ok1: "nomOk S s1" by (simp add: nomReady_def)
    have grow: "growStep S U s1 True s2"
      by (rule nom_update_grow [OF ok1 _ _ up]) (use less.prems in \<open>simp_all add: s1_def nom_record_fields\<close>)
    have in2: "valuesIn U s2" using grow less.prems(3) by (simp add: growStep_def s1_def valuesIn_def nom_record_fields)
    have room: "roomLeft U s2 < roomLeft U s"
      using roomLeft_less [OF less.prems(1) _ in2, of s1] grow
      by (simp add: growStep_def roomLeft_def s1_def nom_record_fields)
    have ready2: "nomReady S s2" by (rule nomination.R_keeps [OF ready1 nomination.R_update [OF ready1 up, where A = "{}"]])
    have "\<exists>res. nom_processEnvelope S (nominationEnvelope S s2) s2 = Some res"
    proof (rule less.hyps [OF room less.prems(1) _ in2 _ ready2])
      show "closedValues S (mSlotIndex s2) U"
        using less.prems(2) grow by (simp add: growStep_def s1_def nom_record_fields)
      show "set (applyAll (pledges (statement (nominationEnvelope S s2)))) \<subseteq> U"
        using in2 by (simp add: applyAll_def valuesIn_def)
      show "acceptable S s2 (nominationEnvelope S s2)"
        by (rule nomination.own_acceptable [OF nomination.own_nomination [OF ready2]])
    qed
    then show ?thesis
      using True up by (subst nom_processEnvelope.simps) (auto simp: Let_def s1_def [symmetric])
  qed
qed

section \<open>Errors of nomination\<close>

lemma newValueLoop_error: "newValueLoop S s vs acc = Inl e \<Longrightarrow> e = DbgAbort"
  by (induction S s vs acc rule: newValueLoop.induct)
    (auto simp: Let_def bindR_Inl_iff hashValue_def dbgAssert_def split: if_splits)

lemma getNewValue_error: "getNewValueFromNomination S nom s = Inl e \<Longrightarrow> e = DbgAbort"
  by (auto simp: getNewValueFromNomination_def bindR_Inl_iff newValueLoop_error)

lemma nom_update_error: "nom_update S st s = Inl e \<Longrightarrow> e = DbgAbort"
  by (auto simp: nom_update_def takeLeaderVote_def bindR_Inl_iff split: prod.splits if_splits
      dest: getNewValue_error)

lemma bumpState_error: "bumpState S v force s = Inl e \<Longrightarrow> mCurrentMessageLevel s = 0 \<Longrightarrow> genuine e"
  using bumpState_sound [of s S v force] by (simp add: sound_def)

lemma candidates_error:
  "nom_newCandidates S n s = Inl e \<Longrightarrow> mCurrentMessageLevel s = 0 \<Longrightarrow> genuine e"
  by (auto simp: nom_newCandidates_def Let_def bindR_Inl_iff driverCall_def split: if_splits
      dest!: bumpState_error)

text \<open>After votes or accepted values were added, the node's own nomination is newer and sane.\<close>

lemma own_newer:
  assumes "nomReady S s" "nomReady S s'" "grown s s'" "mLatestNominations s' = mLatestNominations s"
  shows "nom_isNewerStatementNode (localNodeID S) (pledges (statement (nominationEnvelope S s'))) s'"
    "nom_isSane (statement (nominationEnvelope S s'))"
proof -
  have inv: "nomInv S s'" "nomOk S s" "nomInv S s" using assms(1,2) nomOkD(1) by (auto simp: nomReady_def)
  have own: "nomSorted (pledges (statement (nominationEnvelope S s')))"
    using inv(1) by (simp add: nomSorted_def nomInv_def)
  have less: "nomLess (pledges (statement e)) (pledges (statement (nominationEnvelope S s')))"
    "nomSorted (pledges (statement e))" if "map_of (mLatestNominations s) (localNodeID S) = Some e" for e
    using nomOkD(2) [OF inv(2) that] assms(3) inv(3) that
    by (auto simp: belowSlot_def grown_def nomGrows_def nomLess_def nomInv_def nom_isSane_iff)
  show "nom_isNewerStatementNode (localNodeID S) (pledges (statement (nominationEnvelope S s'))) s'"
    using less own unfolding nom_isNewerStatementNode_def assms(4)
    by (auto simp: nom_isNewerStatement_iff split: option.splits)
  show "nom_isSane (statement (nominationEnvelope S s'))"
    using own assms(3) by (auto simp: nom_isSane_iff applyAll_def grown_def nomGrows_def)
qed

text \<open>Processing a nomination fails only with an error of the ballot protocol or of an assertion.\<close>

definition processOk :: "SCPContext \<Rightarrow> SCPEnvelope \<Rightarrow> Slot \<Rightarrow> scp_error + (EnvelopeState \<times> Slot) \<Rightarrow> bool" where
  "processOk S env s res \<longleftrightarrow>
     (case res of
        Inl e \<Rightarrow> genuine e
      | Inr (r, s') \<Rightarrow> mCurrentMessageLevel s' = 0 \<and>
          (newAndSane env s \<longrightarrow> r = VALID))"

lemma run_level: "nominationRun S A s s' \<Longrightarrow> mCurrentMessageLevel s' = mCurrentMessageLevel s"
  by (simp add: nominationRun_def nodeRun_def)

lemma candidates_ok:
  assumes "nomReady S s" "mCurrentMessageLevel s = 0"
  shows "processOk S env t (nom_newCandidates S n s)"
proof (cases "nom_newCandidates S n s")
  case (Inl e)
  then show ?thesis using candidates_error assms(2) by (auto simp: processOk_def)
next
  case (Inr x)
  then obtain r s' where x: "x = (r, s')" "nom_newCandidates S n s = Inr (r, s')" by (cases x) auto
  have "r = VALID" using x(2) by (auto simp: nom_newCandidates_def Let_def split: if_splits)
  then show ?thesis
    using candidates_run [OF assms(1) x(2), of "{}"] run_level assms(2) by (simp add: processOk_def Inr x(1))
qed

lemma finish_valid: "\<exists>s'. finishNomination env (Inr (VALID, s)) = Inr s'"
  by (simp add: finishNomination_def Let_def)

lemma modified_ok:
  assumes up: "nom_update S st s1 = Inr (True, n, s2)" and s1: "nomReady S s1" "mCurrentMessageLevel s1 = 0"
    and p: "processOk S (nominationEnvelope S s2) s2 p"
      "\<And>r s'. p = Inr (r, s') \<Longrightarrow> nominationRun S {} s2 s'"
  shows "processOk S env t (bindR (finishNomination (nominationEnvelope S s2) p) (nom_newCandidates S n))"
proof -
  note run2 = nomination.R_update [OF s1(1) up, where A = "{}"]
  note s2 = nominationRun_ready [OF run2 s1(1)]
  have ok1: "nomOk S s1" using s1(1) by (simp add: nomReady_def)
  have "growStep S UNIV s1 True s2"
    by (rule nom_update_grow [OF ok1 _ _ up]) (simp_all add: closedValues_def)
  then have "grown s1 s2" "mLatestNominations s2 = mLatestNominations s1" by (auto simp: growStep_def)
  note own = own_newer [OF s1(1) s2 this]
  show ?thesis
  proof (cases p)
    case (Inl e)
    then show ?thesis using p(1) by (simp add: processOk_def finishNomination_def)
  next
    case (Inr x)
    then obtain s3 where p': "p = Inr (VALID, s3)"
      using p(1) own by (cases x) (auto simp: processOk_def newAndSane_def)
    obtain s4 where s4: "finishNomination (nominationEnvelope S s2) p = Inr s4"
      unfolding p' using finish_valid by blast
    note run3 = p(2) [OF p']
    note s3 = nominationRun_ready [OF run3 s2]
    have run4: "nominationRun S {} s3 s4"
      by (rule nomination.R_finish [OF s3 nomination.Own_keeps [OF s2 run3 nomination.own_nomination [OF s2]]])
        (use s4 p' in simp)
    have "mCurrentMessageLevel s4 = 0" using run2 run3 run4 s1(2) by (simp add: run_level)
    then show ?thesis using candidates_ok [OF nominationRun_ready [OF run4 s3]] s4 by simp
  qed
qed

lemma nom_processEnvelope_ok:
  assumes ret: "nom_processEnvelope S env s = Some res"
    and s: "nomReady S s" "mCurrentMessageLevel s = 0" "acceptable S s env"
  shows "processOk S env s res"
proof -
  let ?P = "\<lambda>S env s res. nomReady S s \<longrightarrow> mCurrentMessageLevel s = 0 \<longrightarrow> acceptable S s env \<longrightarrow>
    processOk S env s res \<and> (\<forall>r s'. res = Inr (r, s') \<longrightarrow> nominationRun S {} s s')"
  have "?P S env s res"
    using ret
  proof (rule nom_processEnvelope_induct [where P = ?P], intro impI)
    fix f S env s res
    assume IH: "\<And>S env s res. f S env s = Some res \<Longrightarrow> ?P S env s res"
      and level: "nomLevel f S env s = Some res"
      and s: "nomReady S s" "mCurrentMessageLevel s = 0" "acceptable S s env"
    let ?s1 = "nom_recordEnvelope env s"
    have run1: "nominationRun S {} s ?s1" if "newAndSane env s"
      using that nomination.R_record [OF s(1,3)] by (simp add: newAndSane_def)
    have s1: "nomReady S ?s1" "mCurrentMessageLevel ?s1 = 0" if "newAndSane env s"
      using nominationRun_ready [OF run1 [OF that] s(1)] run_level [OF run1 [OF that]] s(2) by simp_all
    from level show "processOk S env s res \<and> (\<forall>r s'. res = Inr (r, s') \<longrightarrow> nominationRun S {} s s')"
    proof (cases rule: nomLevel_cases)
      case (quiet n s2)
      note run2 = nomination.R_update [OF s1(1) [OF quiet(1)] quiet(2), where A = "{}"]
      have s2: "nomReady S s2" "mCurrentMessageLevel s2 = 0"
        using nominationRun_ready [OF run2 s1(1) [OF quiet(1)]] run_level [OF run2] s1(2) [OF quiet(1)] by simp_all
      then show ?thesis
        using candidates_ok [OF s2] candidates_run [OF s2(1)] run1 [OF quiet(1)] run2 nominationRun_trans
        unfolding quiet(3) by metis
    next
      case (emit n s2 p)
      note i1 = s1 [OF emit(1)]
      note run2 = nomination.R_update [OF i1(1) emit(2), where A = "{}"]
      have s2: "nomReady S s2" "mCurrentMessageLevel s2 = 0"
        using nominationRun_ready [OF run2 i1(1)] run_level [OF run2] i1(2) by simp_all
      have "acceptable S s2 (nominationEnvelope S s2)"
        by (rule nomination.own_acceptable [OF nomination.own_nomination [OF s2(1)]])
      then have p: "processOk S (nominationEnvelope S s2) s2 p"
          "\<And>r s'. p = Inr (r, s') \<Longrightarrow> nominationRun S {} s2 s'"
        using IH [OF emit(3)] s2 by blast+
      have "nominationRun S {} ?s1 s'" if "res = Inr (r, s')" for r s'
        by (rule nomination.modified_rel [OF emit(2) i1(1) _ trans [OF emit(4) [symmetric] that]]) (rule p(2))
      moreover have "processOk S env s res"
        unfolding emit(4) by (rule modified_ok [OF emit(2) i1 p(1)]) (rule p(2))
      ultimately show ?thesis using run1 [OF emit(1)] nominationRun_trans by blast
    qed (use s s1 run1 nominationRun_refl in \<open>auto simp: processOk_def dest!: nom_update_error\<close>)
  qed
  then show ?thesis using s by blast
qed

section \<open>Nominating\<close>

lemma leaderLoop_error:
  assumes "\<And>n e. prio n = Inl e \<Longrightarrow> e = DbgAbort"
  shows "leaderLoop prio ns acc = Inl e \<Longrightarrow> e = DbgAbort"
proof (induction ns arbitrary: acc)
  case (Cons n ns)
  then show ?case
    using assms [of n] by (cases acc) (auto simp: bindR_Inl_iff Let_def split: if_splits)
qed simp

lemma getNodePriority_error: "getNodePriority S n q s = Inl e \<Longrightarrow> e = DbgAbort"
  by (auto simp: getNodePriority_def hashNode_def Let_def bindR_Inl_iff dbgAssert_def split: if_splits)

lemma updateRoundLeaders_error: "updateRoundLeaders S s = Inl e \<Longrightarrow> e = DbgAbort"
  using leaderLoop_error [OF getNodePriority_error]
  by (auto simp: updateRoundLeaders_def Let_def bindR_Inl_iff dest: getNodePriority_error)

lemma leaderVotes_error: "leaderVotes S ls acc = Inl e \<Longrightarrow> e = DbgAbort"
  by (induction S ls acc rule: leaderVotes.induct)
    (auto simp: bindR_Inl_iff split: option.splits if_splits dest: getNewValue_error)

lemma nominateVotes_error: "nominateVotes S v pv s = Inl e \<Longrightarrow> e = DbgAbort"
  by (auto simp: nominateVotes_def Let_def bindR_Inl_iff split: if_splits
      dest: updateRoundLeaders_error leaderVotes_error)

lemma getNewValue_new: "getNewValueFromNomination S nom s = Inr x \<Longrightarrow> x \<noteq> [] \<Longrightarrow> x \<notin> set (mVotes s)"
  using newValueLoop_in [of S s UNIV "applyAll nom" "([], 0)" x]
  by (auto simp: getNewValueFromNomination_def closedValues_def)

lemma leaderVotes_grow:
  "leaderVotes S ls (v, u, s) = Inr (v', u', s') \<Longrightarrow> growStep S UNIV s (u' \<and> \<not> u) s'"
proof (induction ls arbitrary: v u s)
  case (Cons l ls)
  show ?case
  proof (cases "map_of (mLatestNominations s) l")
    case None
    then show ?thesis using Cons by simp
  next
    case (Some e)
    then obtain x where x: "getNewValueFromNomination S (pledges (statement e)) s = Inr x"
      "leaderVotes S ls (if x \<noteq> [] then (x, True, s\<lparr>mVotes := set_insert x (mVotes s)\<rparr>) else (x, u, s)) = Inr (v', u', s')"
      using Cons.prems by auto
    show ?thesis
    proof (cases "x = []")
      case False
      have "growStep S UNIV s True (s\<lparr>mVotes := set_insert x (mVotes s)\<rparr>)"
        using growStep_vote [OF UNIV_I getNewValue_new [OF x(1) False], of S "mDriverCalls s"] by simp
      from growStep_trans [OF this Cons.IH] x(2) False show ?thesis by (auto intro: growStep_weaken)
    qed (use x Cons.IH in simp)
  qed
qed (simp add: growStep_refl)

lemma nominateVotes_grow:
  assumes "nominateVotes S v pv s = Inr (u, s')"
  shows "growStep S UNIV s u s'"
proof -
  let ?s0 = "s\<lparr>mNominationStarted := True, mPreviousValue := pv, mRoundNumber := mRoundNumber s + 1\<rparr>"
  obtain s1 where s1: "updateRoundLeaders S ?s0 = Inr s1" using assms by (auto simp: nominateVotes_def)
  then obtain l where l: "s1 = ?s0\<lparr>mRoundLeaders := l\<rparr>" using updateRoundLeaders_fields by blast
  have up1: "growStep S UNIV s False s1" by (simp add: growStep_def l nomGrows_def valuesIn_def)
  obtain x s2 where x: "(if localNodeID S \<in> set (mRoundLeaders s1)
        then Inr (v, v \<notin> set (mVotes s1), s1\<lparr>mVotes := set_insert v (mVotes s1)\<rparr>)
        else leaderVotes S (mRoundLeaders s1) ([], False, s1)) = Inr (x, u, s2)" and
      s': "s' = driverCall (SetupTimer (mSlotIndex s2) NOMINATION_TIMER (computeTimeout (word_of_int (mRoundNumber s2)))
          (Some (NominateTimeout v pv))) (driverCall (NominatingValue (mSlotIndex s2) x) s2)"
    using assms s1 by (auto simp: nominateVotes_def Let_def)
  have "growStep S UNIV s1 (v \<notin> set (mVotes s1)) (s1\<lparr>mVotes := set_insert v (mVotes s1)\<rparr>)"
    by (auto simp: growStep_def grown_def nomGrows_def valuesIn_def)
  then have up2: "growStep S UNIV s1 u s2"
    using x leaderVotes_grow [of S _ "[]" False s1] by (auto split: if_splits)
  have "growStep S UNIV s2 False s'" by (simp add: s' growStep_def nomGrows_def valuesIn_def driverCall_def)
  from growStep_trans [OF growStep_trans [OF up1 up2] this] show ?thesis by simp
qed

lemma closure_finite:
  assumes "extractContract S i" "finite B"
  obtains U where "finite U" "closedValues S i U" "B \<subseteq> U"
  by (rule that [OF _ closedValues_closure [OF assms(1), of B]]) (use assms(2) in auto)

lemma emitNomination_returns:
  assumes "extractContract S (mSlotIndex s)" "nomReady S s"
  shows "\<exists>res. emitNomination S s = Some res"
proof -
  obtain U where U: "finite U" "closedValues S (mSlotIndex s) U" "set (mVotes s) \<union> set (mAccepted s) \<subseteq> U"
    by (rule closure_finite [OF assms(1), of "set (mVotes s) \<union> set (mAccepted s)"]) auto
  have "\<exists>res. nom_processEnvelope S (nominationEnvelope S s) s = Some res"
    using U assms(2) nomination.own_acceptable [OF nomination.own_nomination [OF assms(2)]]
    by (intro nom_processEnvelope_returns [of U]) (auto simp: valuesIn_def applyAll_def)
  then show ?thesis by (auto simp: emitNomination_def Let_def)
qed

lemma emitNomination_error:
  assumes "emitNomination S s' = Some (Inl e)" "nomReady S s" "nomReady S s'" "grown s s'"
    "mLatestNominations s' = mLatestNominations s" "mCurrentMessageLevel s' = 0"
  shows "genuine e"
proof -
  obtain p where p: "nom_processEnvelope S (nominationEnvelope S s') s' = Some p"
      "finishNomination (nominationEnvelope S s') p = Inl e"
    using assms(1) by (auto simp: emitNomination_def Let_def)
  have "newAndSane (nominationEnvelope S s') s'"
    using own_newer [OF assms(2-5)] by (simp add: newAndSane_def)
  moreover have "processOk S (nominationEnvelope S s') s' p"
    by (rule nom_processEnvelope_ok [OF p(1) assms(3,6) nomination.own_acceptable [OF nomination.own_nomination [OF assms(3)]]])
  ultimately show ?thesis
    using p(2) finish_valid [of "nominationEnvelope S s'"]
    by (cases p) (auto simp: processOk_def finishNomination_def Let_def split: if_splits)
qed

section \<open>Every input returns, and with what errors\<close>

lemma nom_nominate_total:
  assumes "extractContract S (mSlotIndex s)" "nomReady S s" "mCurrentMessageLevel s = 0"
  shows "\<exists>res. nom_nominate S v pv timedout s = Some res \<and> (\<forall>e. res = Inl e \<longrightarrow> genuine e)"
proof (cases "nominateVotes S v pv s")
  case (Inl e)
  then show ?thesis using nominateVotes_error [OF Inl] by (auto simp: nom_nominate_def)
next
  case (Inr x)
  then obtain u s1 where x: "nominateVotes S v pv s = Inr (u, s1)" "x = (u, s1)" by (cases x) auto
  note grow = nominateVotes_grow [OF x(1)]
  have "nomUpdate S s s1" using nominateVotes_update [OF _ x(1)] assms(2) by (simp add: nomReady_def)
  then have run: "nominationRun S {} s s1" by (rule nominationRun_update)
  have s1: "nomReady S s1" "mCurrentMessageLevel s1 = 0" "mSlotIndex s1 = mSlotIndex s"
    using nominationRun_ready [OF run assms(2)] run_level [OF run] assms(3) run by (simp_all add: nominationRun_def)
  obtain r where r: "emitNomination S s1 = Some r"
    using emitNomination_returns [OF _ s1(1)] assms(1) s1(3) by auto
  have "genuine e" if "u" "r = Inl e" for e
    by (rule emitNomination_error [OF _ assms(2) s1(1) _ _ s1(2)]) (use r that grow in \<open>simp_all add: growStep_def\<close>)
  then show ?thesis using r Inr x by (auto simp: nom_nominate_def bindR_Inl_iff)
qed

lemma receive_total:
  assumes "extractContract S (mSlotIndex s)" "nomReady S s" "mCurrentMessageLevel s = 0" "trustworthy S (Receive env) s"
  shows "\<exists>res. slot_processEnvelope S env False s = Some res \<and> (\<forall>e. res = Inl e \<longrightarrow> genuine e)"
proof (cases "isNominate (pledges (statement env))")
  case True
  then have "isNomination (statement env)" by (auto simp: isNomination_def split: SCPPledges.splits)
  then have acc: "acceptable S s env" using trustworthy_acceptable assms(2,4) by (auto simp: nomReady_def)
  let ?B = "set (mVotes s) \<union> set (mAccepted s) \<union> set (applyAll (pledges (statement env)))"
  obtain U where U: "finite U" "closedValues S (mSlotIndex s) U" "?B \<subseteq> U"
    by (rule closure_finite [OF assms(1), of ?B]) auto
  have "\<exists>res. nom_processEnvelope S env s = Some res"
    using U assms(2) acc by (intro nom_processEnvelope_returns [of U]) (auto simp: valuesIn_def)
  then show ?thesis
    using True nom_processEnvelope_ok [OF _ assms(2,3) acc] by (auto simp: slot_processEnvelope_def processOk_def)
next
  case False
  have "genuine e" if "processEnvelope S False env s = Inl e" for e
    using processEnvelope_sound [OF assms(3), of S False env] that by (simp add: sound_def)
  then show ?thesis using False by (auto simp: slot_processEnvelope_def)
qed

lemma slot_input_total:
  assumes "extractContract S i" "fullInv S i s" "trustworthy S inp s"
  shows "\<exists>res. slot_input S inp s = Some res \<and> (\<forall>e. res = Inl e \<longrightarrow> genuine e)"
proof -
  have s: "nomReady S s" "mCurrentMessageLevel s = 0" "extractContract S (mSlotIndex s)"
    using assms(1,2) by (auto simp: fullInv_def nomReady_def ready_def slotInv_def)
  note nominate = nom_nominate_total [OF s(3,1,2)]
  have abandon: "genuine e" if "abandonBallot S n s = Inl e" for n e
    using abandonBallot_sound [OF s(2), of S n] that by (simp add: sound_def)
  show ?thesis
  proof (cases inp)
    case (Receive env)
    then show ?thesis
      using receive_total [OF s(3,1,2)] assms(3) by (fastforce simp: dropResult_def bindR_Inl_iff)
  next
    case (Nominate v pv)
    then show ?thesis
      using nominate [of v pv False] by (auto simp: dropResult_def slot_nominate_def bindR_Inl_iff)
  next
    case (TimerFires cb)
    then show ?thesis
      using nominate [of _ _ True] abandon
      by (cases cb) (fastforce simp: slot_timer_def ballotProtocolTimerExpired_def slot_nominate_def bindR_Inl_iff)+
  qed (use abandon bumpState_error [OF _ s(2)] in
      \<open>auto simp: dropResult_def slot_abandonBallot_def slot_bumpState_def bindR_Inl_iff\<close>)
qed

end
