(* ===== verification/TransitiveQuorum.thy ===== *)
theory TransitiveQuorum
  imports SCP
begin

text \<open>
  The search for a node in the transitive quorum of the local node (\<^verbatim>\<open>LocalNode::isNodeInQuorum\<close>) ends,
  whatever element the unordered work set yields first, and its answer is the one that the reachability
  relation of the quorum sets defines.
\<close>

section \<open>Reachability\<close>

definition mentions ::
  "(SCPStatement \<Rightarrow> SCPQuorumSet option) \<Rightarrow> StatementMap \<Rightarrow> NodeID \<Rightarrow> NodeID \<Rightarrow> bool" where
  "mentions qfun m c n \<longleftrightarrow>
     (\<exists>sts st q. map_of m c = Some sts \<and> st \<in> set sts \<and> qfun st = Some q \<and> n \<in> set (forAllNodes q))"

definition knownNode :: "(SCPStatement \<Rightarrow> SCPQuorumSet option) \<Rightarrow> StatementMap \<Rightarrow> NodeID \<Rightarrow> bool" where
  "knownNode qfun m c \<longleftrightarrow> (\<exists>sts. map_of m c = Some sts \<and> (\<forall>st \<in> set sts. qfun st \<noteq> None))"

abbreviation inQuorum ::
  "(SCPStatement \<Rightarrow> SCPQuorumSet option) \<Rightarrow> StatementMap \<Rightarrow> NodeID \<Rightarrow> NodeID \<Rightarrow> bool" where
  "inQuorum qfun m \<equiv> (mentions qfun m)\<^sup>*\<^sup>*"

section \<open>One step of the search\<close>

lemma explore_fold:
  "set_invar (backlog q) \<Longrightarrow>
   visited (fold (exploreStatement qfun) sts q) = visited q \<and>
   foundNode (fold (exploreStatement qfun) sts q) = foundNode q \<and>
   set_invar (backlog (fold (exploreStatement qfun) sts q)) \<and>
   set (backlog (fold (exploreStatement qfun) sts q)) =
     set (backlog q) \<union> {n. (\<exists>st \<in> set sts. \<exists>r. qfun st = Some r \<and> n \<in> set (forAllNodes r)) \<and> n \<notin> set (visited q)} \<and>
   searchResult (fold (exploreStatement qfun) sts q) =
     (if \<exists>st \<in> set sts. qfun st = None then TB_MAYBE else searchResult q)"
proof (induction sts arbitrary: q)
  case (Cons st sts)
  let ?q = "exploreStatement qfun st q"
  have "set_invar (backlog ?q)" using Cons.prems by (simp add: exploreStatement_def split: option.splits)
  from Cons.IH [OF this] show ?case
    by (cases "qfun st") (auto simp: exploreStatement_def)
qed simp

text \<open>The invariant: everything found so far is reachable, what has been visited has been expanded.\<close>

definition searchInv ::
  "NodeID \<Rightarrow> NodeID \<Rightarrow> (SCPStatement \<Rightarrow> SCPQuorumSet option) \<Rightarrow> StatementMap \<Rightarrow> QuorumSearch \<Rightarrow> bool" where
  "searchInv start node qfun m q \<longleftrightarrow>
     set_invar (backlog q) \<and> set (backlog q) \<inter> set (visited q) = {} \<and>
     (\<forall>x \<in> set (backlog q) \<union> set (visited q). inQuorum qfun m start x) \<and>
     start \<in> set (backlog q) \<union> set (visited q) \<and> node \<notin> set (visited q) \<and>
     (\<forall>c \<in> set (visited q). \<forall>n. mentions qfun m c n \<longrightarrow> n \<in> set (backlog q) \<union> set (visited q)) \<and>
     searchResult q = (if \<forall>c \<in> set (visited q). knownNode qfun m c then TB_FALSE else TB_MAYBE) \<and>
     (foundNode q \<longrightarrow> inQuorum qfun m start node)"

lemma searchInv_expand:
  assumes inv: "searchInv start node qfun m q" and c: "c \<in> set (backlog q)" "c \<noteq> node"
    and q1: "q1 = q\<lparr>backlog := remove1 c (backlog q), visited := set_insert c (visited q)\<rparr>"
    and q2: "visited q2 = visited q1" "foundNode q2 = foundNode q1" "set_invar (backlog q2)"
      "set (backlog q2) = set (backlog q1) \<union> {n. mentions qfun m c n \<and> n \<notin> set (visited q1)}"
      "searchResult q2 = (if knownNode qfun m c then searchResult q else TB_MAYBE)"
  shows "searchInv start node qfun m q2"
proof -
  have dist: "distinct (backlog q)" using inv by (simp add: searchInv_def set_invar_iff)
  have b1: "set (backlog q1) = set (backlog q) - {c}" "set (visited q1) = insert c (set (visited q))"
    using dist by (simp_all add: q1)
  have all: "set (backlog q2) \<union> set (visited q2) = set (backlog q) \<union> set (visited q) \<union> {n. mentions qfun m c n}"
    using c(1) unfolding q2(1,4) b1 by blast
  have reach: "inQuorum qfun m start x" if "x \<in> set (backlog q) \<union> set (visited q)" for x
    using inv that by (simp add: searchInv_def)
  have new: "inQuorum qfun m start n" if "mentions qfun m c n" for n
    using reach [of c] c(1) that by (auto intro: rtranclp.rtrancl_into_rtrancl)
  have "\<forall>x \<in> set (backlog q2) \<union> set (visited q2). inQuorum qfun m start x"
    unfolding all using reach new by blast
  moreover have "\<forall>d \<in> set (visited q2). \<forall>n. mentions qfun m d n \<longrightarrow> n \<in> set (backlog q2) \<union> set (visited q2)"
    unfolding all unfolding q2(1) b1 using inv by (auto simp: searchInv_def)
  moreover have "set (backlog q2) \<inter> set (visited q2) = {}"
    using inv unfolding q2(1,4) b1 by (auto simp: searchInv_def)
  moreover have "start \<in> set (backlog q2) \<union> set (visited q2)" unfolding all using inv by (auto simp: searchInv_def)
  moreover have "node \<notin> set (visited q2)" using inv c(2) unfolding q2(1) b1 by (auto simp: searchInv_def)
  moreover have "searchResult q2 = (if \<forall>d \<in> set (visited q2). knownNode qfun m d then TB_FALSE else TB_MAYBE)"
    using inv unfolding q2(1,5) b1 by (auto simp: searchInv_def)
  moreover have "foundNode q2 \<longrightarrow> inQuorum qfun m start node" using inv by (simp add: q2(2) q1 searchInv_def)
  ultimately show ?thesis using q2(3) unfolding searchInv_def by blast
qed

lemma searchStep_cases:
  assumes inv: "searchInv start node qfun m q" and pick: "pick (backlog q) \<in> set (backlog q)"
  shows "searchInv start node qfun m (searchStep pick node qfun m q)"
    "foundNode (searchStep pick node qfun m q) \<or> set (visited q) \<subset> set (visited (searchStep pick node qfun m q))"
proof -
  define c where "c = pick (backlog q)"
  have c: "c \<in> set (backlog q)" using pick by (simp add: c_def)
  have "searchInv start node qfun m (searchStep pick node qfun m q) \<and>
    (foundNode (searchStep pick node qfun m q) \<or> set (visited q) \<subset> set (visited (searchStep pick node qfun m q)))"
  proof (cases "c = node")
    case True
    have "inQuorum qfun m start node" using inv c True by (auto simp: searchInv_def)
    then show ?thesis using inv by (simp add: searchStep_def c_def [symmetric] True searchInv_def)
  next
    case False
    define q1 where "q1 = q\<lparr>backlog := remove1 c (backlog q), visited := set_insert c (visited q)\<rparr>"
    define q2 where "q2 = (case map_of m c of None \<Rightarrow> q1\<lparr>searchResult := TB_MAYBE\<rparr>
      | Some sts \<Rightarrow> fold (exploreStatement qfun) sts q1)"
    have step: "searchStep pick node qfun m q = q2"
      by (simp add: searchStep_def c_def [symmetric] False q2_def q1_def Let_def split: option.split)
    have inv1: "set_invar (backlog q1)"
      using inv by (simp add: searchInv_def q1_def set_invar_iff sorted_remove1)
    have "visited q2 = visited q1 \<and> foundNode q2 = foundNode q1 \<and> set_invar (backlog q2) \<and>
      set (backlog q2) = set (backlog q1) \<union> {n. mentions qfun m c n \<and> n \<notin> set (visited q1)} \<and>
      searchResult q2 = (if knownNode qfun m c then searchResult q else TB_MAYBE)"
    proof (cases "map_of m c")
      case None
      then show ?thesis using inv1 by (simp add: q2_def mentions_def knownNode_def)
    next
      case (Some sts)
      have "searchResult q1 = searchResult q" by (simp add: q1_def)
      then show ?thesis
        using explore_fold [OF inv1, of qfun sts] Some by (auto simp: q2_def mentions_def knownNode_def)
    qed
    then have "searchInv start node qfun m q2" "visited q2 = visited q1"
      using searchInv_expand [OF inv c False q1_def] by blast+
    moreover have "set (visited q) \<subset> set (visited q1)"
      using inv c by (auto simp: q1_def searchInv_def)
    ultimately show ?thesis unfolding step by simp
  qed
  then show "searchInv start node qfun m (searchStep pick node qfun m q)"
    "foundNode (searchStep pick node qfun m q) \<or> set (visited q) \<subset> set (visited (searchStep pick node qfun m q))"
    by blast+
qed

section \<open>The search\<close>

definition startSearch :: "NodeID \<Rightarrow> QuorumSearch" where
  "startSearch n = \<lparr>backlog = [n], visited = [], searchResult = TB_FALSE, foundNode = False\<rparr>"

definition picksMember :: "(NodeID list \<Rightarrow> NodeID) \<Rightarrow> bool" where
  "picksMember pick \<longleftrightarrow> (\<forall>xs. xs \<noteq> [] \<longrightarrow> pick xs \<in> set xs)"

definition searchRank :: "QuorumSearch \<Rightarrow> nat" where
  "searchRank q = card (- set (visited q)) + (if foundNode q then 0 else 1)"

lemma searchInv_start: "searchInv start node qfun m (startSearch start)"
  by (simp add: searchInv_def startSearch_def set_invar_iff)

lemma searchRank_step:
  assumes inv: "searchInv start node qfun m q" and pick: "pick (backlog q) \<in> set (backlog q)" "\<not> foundNode q"
  shows "searchRank (searchStep pick node qfun m q) < searchRank q"
proof -
  let ?q = "searchStep pick node qfun m q"
  have sub: "set (visited q) \<subseteq> set (visited ?q)"
  proof (cases "pick (backlog q) = node")
    case True
    then show ?thesis by (simp add: searchStep_def)
  next
    case False
    have "set_invar (remove1 (pick (backlog q)) (backlog q))"
      using inv by (simp add: searchInv_def set_invar_iff sorted_remove1)
    then show ?thesis
      by (auto simp: searchStep_def Let_def False explore_fold split: option.split)
  qed
  from searchStep_cases(2) [of start node qfun m q pick, OF inv pick(1)] show ?thesis
  proof
    assume "foundNode ?q"
    moreover have "card (- set (visited ?q)) \<le> card (- set (visited q))"
      using sub by (intro card_mono) auto
    ultimately show ?thesis using pick(2) by (simp add: searchRank_def)
  next
    assume "set (visited q) \<subset> set (visited ?q)"
    then have "card (- set (visited ?q)) < card (- set (visited q))" by (intro psubset_card_mono) auto
    then show ?thesis using pick(2) by (simp add: searchRank_def)
  qed
qed

lemma searchInv_result:
  assumes inv: "searchInv start node qfun m q" and stop: "backlog q = [] \<or> foundNode q"
  shows "(if foundNode q then TB_TRUE else searchResult q) =
    (if inQuorum qfun m start node then TB_TRUE
     else if \<forall>c. inQuorum qfun m start c \<longrightarrow> knownNode qfun m c then TB_FALSE else TB_MAYBE)"
proof (cases "foundNode q")
  case True
  then show ?thesis using inv by (simp add: searchInv_def)
next
  case False
  then have empty: "backlog q = []" using stop by blast
  have "x \<in> set (visited q)" if "inQuorum qfun m start x" for x
    using that by (induction rule: rtranclp_induct) (use inv empty in \<open>auto simp: searchInv_def\<close>)
  moreover have "inQuorum qfun m start x" if "x \<in> set (visited q)" for x
    using inv that by (simp add: searchInv_def)
  ultimately have visited: "inQuorum qfun m start x \<longleftrightarrow> x \<in> set (visited q)" for x by blast
  have "node \<notin> set (visited q)"
    "searchResult q = (if \<forall>c \<in> set (visited q). knownNode qfun m c then TB_FALSE else TB_MAYBE)"
    using inv unfolding searchInv_def by blast+
  then show ?thesis by (simp add: visited False Ball_def)
qed

lemma isNodeInQuorum_search:
  assumes pick: "picksMember pick"
  shows "ln_isNodeInQuorum pick mNodeID node qfun m =
    Some (if inQuorum qfun m mNodeID node then TB_TRUE
          else if \<forall>c. inQuorum qfun m mNodeID c \<longrightarrow> knownNode qfun m c then TB_FALSE else TB_MAYBE)"
proof -
  let ?b = "\<lambda>q. backlog q \<noteq> [] \<and> \<not> foundNode q" and ?c = "searchStep pick node qfun m"
    and ?P = "searchInv mNodeID node qfun m"
  have keep: "?P (?c q) \<and> searchRank (?c q) < searchRank q" if "?P q" "?b q" for q
    using searchStep_cases(1) [OF that(1), of pick] searchRank_step [OF that(1), of pick] that(2) pick
    by (simp only: picksMember_def) blast
  obtain q where q: "while_option ?b ?c (startSearch mNodeID) = Some q"
    using measure_while_option_Some [of ?P ?b ?c searchRank] keep searchInv_start by blast
  have inv: "?P q" using q searchInv_start by (rule while_option_rule [where P = ?P, rotated]) (use keep in blast)
  have stop: "backlog q = [] \<or> foundNode q" using while_option_stop [OF q] by blast
  show ?thesis using q searchInv_result [OF inv stop]
    by (simp add: ln_isNodeInQuorum_def startSearch_def)
qed

section \<open>The answer of a slot and of the node\<close>

text \<open>The statements of a node, in the order in which the slot recorded them.\<close>

lemma statements_fold:
  "map_invar m \<Longrightarrow>
   map_of (fold (\<lambda>h. addStatement (fst h)) hs m) n =
     (let l = (case map_of m n of Some l \<Rightarrow> l | None \<Rightarrow> []) @ filter (\<lambda>st. nodeID st = n) (map fst hs)
      in if map_of m n = None \<and> l = [] then None else Some l)"
proof (induction hs arbitrary: m)
  case (Cons h hs)
  let ?m = "addStatement (fst h) m"
  have "map_invar ?m" using Cons.prems by (simp add: addStatement_def map_put_invar)
  from Cons.IH [OF this] show ?case
    using Cons.prems by (auto simp: addStatement_def Let_def map_of_map_put split: option.splits if_splits)
qed (simp split: option.split)

lemma statementsByNode_iff:
  "map_of (statementsByNode s) n =
     (case filter (\<lambda>st. nodeID st = n) (map fst (mStatementsHistory s)) of [] \<Rightarrow> None | l \<Rightarrow> Some l)"
  by (simp add: statementsByNode_def statements_fold Let_def map_invar_def split: list.split)

lemma inQuorumLoop_total:
  "(\<And>i s. (i, s) \<in> set m \<Longrightarrow> f s \<noteq> None) \<Longrightarrow> inQuorumLoop f m r \<noteq> None"
  by (induction m arbitrary: r) (fastforce simp: split: bind_split)+

end
