(* ===== verification/SlotMap.thy ===== *)
theory SlotMap
  imports SlotRuns SCP
begin

text \<open>
  The SCP object of a node holds one slot per index. An operation of the object is an operation of one slot and leaves
  every other slot alone, so a slot of the object depends only on the calls that concern it; with the quorum set
  unchanged and no restored state it is a reachable slot in the sense of \<open>SlotRuns\<close>. Purging drops exactly the slots
  below the bound.
\<close>

section \<open>The calls of the application\<close>

text \<open>The operations of \<^verbatim>\<open>SCP.h\<close> that change the object, and the timers of its slots.\<close>

datatype SCPCall =
    CallReceiveEnvelope SCPEnvelope
  | CallNominate u64 Value Value
  | CallStopNomination u64
  | CallUpdateLocalQuorumSet SCPQuorumSet
  | CallPurgeSlots u64
  | CallSetStateFromEnvelope u64 SCPEnvelope
  | SlotTimer u64 TimerCallback

text \<open>A callback holds the slot that set the timer. The slots of the object are those in its map: the timer of a slot
  that has been purged acts on a slot which is no longer one of them.\<close>

definition scp_timer :: "u64 \<Rightarrow> TimerCallback \<Rightarrow> SCP \<Rightarrow> (scp_error + SCP) option" where
  "scp_timer i cb scp =
     (case map_of (mKnownSlots scp) i of
        None \<Rightarrow> Some (Inr scp)
      | Some s \<Rightarrow> map_option (\<lambda>r. bindR r (\<lambda>s1. Inr (putSlot i s1 scp))) (slot_timer (mContext scp) cb s))"

fun scp_call :: "(SCPQuorumSet \<Rightarrow> Hash) \<Rightarrow> SCPCall \<Rightarrow> SCP \<Rightarrow> (scp_error + SCP) option" where
  "scp_call h (CallReceiveEnvelope env) scp = dropResult (receiveEnvelope env scp)"
| "scp_call h (CallNominate i v pv) scp = dropResult (nominate i v pv scp)"
| "scp_call h (CallStopNomination i) scp = Some (Inr (scp_stopNomination i scp))"
| "scp_call h (CallUpdateLocalQuorumSet q) scp = Some (Inr (updateLocalQuorumSet h q scp))"
| "scp_call h (CallPurgeSlots b) scp = Some (Inr (purgeSlots b scp))"
| "scp_call h (CallSetStateFromEnvelope i env) scp = dropResult (scp_setStateFromEnvelope i env scp)"
| "scp_call h (SlotTimer i cb) scp = scp_timer i cb scp"

fun scp_calls :: "(SCPQuorumSet \<Rightarrow> Hash) \<Rightarrow> SCPCall list \<Rightarrow> SCP \<Rightarrow> (scp_error + SCP) option" where
  "scp_calls h [] scp = Some (Inr scp)"
| "scp_calls h (c # cs) scp =
     (case scp_call h c scp of Some (Inr scp') \<Rightarrow> scp_calls h cs scp' | r \<Rightarrow> r)"

text \<open>The calls that concern the slot of an index.\<close>

fun concerns :: "u64 \<Rightarrow> SCPCall \<Rightarrow> bool" where
  "concerns i (CallReceiveEnvelope env) \<longleftrightarrow> slotIndex (statement env) = i"
| "concerns i (CallNominate j v pv) \<longleftrightarrow> j = i"
| "concerns i (CallStopNomination j) \<longleftrightarrow> j = i"
| "concerns i (CallUpdateLocalQuorumSet q) \<longleftrightarrow> True"
| "concerns i (CallPurgeSlots b) \<longleftrightarrow> i < b"
| "concerns i (CallSetStateFromEnvelope j env) \<longleftrightarrow> j = i"
| "concerns i (SlotTimer j cb) \<longleftrightarrow> j = i"

section \<open>Well-formed objects\<close>

definition scpInv :: "SCP \<Rightarrow> bool" where
  "scpInv scp \<longleftrightarrow> map_invar (mKnownSlots scp)"

text \<open>What a client sees at an index: the slot, or the one that would be created.\<close>

definition slotAt :: "SCP \<Rightarrow> u64 \<Rightarrow> Slot" where
  "slotAt scp i = (case map_of (mKnownSlots scp) i of Some s \<Rightarrow> s | None \<Rightarrow> newSlot (mContext scp) i)"

lemma onSlot_iff:
  assumes "scpInv scp"
  shows "onSlot i f scp = Some (Inr (x, scp')) \<longleftrightarrow>
    (\<exists>s. f (mContext scp) (slotAt scp i) = Some (Inr (x, s)) \<and> scpInv scp' \<and> mContext scp' = mContext scp \<and>
         scp' = scp\<lparr>mKnownSlots := map_put i s (mKnownSlots (snd (getSlot i True scp)))\<rparr>)"
  using assms
  by (cases "map_of (mKnownSlots scp) i")
    (auto simp: onSlot_def getSlot_def slotAt_def putSlot_def Let_def scpInv_def map_put_invar)

lemma onSlot_slots:
  assumes "scpInv scp" "onSlot i f scp = Some (Inr (x, scp'))"
  shows "scpInv scp'" "mContext scp' = mContext scp"
    "\<exists>s. f (mContext scp) (slotAt scp i) = Some (Inr (x, s)) \<and>
         map_of (mKnownSlots scp') = (map_of (mKnownSlots scp))(i \<mapsto> s)"
proof -
  obtain s where s: "f (mContext scp) (slotAt scp i) = Some (Inr (x, s))" "scpInv scp'" "mContext scp' = mContext scp"
    "scp' = scp\<lparr>mKnownSlots := map_put i s (mKnownSlots (snd (getSlot i True scp)))\<rparr>"
    using assms by (auto simp: onSlot_iff)
  have known: "map_invar (mKnownSlots (snd (getSlot i True scp))) \<and>
    (map_of (mKnownSlots (snd (getSlot i True scp))))(i \<mapsto> s) = (map_of (mKnownSlots scp))(i \<mapsto> s)"
    using assms(1)
    by (cases "map_of (mKnownSlots scp) i")
      (auto simp: getSlot_def Let_def scpInv_def map_put_invar map_of_map_put fun_eq_iff)
  then show "scpInv scp'" "mContext scp' = mContext scp"
    "\<exists>s. f (mContext scp) (slotAt scp i) = Some (Inr (x, s)) \<and>
         map_of (mKnownSlots scp') = (map_of (mKnownSlots scp))(i \<mapsto> s)"
    using s by (auto simp: map_of_map_put)
qed

lemma purge_slots:
  "mKnownSlots (purgeSlots b scp) = filter (\<lambda>(i, s). \<not> i < b) (mKnownSlots scp)"
proof -
  have "purgeLoop b m = filter (\<lambda>(i, s). \<not> i < b) m" for m
    by (induction b m rule: purgeLoop.induct) auto
  then show ?thesis by (simp add: purgeSlots_def)
qed

lemma purge_map:
  "map_of (mKnownSlots (purgeSlots b scp)) i = (if i < b then None else map_of (mKnownSlots scp) i)"
  using map_of_map_erase_if [of "\<lambda>i. i < b" "mKnownSlots scp" i]
  by (simp add: purge_slots map_erase_if_def)

lemma purge_inv: "scpInv scp \<Longrightarrow> scpInv (purgeSlots b scp)"
  using map_erase_if_invar [of "mKnownSlots scp" "\<lambda>i. i < b"]
  by (simp add: scpInv_def purge_slots map_erase_if_def)

lemma stopNomination_slots:
  assumes "scpInv scp"
  shows "scpInv (scp_stopNomination i scp)" "mContext (scp_stopNomination i scp) = mContext scp"
    "map_of (mKnownSlots (scp_stopNomination i scp)) =
       (case map_of (mKnownSlots scp) i of None \<Rightarrow> map_of (mKnownSlots scp)
        | Some s \<Rightarrow> (map_of (mKnownSlots scp))(i \<mapsto> stopNomination s))"
  using assms
  by (auto simp: scp_stopNomination_def getSlot_def putSlot_def scpInv_def map_put_invar map_of_map_put
      split: option.split)

lemma sorted_keys:
  "scpInv scp \<Longrightarrow> sorted (map fst (mKnownSlots scp)) \<and> distinct (map fst (mKnownSlots scp))"
  by (simp add: scpInv_def map_invar_def strict_sorted_iff)

lemma sorted_Min_Max:
  fixes xs :: "'a::linorder list"
  shows "sorted xs \<Longrightarrow> xs \<noteq> [] \<Longrightarrow> Min (set xs) = hd xs \<and> Max (set xs) = last xs"
proof (induction xs)
  case (Cons x xs)
  show ?case
  proof (cases "xs = []")
    case False
    have "\<forall>y \<in> set xs. x \<le> y" using Cons.prems by simp
    then have "x \<le> Min (set xs)" "x \<le> Max (set xs)" using False Max_ge [of "set xs" "hd xs"] by force+
    then show ?thesis using Cons False by simp
  qed simp
qed simp

lemma low_high_index:
  assumes "scpInv scp" "mKnownSlots scp \<noteq> []"
  shows "getLowSlotIndex scp = Inr (Min (dom (map_of (mKnownSlots scp))))"
    "getHighSlotIndex scp = Inr (Max (dom (map_of (mKnownSlots scp))))"
proof -
  let ?k = "map fst (mKnownSlots scp)"
  have k: "sorted ?k" "?k \<noteq> []" "dom (map_of (mKnownSlots scp)) = set ?k"
    using sorted_keys [OF assms(1)] assms(2) by (simp_all add: dom_map_of_conv_image_fst)
  have "Min (set ?k) = hd ?k" "Max (set ?k) = last ?k" using sorted_Min_Max [OF k(1,2)] by simp_all
  then show "getLowSlotIndex scp = Inr (Min (dom (map_of (mKnownSlots scp))))"
    "getHighSlotIndex scp = Inr (Max (dom (map_of (mKnownSlots scp))))"
    using assms(2)
    by (simp_all add: k(3) getLowSlotIndex_def getHighSlotIndex_def scp_empty_def dbgAssert_def hd_map last_map)
qed

section \<open>Slots do not interfere\<close>

text \<open>Two objects that look the same to the slot of an index.\<close>

definition agree :: "u64 \<Rightarrow> SCP \<Rightarrow> SCP \<Rightarrow> bool" where
  "agree i a b \<longleftrightarrow> scpInv a \<and> scpInv b \<and> mContext a = mContext b \<and>
     map_of (mKnownSlots a) i = map_of (mKnownSlots b) i"

lemma agree_slotAt: "agree i a b \<Longrightarrow> slotAt a i = slotAt b i"
  by (auto simp: agree_def slotAt_def split: option.split)

lemma onSlot_agree:
  assumes "agree i a b" "onSlot i f a = Some (Inr (x, a'))"
  shows "\<exists>b'. onSlot i f b = Some (Inr (x, b')) \<and> agree i a' b'"
proof -
  have inv: "scpInv a" "scpInv b" "mContext a = mContext b" using assms(1) by (simp_all add: agree_def)
  obtain s where s: "f (mContext a) (slotAt a i) = Some (Inr (x, s))" "map_of (mKnownSlots a') i = Some s"
    using onSlot_slots(3) [OF inv(1) assms(2)] by auto
  let ?b = "b\<lparr>mKnownSlots := map_put i s (mKnownSlots (snd (getSlot i True b)))\<rparr>"
  have "scpInv ?b"
    using inv(2) by (cases "map_of (mKnownSlots b) i") (auto simp: getSlot_def Let_def scpInv_def map_put_invar)
  then have b: "onSlot i f b = Some (Inr (x, ?b))"
    using s(1) agree_slotAt [OF assms(1)] inv(3) by (simp add: onSlot_iff [OF inv(2)])
  have "map_of (mKnownSlots ?b) i = Some s"
    using onSlot_slots(3) [OF inv(2) b] s(1) agree_slotAt [OF assms(1)] inv(3) by auto
  then have "agree i a' ?b"
    using onSlot_slots(1,2) [OF inv(1) assms(2)] onSlot_slots(1,2) [OF inv(2) b] s(2) inv(3) by (simp add: agree_def)
  with b show ?thesis by blast
qed

lemma onSlot_frame:
  assumes "agree i a b" "onSlot j f a = Some (Inr (x, a'))" "i \<noteq> j"
  shows "agree i a' b"
proof -
  have "scpInv a" using assms(1) by (simp add: agree_def)
  from onSlot_slots [OF this assms(2)] show ?thesis using assms(1,3) by (auto simp: agree_def)
qed

lemma timer_slots:
  assumes "scpInv scp" "scp_timer i cb scp = Some (Inr scp')"
  shows "scpInv scp'" "mContext scp' = mContext scp"
    "case map_of (mKnownSlots scp) i of None \<Rightarrow> scp' = scp
     | Some s \<Rightarrow> \<exists>s'. slot_timer (mContext scp) cb s = Some (Inr s') \<and>
         map_of (mKnownSlots scp') = (map_of (mKnownSlots scp))(i \<mapsto> s')"
  using assms
  by (auto simp: scp_timer_def putSlot_def scpInv_def map_put_invar map_of_map_put split: option.splits)

lemma timer_agree:
  assumes "agree i a b" "scp_timer i cb a = Some (Inr a')"
  shows "\<exists>b'. scp_timer i cb b = Some (Inr b') \<and> agree i a' b'"
  using assms
  by (cases "map_of (mKnownSlots b) i")
    (auto simp: agree_def scp_timer_def putSlot_def scpInv_def map_put_invar map_of_map_put)

lemma update_agree: "agree i a b \<Longrightarrow> agree i (updateLocalQuorumSet h q a) (updateLocalQuorumSet h q b)"
  by (simp add: agree_def updateLocalQuorumSet_def scpInv_def)

lemma purge_agree: "agree i a b \<Longrightarrow> agree i (purgeSlots m a) (purgeSlots m b)"
  by (auto simp: agree_def purge_inv purge_map) (simp add: purgeSlots_def)

lemma stop_agree: "agree i a b \<Longrightarrow> agree i (scp_stopNomination i a) (scp_stopNomination i b)"
  by (auto simp: agree_def stopNomination_slots split: option.split)

lemma call_agree:
  assumes "agree i a b" "concerns i c" "scp_call h c a = Some (Inr a')"
  shows "\<exists>b'. scp_call h c b = Some (Inr b') \<and> agree i a' b'"
proof -
  have ctx: "mContext b = mContext a" using assms(1) by (simp add: agree_def)
  show ?thesis
  proof (cases c)
    case (CallReceiveEnvelope env)
    then have i: "i = slotIndex (statement env)" using assms(2) by simp
    show ?thesis using assms(1,3) ctx unfolding CallReceiveEnvelope i
      by (auto simp: dropResult_iff receiveEnvelope_def split: if_splits dest!: onSlot_agree [OF assms(1) [unfolded i]])
  next
    case (CallNominate j v pv)
    then show ?thesis using assms ctx
      by (auto simp: dropResult_iff nominate_def split: if_splits dest!: onSlot_agree [OF assms(1)])
  next
    case (CallSetStateFromEnvelope j env)
    then show ?thesis using assms ctx
      by (auto simp: dropResult_iff scp_setStateFromEnvelope_def split: if_splits dest!: onSlot_agree [OF assms(1)])
  next
    case (SlotTimer j cb)
    then show ?thesis using assms timer_agree by auto
  qed (use assms update_agree purge_agree stop_agree in auto)
qed

lemma call_frame:
  assumes "agree i a b" "\<not> concerns i c" "scp_call h c a = Some (Inr a')"
  shows "agree i a' b"
proof (cases c)
  case (CallReceiveEnvelope env)
  then show ?thesis using assms
    by (auto simp: dropResult_iff receiveEnvelope_def split: if_splits intro: onSlot_frame [OF assms(1)])
next
  case (CallNominate j v pv)
  then show ?thesis using assms
    by (auto simp: dropResult_iff nominate_def split: if_splits intro: onSlot_frame [OF assms(1)])
next
  case (CallStopNomination j)
  then show ?thesis using assms by (auto simp: agree_def stopNomination_slots split: option.splits)
next
  case (CallPurgeSlots m)
  then show ?thesis using assms by (auto simp: agree_def purge_inv purge_map) (simp add: purgeSlots_def)
next
  case (CallSetStateFromEnvelope j env)
  then show ?thesis using assms
    by (auto simp: dropResult_iff scp_setStateFromEnvelope_def split: if_splits intro: onSlot_frame [OF assms(1)])
next
  case (SlotTimer j cb)
  have "scpInv a" using assms(1) by (simp add: agree_def)
  then show ?thesis
    using assms timer_slots [of a j cb a'] by (auto simp: SlotTimer agree_def split: option.splits)
qed (use assms in simp)

lemma calls_agree:
  "agree i a b \<Longrightarrow> scp_calls h cs a = Some (Inr a') \<Longrightarrow>
   \<exists>b'. scp_calls h (filter (concerns i) cs) b = Some (Inr b') \<and> agree i a' b'"
proof (induction cs arbitrary: a b)
  case (Cons c cs)
  obtain a1 where a1: "scp_call h c a = Some (Inr a1)" "scp_calls h cs a1 = Some (Inr a')"
    using Cons.prems(2) by (auto split: option.splits sum.splits)
  show ?case
  proof (cases "concerns i c")
    case True
    then obtain b1 where "scp_call h c b = Some (Inr b1)" "agree i a1 b1"
      using call_agree [OF Cons.prems(1) _ a1(1)] by blast
    then show ?thesis using Cons.IH [OF _ a1(2)] True by auto
  next
    case False
    then show ?thesis using Cons.IH [OF call_frame [OF Cons.prems(1) False a1(1)] a1(2)] by simp
  qed
qed auto

section \<open>The slots of a node are reachable\<close>

text \<open>The messages in the node's own name that it receives are among those that the slot they are for has sent.\<close>

fun trustworthyCalls :: "(SCPQuorumSet \<Rightarrow> Hash) \<Rightarrow> SCPCall list \<Rightarrow> SCP \<Rightarrow> bool" where
  "trustworthyCalls h [] scp \<longleftrightarrow> True"
| "trustworthyCalls h (c # cs) scp \<longleftrightarrow>
     (case c of CallReceiveEnvelope env \<Rightarrow> nodeID (statement env) = localNodeID (mContext scp) \<longrightarrow>
        EmitEnvelope env \<in> set (mDriverCalls (slotAt scp (slotIndex (statement env)))) | _ \<Rightarrow> True) \<and>
     (case scp_call h c scp of Some (Inr scp') \<Rightarrow> trustworthyCalls h cs scp' | _ \<Rightarrow> True)"

text \<open>The calls that put a slot into a state it has not reached by its own steps.\<close>

fun overrides :: "u64 \<Rightarrow> SCPCall \<Rightarrow> bool" where
  "overrides i (CallUpdateLocalQuorumSet q) \<longleftrightarrow> True"
| "overrides i (CallSetStateFromEnvelope j env) \<longleftrightarrow> j = i"
| "overrides i _ \<longleftrightarrow> False"

definition reachableAt :: "u64 \<Rightarrow> SCP \<Rightarrow> bool" where
  "reachableAt i scp \<longleftrightarrow> scpInv scp \<and> slot_reachable (mContext scp) i (slotAt scp i)"

lemma onSlot_reachable:
  assumes inv: "reachableAt i scp" and run: "onSlot j f scp = Some (Inr (x, scp'))"
    and f: "\<And>s. j = i \<Longrightarrow> f (mContext scp) (slotAt scp i) = Some (Inr (x, s)) \<Longrightarrow>
      \<exists>inp. slot_input (mContext scp) inp (slotAt scp i) = Some (Inr s) \<and> trustworthy (mContext scp) inp (slotAt scp i)"
  shows "reachableAt i scp'"
proof -
  have scp: "scpInv scp" using inv by (simp add: reachableAt_def)
  obtain s where s: "f (mContext scp) (slotAt scp j) = Some (Inr (x, s))"
    "map_of (mKnownSlots scp') = (map_of (mKnownSlots scp))(j \<mapsto> s)"
    using onSlot_slots(3) [OF scp run] by blast
  show ?thesis
  proof (cases "j = i")
    case True
    then obtain inp where "slot_input (mContext scp) inp (slotAt scp i) = Some (Inr s)"
      "trustworthy (mContext scp) inp (slotAt scp i)" using f s(1) by blast
    then have "slot_reachable (mContext scp) i s"
      using inv slot_reachable.input unfolding reachableAt_def by blast
    then show ?thesis using onSlot_slots(1,2) [OF scp run] s(2) True by (simp add: reachableAt_def slotAt_def)
  next
    case False
    then have "slotAt scp' i = slotAt scp i" using onSlot_slots(2) [OF scp run] s(2) by (simp add: slotAt_def split: option.split)
    then show ?thesis using inv onSlot_slots(1,2) [OF scp run] by (simp add: reachableAt_def)
  qed
qed

lemma call_reachable:
  assumes inv: "reachableAt i scp" and run: "scp_call h c scp = Some (Inr scp')" and ok: "\<not> overrides i c"
    and own: "\<And>env. c = CallReceiveEnvelope env \<Longrightarrow> trustworthy (mContext scp) (Receive env) (slotAt scp (slotIndex (statement env)))"
  shows "reachableAt i scp'"
proof (cases c)
  case (CallReceiveEnvelope env)
  show ?thesis
  proof (cases "verifyEnvelope (mContext scp) env")
    case True
    then obtain r where "onSlot (slotIndex (statement env)) (\<lambda>S. slot_processEnvelope S env False) scp = Some (Inr (r, scp'))"
      using run by (auto simp: CallReceiveEnvelope dropResult_iff receiveEnvelope_def)
    then show ?thesis
      by (rule onSlot_reachable [OF inv]) (use own [OF CallReceiveEnvelope] in \<open>auto simp: dropResult_iff intro!: exI [of _ "Receive env"]\<close>)
  next
    case False
    then show ?thesis using run inv by (simp add: CallReceiveEnvelope dropResult_iff receiveEnvelope_def)
  qed
next
  case (CallNominate j v pv)
  then obtain r where "onSlot j (\<lambda>S. slot_nominate S v pv False) scp = Some (Inr (r, scp'))"
    using run by (auto simp: dropResult_iff nominate_def split: if_splits)
  then show ?thesis
    by (rule onSlot_reachable [OF inv]) (auto simp: dropResult_iff trustworthy_def intro!: exI [of _ "Nominate v pv"])
next
  case (CallStopNomination j)
  have "slot_reachable S i (stopNomination s)" if "slot_reachable S i s" for S s
    using slot_reachable.input [OF that, of StopNomination] by (simp add: trustworthy_def)
  moreover have "scpInv scp" "scp' = scp_stopNomination j scp" using inv run by (simp_all add: CallStopNomination reachableAt_def)
  moreover from this have "slotAt scp' i = (if j = i \<and> i \<in> dom (map_of (mKnownSlots scp)) then stopNomination (slotAt scp i) else slotAt scp i)"
    by (auto simp: slotAt_def stopNomination_slots split: option.split)
  ultimately show ?thesis using inv by (simp add: reachableAt_def stopNomination_slots)
next
  case (CallPurgeSlots b)
  have "mContext (purgeSlots b scp) = mContext scp" by (simp add: purgeSlots_def)
  then have "slotAt (purgeSlots b scp) i = (if i < b then newSlot (mContext scp) i else slotAt scp i)"
    by (auto simp: slotAt_def purge_map split: option.split)
  moreover have "scp' = purgeSlots b scp" using run by (simp add: CallPurgeSlots)
  ultimately show ?thesis
    using inv \<open>mContext (purgeSlots b scp) = mContext scp\<close> by (simp add: reachableAt_def purge_inv slot_reachable.created)
next
  case (CallSetStateFromEnvelope j env)
  then show ?thesis using run ok inv
    by (auto simp: dropResult_iff scp_setStateFromEnvelope_def split: if_splits intro: onSlot_reachable)
next
  case (SlotTimer j cb)
  have scp: "scpInv scp" "slot_reachable (mContext scp) i (slotAt scp i)" using inv by (simp_all add: reachableAt_def)
  have "slot_reachable (mContext scp) i s'" if "slot_timer (mContext scp) cb (slotAt scp i) = Some (Inr s')" for s'
    using slot_reachable.input [OF scp(2), of "TimerFires cb"] that by (simp add: trustworthy_def)
  then show ?thesis
    using timer_slots [OF scp(1), of j cb scp'] run scp
    by (cases "j = i") (auto simp: SlotTimer reachableAt_def slotAt_def split: option.splits)
qed (use ok in simp)

lemma call_context:
  assumes "scpInv scp" "scp_call h c scp = Some (Inr scp')" "\<not> overrides i c"
  shows "mContext scp' = mContext scp"
  using assms
  by (cases c)
    (auto simp: dropResult_iff receiveEnvelope_def nominate_def scp_setStateFromEnvelope_def stopNomination_slots purgeSlots_def
      dest: onSlot_slots(2) timer_slots(2) split: if_splits)

lemma calls_reachable:
  "reachableAt i scp \<Longrightarrow> scp_calls h cs scp = Some (Inr scp') \<Longrightarrow> \<not> list_ex (overrides i) cs \<Longrightarrow>
   trustworthyCalls h cs scp \<Longrightarrow> reachableAt i scp' \<and> mContext scp' = mContext scp"
proof (induction cs arbitrary: scp)
  case (Cons c cs)
  obtain scp1 where scp1: "scp_call h c scp = Some (Inr scp1)" "scp_calls h cs scp1 = Some (Inr scp')"
    using Cons.prems(2) by (auto split: option.splits sum.splits)
  have "reachableAt i scp1"
    by (rule call_reachable [OF Cons.prems(1) scp1(1)]) (use Cons.prems(3,4) in \<open>auto simp: trustworthy_def\<close>)
  moreover have "mContext scp1 = mContext scp"
    by (rule call_context [OF _ scp1(1), of i]) (use Cons.prems(1,3) in \<open>auto simp: reachableAt_def\<close>)
  ultimately show ?case using Cons.IH scp1 Cons.prems(3,4) by auto
qed simp

end
