(* ===== verification/Election.thy ===== *)
theory Election
  imports Nomination
begin

text \<open>
  Whom a node follows in a nomination round, and which of their values it takes up: the loops of
  \<^verbatim>\<open>NominationProtocol::updateRoundLeaders\<close> and \<^verbatim>\<open>getNewValueFromNomination\<close> compute a maximum, with the ties
  and the empty cases made explicit.
\<close>

section \<open>Leaders\<close>

definition voters :: "SCPContext \<Rightarrow> NodeID set" where
  "voters S = insert (localNodeID S) (set (forAllNodes (normalizeQSet (localQSet S) (Some (localNodeID S)))))"

text \<open>The priority of a node once the previous value is known.\<close>

definition priority :: "SCPContext \<Rightarrow> Slot \<Rightarrow> NodeID \<Rightarrow> u64" where
  "priority S s n =
     (let hash = (\<lambda>isPriority. computeHashNode S (mSlotIndex s) (mPreviousValue s) isPriority (mRoundNumber s) n);
          weight = (if n = localNodeID S then UINT64_MAX
                    else getNodeWeight n (normalizeQSet (localQSet S) (Some (localNodeID S))))
      in if hash False < weight then hash True else 0)"

lemma getNodePriority_eq:
  "mPreviousValue s \<noteq> [] \<Longrightarrow>
   getNodePriority S n (normalizeQSet (localQSet S) (Some (localNodeID S))) s = Inr (priority S s n)"
  by (simp add: getNodePriority_def hashNode_def dbgAssert_def priority_def Let_def)

lemma above_pos: "t < (x :: u64) \<Longrightarrow> 0 < x"
  by (auto simp: word_gt_0)

lemma max_after:
  fixes p :: "'a \<Rightarrow> 'b::linorder"
  assumes "finite A" "t = Max (p ` A)" "A \<noteq> {}"
  shows "max t (p n) = Max (p ` insert n A)"
  using assms by (simp add: max.commute)

text \<open>The invariant of the loop: the leaders are the voters so far with the top priority.\<close>

definition leading :: "(NodeID \<Rightarrow> u64) \<Rightarrow> NodeID \<Rightarrow> NodeID set \<Rightarrow> NodeID set" where
  "leading p me A = {n \<in> A. p n = Max (p ` A) \<and> (0 < p n \<or> n = me)}"

lemma leading_insert:
  assumes A: "finite A" "me \<in> A"
  shows "leading p me (insert n A) =
    (if Max (p ` A) < p n then {n}
     else if p n = Max (p ` A) \<and> 0 < p n then insert n (leading p me A) else leading p me A)"
proof -
  have top: "Max (p ` insert n A) = max (Max (p ` A)) (p n)"
    using max_after [OF A(1) refl, of p n] A(2) by (metis empty_iff)
  have below: "p m \<le> Max (p ` A)" if "m \<in> A" for m using A(1) that by simp
  consider "Max (p ` A) < p n" | "p n = Max (p ` A)" | "p n < Max (p ` A)" by fastforce
  then show ?thesis
  proof cases
    case 1
    then have "0 < p n" by (rule above_pos)
    moreover have "p m \<noteq> p n" if "m \<in> A" for m using 1 below [OF that] by auto
    ultimately show ?thesis using 1 unfolding leading_def top by (auto simp: max_def)
  next
    case 2
    then show ?thesis using A(2) unfolding leading_def top by (auto simp: word_gt_0)
  next
    case 3
    then show ?thesis unfolding leading_def top by (auto simp: max_def)
  qed
qed

lemma leaderLoop_step:
  "leaderLoop (\<lambda>n. Inr (p n)) (n # ns) (L, t) =
   leaderLoop (\<lambda>n. Inr (p n)) ns
     (if t < p n then ([n], p n) else if p n = t \<and> 0 < p n then (set_insert n L, t) else (L, t))"
  by (auto simp: Let_def insort_insert_key_def dest: above_pos)

lemma leaderLoop_leading:
  assumes "finite A" "me \<in> A" "set_invar L" "set L = leading p me A"
  shows "\<exists>L'. leaderLoop (\<lambda>n. Inr (p n)) ns (L, Max (p ` A)) = Inr (L', Max (p ` (A \<union> set ns))) \<and>
    set_invar L' \<and> set L' = leading p me (A \<union> set ns)"
  using assms
proof (induction ns arbitrary: A L)
  case (Cons n ns)
  define L2 where "L2 = (if Max (p ` A) < p n then [n] else if p n = Max (p ` A) \<and> 0 < p n then set_insert n L else L)"
  have "Max (p ` insert n A) = max (Max (p ` A)) (p n)"
    using max_after [OF Cons.prems(1) refl, of p n] Cons.prems(2) by (metis empty_iff)
  then have step: "leaderLoop (\<lambda>n. Inr (p n)) (n # ns) (L, Max (p ` A)) =
      leaderLoop (\<lambda>n. Inr (p n)) ns (L2, Max (p ` insert n A))"
    unfolding leaderLoop_step L2_def
    by (cases "p n" "Max (p ` A)" rule: linorder_cases) (simp_all only: max_def, auto)
  have "set_invar L2" using Cons.prems(3) by (simp add: L2_def set_invar_iff [of "[n]"])
  moreover have "set L2 = leading p me (insert n A)"
    unfolding leading_insert [OF Cons.prems(1,2)] Cons.prems(4) [symmetric] L2_def by auto
  ultimately show ?case
    using Cons.IH [of "insert n A" L2] Cons.prems(1,2) unfolding step by simp
qed simp

lemma leading_nonempty: "finite A \<Longrightarrow> me \<in> A \<Longrightarrow> leading p me A \<noteq> {}"
proof -
  assume A: "finite A" "me \<in> A"
  then have "Max (p ` A) \<in> p ` A" by (intro Max_in) auto
  then obtain n where n: "n \<in> A" "p n = Max (p ` A)" by force
  have "p me = 0" if "Max (p ` A) = 0" using A that Max_ge [of "p ` A" "p me"] by simp
  then have "n \<in> leading p me A \<or> me \<in> leading p me A"
    using n A(2) by (cases "p n = 0") (auto simp: leading_def word_gt_0)
  then show ?thesis by blast
qed

lemma updateRoundLeaders_leading:
  assumes "mPreviousValue s \<noteq> []"
  shows "\<exists>L. updateRoundLeaders S s = Inr (s\<lparr>mRoundLeaders := L\<rparr>) \<and> set_invar L \<and>
    set L = leading (priority S s) (localNodeID S) (voters S)"
proof -
  let ?me = "localNodeID S" and ?p = "priority S s"
    and ?ns = "forAllNodes (normalizeQSet (localQSet S) (Some (localNodeID S)))"
  have start: "set [?me] = leading ?p ?me {?me}" "?p ?me = Max (?p ` {?me})" by (auto simp: leading_def)
  have "\<exists>L. leaderLoop (\<lambda>n. Inr (?p n)) ?ns ([?me], Max (?p ` {?me})) = Inr (L, Max (?p ` ({?me} \<union> set ?ns))) \<and>
    set_invar L \<and> set L = leading ?p ?me ({?me} \<union> set ?ns)"
    using start(1) by (intro leaderLoop_leading) (simp_all add: set_invar_iff)
  then obtain L where L: "leaderLoop (\<lambda>n. Inr (?p n)) ?ns ([?me], ?p ?me) = Inr (L, Max (?p ` ({?me} \<union> set ?ns)))"
    "set_invar L" "set L = leading ?p ?me ({?me} \<union> set ?ns)"
    unfolding start(2) [symmetric] by blast
  have "updateRoundLeaders S s = Inr (s\<lparr>mRoundLeaders := L\<rparr>)"
    using assms L(1) by (simp add: updateRoundLeaders_def getNodePriority_eq)
  then show ?thesis using L(2,3) by (auto simp: voters_def)
qed

section \<open>The value taken from a leader\<close>

text \<open>The votes that a nomination offers a node: not yet cast, and acceptable to the application.\<close>

definition offered :: "SCPContext \<Rightarrow> Slot \<Rightarrow> Value list \<Rightarrow> Value set" where
  "offered S s vs = {x. x \<noteq> [] \<and> x \<notin> set (mVotes s) \<and> (\<exists>v \<in> set vs. x = valueToNominate S v s)}"

definition rank :: "SCPContext \<Rightarrow> Slot \<Rightarrow> Value \<Rightarrow> u64" where
  "rank S s v = computeValueHash S (mSlotIndex s) (mPreviousValue s) (mRoundNumber s) v"

lemma newValueLoop_best:
  assumes prev: "mPreviousValue s \<noteq> []"
  shows "(x, h) = (x0, h0) \<and> x0 = [] \<and> h0 = 0 \<and> offered S s seen = {} \<or>
     x \<in> offered S s seen \<and> h = rank S s x \<and> (\<forall>y \<in> offered S s seen. rank S s y \<le> rank S s x) \<Longrightarrow>
   \<exists>x' h'. newValueLoop S s vs (x, h) = Inr (x', h') \<and>
     (x' = [] \<and> h' = 0 \<and> offered S s (seen @ vs) = {} \<or>
      x' \<in> offered S s (seen @ vs) \<and> (\<forall>y \<in> offered S s (seen @ vs). rank S s y \<le> rank S s x'))"
proof (induction vs arbitrary: x h seen)
  case Nil
  then show ?case by auto
next
  case (Cons v vs)
  let ?x = "valueToNominate S v s"
  have more: "offered S s (seen @ [v]) =
    (if ?x \<noteq> [] \<and> ?x \<notin> set (mVotes s) then insert ?x (offered S s seen) else offered S s seen)"
    by (auto simp: offered_def)
  show ?case
  proof (cases "?x \<noteq> [] \<and> ?x \<notin> set (mVotes s)")
    case True
    have hash: "hashValue S ?x s = Inr (rank S s ?x)"
      using prev by (simp add: hashValue_def dbgAssert_def rank_def)
    define y k where "y = (if rank S s ?x \<ge> h then ?x else x)" and "k = (if rank S s ?x \<ge> h then rank S s ?x else h)"
    have step: "newValueLoop S s (v # vs) (x, h) = newValueLoop S s vs (y, k)"
      using True hash by (simp add: y_def k_def Let_def)
    have "y \<in> offered S s (seen @ [v]) \<and> k = rank S s y \<and>
      (\<forall>z \<in> offered S s (seen @ [v]). rank S s z \<le> rank S s y)"
      using Cons.prems True by (auto simp: more y_def k_def)
    then show ?thesis using Cons.IH [of y k "seen @ [v]"] unfolding step by simp
  next
    case False
    then show ?thesis using Cons.IH [of x h "seen @ [v]"] Cons.prems by (auto simp: more)
  qed
qed

lemma getNewValue_best:
  assumes prev: "mPreviousValue s \<noteq> []"
  shows "\<exists>x. getNewValueFromNomination S nom s = Inr x \<and>
    (if offered S s (applyAll nom) = {} then x = []
     else x \<in> offered S s (applyAll nom) \<and> (\<forall>y \<in> offered S s (applyAll nom). rank S s y \<le> rank S s x))"
proof -
  have "offered S s [] = {}" by (simp add: offered_def)
  then obtain x h where x: "newValueLoop S s (applyAll nom) ([], 0) = Inr (x, h)"
    "x = [] \<and> h = 0 \<and> offered S s (applyAll nom) = {} \<or>
     x \<in> offered S s (applyAll nom) \<and> (\<forall>y \<in> offered S s (applyAll nom). rank S s y \<le> rank S s x)"
    using newValueLoop_best [OF prev, of "[]" 0 "[]" 0 S "[]" "applyAll nom"] by auto
  then show ?thesis by (intro exI [of _ x]) (auto simp: getNewValueFromNomination_def)
qed

end
