(* ===== verification/Restart.thy ===== *)
theory Restart
  imports SlotRuns
begin

text \<open>
  A node that restarts reads back the last message it sent (\<^verbatim>\<open>setStateFromEnvelope\<close>). The message carries
  enough of the state: a fresh slot that is given it stands where the old one stood, with the same statement
  to make, the same phase and the same lock, so the node cannot contradict what it said before.
\<close>

section \<open>The ballot protocol\<close>

lemma restored_ballot:
  assumes "mCurrentBallot s2 = None" "mPhase s2 \<noteq> SCP_PHASE_EXTERNALIZE" "mHighBallot s2 = None"
  shows "bumpToBallot b True s2 =
    Inr (driverCall (StartedBallotProtocol (mSlotIndex s2) b) s2\<lparr>mCurrentBallot := Some b, mHeardFromQuorum := False\<rparr>)"
  using assms by (simp add: bumpToBallot_def dbgAssert_def driverCall_def)

text \<open>The slot before the fields of the statement are read back.\<close>

definition restartedSlot :: "SCPContext \<Rightarrow> SCPEnvelope \<Rightarrow> u64 \<Rightarrow> Slot" where
  "restartedSlot S e i =
     (let s1 = setLastEnvelope e (recordEnvelope e (newSlot S i)) in s1\<lparr>mLastEnvelopeEmit := mLastEnvelope s1\<rparr>)"

lemma restartedSlot_fields [simp]:
  "mCurrentBallot (restartedSlot S e i) = None" "mPrepared (restartedSlot S e i) = None"
  "mPreparedPrime (restartedSlot S e i) = None" "mHighBallot (restartedSlot S e i) = None"
  "mCommit (restartedSlot S e i) = None" "mPhase (restartedSlot S e i) = SCP_PHASE_PREPARE"
  "mSlotIndex (restartedSlot S e i) = i"
  by (simp_all add: restartedSlot_def setLastEnvelope_def recordEnvelope_def recordStatement_def newSlot_def Let_def)

text \<open>The part of the state that a statement describes.\<close>

definition ballotState ::
  "Slot \<Rightarrow> SCPPhase \<times> SCPBallot option \<times> SCPBallot option \<times> SCPBallot option \<times> SCPBallot option \<times> SCPBallot option" where
  "ballotState s = (mPhase s, mCurrentBallot s, mPrepared s, mPreparedPrime s, mHighBallot s, mCommit s)"

fun statementState ::
  "SCPPledges \<Rightarrow> SCPPhase \<times> SCPBallot option \<times> SCPBallot option \<times> SCPBallot option \<times> SCPBallot option \<times> SCPBallot option" where
  "statementState (SCP_ST_PREPARE _ b p p' c h) =
     (SCP_PHASE_PREPARE, Some b, p, p', if h \<noteq> 0 then Some (SCPBallot h (bvalue b)) else None,
      if c \<noteq> 0 then Some (SCPBallot c (bvalue b)) else None)"
| "statementState (SCP_ST_CONFIRM b p c h _) =
     (SCP_PHASE_CONFIRM, Some b, Some (SCPBallot p (bvalue b)), None, Some (SCPBallot h (bvalue b)),
      Some (SCPBallot c (bvalue b)))"
| "statementState (SCP_ST_EXTERNALIZE c h _) =
     (SCP_PHASE_EXTERNALIZE, Some (SCPBallot UINT32_MAX (bvalue c)), Some (SCPBallot UINT32_MAX (bvalue c)), None,
      Some (SCPBallot h (bvalue c)), Some c)"
| "statementState (SCP_ST_NOMINATE _ _ _) = (SCP_PHASE_PREPARE, None, None, None, None, None)"

lemma setState_new:
  assumes "\<not> isNominate (pledges (statement e))"
  shows "\<exists>s'. setStateFromEnvelope e (newSlot S i) = Inr s' \<and> ballotState s' = statementState (pledges (statement e)) \<and>
    mLastEnvelope s' = mLastEnvelope (restartedSlot S e i) \<and> mLastEnvelopeEmit s' = mLastEnvelope (restartedSlot S e i)"
proof -
  have fresh: "mCurrentBallot (newSlot S i) = None" by (simp add: newSlot_def)
  have s2: "(let s1 = setLastEnvelope e (recordEnvelope e (newSlot S i)) in s1\<lparr>mLastEnvelopeEmit := mLastEnvelope s1\<rparr>) =
    restartedSlot S e i" by (simp add: restartedSlot_def)
  have emit: "mLastEnvelopeEmit (restartedSlot S e i) = mLastEnvelope (restartedSlot S e i)"
    by (simp add: restartedSlot_def Let_def)
  show ?thesis
    using assms
    by (cases "pledges (statement e)")
      (simp_all add: setStateFromEnvelope_def fresh s2 [unfolded Let_def] Let_def restored_ballot ballotState_def
        driverCall_def emit)
qed

text \<open>What the invariants of the slot say of its statement.\<close>

lemma restored_prepare:
  assumes wf: "wellFormed s" and b: "mCurrentBallot s = Some b"
    and s': "ballotState s' = (SCP_PHASE_PREPARE, Some b, mPrepared s, mPreparedPrime s, 
      case mHighBallot s of Some h \<Rightarrow> if counter h \<noteq> 0 then Some h else None | None \<Rightarrow> None,
      case mCommit s of Some c \<Rightarrow> if counter c \<noteq> 0 then Some c else None | None \<Rightarrow> None)"
  shows "wellFormed s'"
proof -
  have up: "counter h \<noteq> 0" if "c \<le> h" "counter c \<noteq> 0" for c h :: SCPBallot
    using ballot_le_counter [OF that(1)] that(2) by (auto simp: word_le_0_iff)
  have f: "mPhase s' = SCP_PHASE_PREPARE" "mCurrentBallot s' = mCurrentBallot s" "mPrepared s' = mPrepared s"
    "mPreparedPrime s' = mPreparedPrime s"
    "mHighBallot s' = Some h \<longleftrightarrow> mHighBallot s = Some h \<and> counter h \<noteq> 0"
    "mCommit s' = Some c \<longleftrightarrow> mCommit s = Some c \<and> counter c \<noteq> 0" for h c
    using s' b by (cases "mHighBallot s"; cases "mCommit s"; auto simp: ballotState_def split: if_splits)+
  have c: "\<exists>h. (mHighBallot s = Some h \<and> counter h \<noteq> 0) \<and> c \<le> h \<and> bvalue c = bvalue h"
    if x: "mCommit s = Some c" "counter c \<noteq> 0" for c
  proof -
    obtain h where h: "mHighBallot s = Some h" "c \<le> h" "bvalue c = bvalue h"
      using wf x(1) by (auto simp: wellFormed_iff)
    then show ?thesis using up [OF h(2) x(2)] by blast
  qed
  show ?thesis
    unfolding wellFormed_iff f using wf c by (simp add: wellFormed_iff)
qed

lemma statementState_create:
  assumes pl: "createStatement S s = Inr pl" and b: "mCurrentBallot s = Some b" and s': "ballotState s' = statementState pl"
  shows "createStatement S s' = Inr pl \<and> mPhase s' = mPhase s \<and> (\<forall>v. locked s' v = locked s v)"
proof -
  have wf: "wellFormed s" using pl by (auto simp: createStatement_def wellFormed_def)
  have eta: "SCPBallot (counter x) y = x" if "bvalue x = y" for x y using that by (cases x) simp
  have high: "bvalue h = bvalue b" "h \<le> b" if "mHighBallot s = Some h" for h using wf b that by (auto simp: wellFormed_iff)
  have commit: "\<exists>h. mHighBallot s = Some h \<and> c \<le> h \<and> bvalue c = bvalue b" if "mCommit s = Some c" for c
    using wf that high by (fastforce simp: wellFormed_iff)
  show ?thesis
  proof (cases "mPhase s")
    case SCP_PHASE_PREPARE
    have st: "ballotState s' = (SCP_PHASE_PREPARE, Some b, mPrepared s, mPreparedPrime s, 
      case mHighBallot s of Some h \<Rightarrow> if counter h \<noteq> 0 then Some h else None | None \<Rightarrow> None,
      case mCommit s of Some c \<Rightarrow> if counter c \<noteq> 0 then Some c else None | None \<Rightarrow> None)"
      using pl s' b wf SCP_PHASE_PREPARE high commit
      by (auto simp: createStatement_def wellFormed_def eta split: option.splits)
    have "wellFormed s'" by (rule restored_prepare [OF wf b st])
    then show ?thesis
      using pl st b wf SCP_PHASE_PREPARE
      by (auto simp: createStatement_def wellFormed_def ballotState_def locked_def split: option.splits if_splits)
  next
    case SCP_PHASE_CONFIRM
    obtain p c h where f: "mPrepared s = Some p" "mCommit s = Some c" "mHighBallot s = Some h"
      "pl = SCP_ST_CONFIRM b (counter p) (counter c) (counter h) (localQSetHash S)"
      using pl b SCP_PHASE_CONFIRM by (auto simp: createStatement_def deref_def split: option.splits)
    have st: "ballotState s' = (SCP_PHASE_CONFIRM, Some b, Some (SCPBallot (counter p) (bvalue b)), None, Some h, Some c)"
      using s' f high commit by (auto simp: eta)
    then have "wellFormed s'" using wf b f by (auto simp: wellFormed_iff ballotState_def)
    then show ?thesis
      using st b f SCP_PHASE_CONFIRM
      by (auto simp: createStatement_def wellFormed_def ballotState_def locked_def deref_def)
  next
    case SCP_PHASE_EXTERNALIZE
    obtain c h where f: "mCommit s = Some c" "mHighBallot s = Some h"
      "pl = SCP_ST_EXTERNALIZE c (counter h) (localQSetHash S)"
      using pl SCP_PHASE_EXTERNALIZE by (auto simp: createStatement_def deref_def split: option.splits)
    let ?top = "SCPBallot UINT32_MAX (bvalue c)"
    have st: "ballotState s' = (SCP_PHASE_EXTERNALIZE, Some ?top, Some ?top, None, Some h, Some c)"
      using s' f high commit by (auto simp: eta)
    have "bvalue h = bvalue c" using high [OF f(2)] commit [OF f(1)] by auto
    then have "h \<le> ?top" "bvalue h = bvalue c" by (simp_all add: ballot_compatible_le)
    then have "wellFormed s'" using wf st f by (auto simp: wellFormed_iff ballotState_def)
    then show ?thesis
      using st f SCP_PHASE_EXTERNALIZE
      by (auto simp: createStatement_def wellFormed_def ballotState_def locked_def deref_def)
  qed
qed

section \<open>The slot\<close>

lemma ballot_restart:
  assumes pl: "createStatement S s = Inr pl" and b: "mCurrentBallot s = Some b"
  shows "\<exists>s'. slot_setStateFromEnvelope S (createEnvelope S pl s) (newSlot S (mSlotIndex s)) = Inr s' \<and>
    createStatement S s' = Inr pl \<and> mPhase s' = mPhase s \<and> (\<forall>v. locked s' v = locked s v) \<and>
    sendLatestEnvelope s' = s'"
proof -
  let ?e = "createEnvelope S pl s"
  have e: "nodeID (statement ?e) = localNodeID S" "slotIndex (statement ?e) = mSlotIndex s" "pledges (statement ?e) = pl"
    by (simp_all add: createEnvelope_def Let_def)
  have nom: "\<not> isNominate pl"
    using pl by (auto simp: createStatement_def split: SCPPhase.splits)
  obtain s' where s': "setStateFromEnvelope ?e (newSlot S (mSlotIndex s)) = Inr s'" "ballotState s' = statementState pl"
    "mLastEnvelopeEmit s' = mLastEnvelope s'"
    using setState_new [of ?e S "mSlotIndex s"] nom e(3) by auto
  have "slot_setStateFromEnvelope S ?e (newSlot S (mSlotIndex s)) = Inr s'"
    using s'(1) e nom by (simp add: slot_setStateFromEnvelope_def newSlot_def)
  moreover have "sendLatestEnvelope s' = s'"
    using s'(3) by (auto simp: sendLatestEnvelope_def split: option.split)
  ultimately show ?thesis using statementState_create [OF pl b s'(2)] by blast
qed

lemma set_insert_all_same: "set_invar xs \<Longrightarrow> set_insert_all xs [] = xs"
  by (rule set_invar_unique) simp_all

lemma nomination_restart:
  assumes "set_invar (mVotes s)" "set_invar (mAccepted s)"
  shows "\<exists>s'. slot_setStateFromEnvelope S (nominationEnvelope S s) (newSlot S (mSlotIndex s)) = Inr s' \<and>
    mVotes s' = mVotes s \<and> mAccepted s' = mAccepted s \<and> nominationEnvelope S s' = nominationEnvelope S s \<and>
    mNominationLastEnvelope s' = Some (nominationEnvelope S s)"
  using assms
  by (simp add: slot_setStateFromEnvelope_def nom_setStateFromEnvelope_def nominationEnvelope_def createEnvelope_def
      newSlot_def nom_recordEnvelope_def recordStatement_def set_insert_all_same Let_def)

end
