(* ===== verification/BallotBehaviour.thy ===== *)
theory BallotBehaviour
  imports BallotRuns
begin

text \<open>
  The searches of the ballot protocol, against their descriptions: the commit interval
  (\<^verbatim>\<open>findExtendedInterval\<close>), the counter to move to (\<^verbatim>\<open>attemptBump\<close>) and the validation of the values of a
  statement (\<^verbatim>\<open>validateValues\<close>).
\<close>

section \<open>The commit interval\<close>

text \<open>A boundary 0 can only be the last one of the scan, and the interval that starts at it is final.\<close>

lemma below_zero: "sorted_wrt (>) (0 # bs) \<Longrightarrow> bs = ([] :: u32 list)"
  by (cases bs) auto

lemma extend_low:
  assumes "sorted_wrt (>) (lo # bs)" "lo \<noteq> 0 \<or> bs = []" "lo \<le> hi"
  shows "\<exists>lo'. findExtendedInterval pred bs (lo, hi) = (lo', hi) \<and> lo' \<in> insert lo (set bs) \<and>
    (\<forall>b \<in> set bs. lo' \<le> b \<longrightarrow> pred (b, hi)) \<and>
    (\<forall>b \<in> set bs. b < lo' \<longrightarrow> (\<exists>b' \<in> set bs. b \<le> b' \<and> b' < lo' \<and> \<not> pred (b', hi)))"
  using assms
proof (induction bs arbitrary: lo)
  case (Cons b bs)
  have b: "b < lo" "b \<le> hi" "lo \<noteq> 0" "\<forall>x \<in> set bs. x < b" "b \<noteq> 0 \<or> bs = []"
    using Cons.prems below_zero [of bs] by auto
  show ?case
  proof (cases "pred (b, hi)")
    case True
    then have step: "findExtendedInterval pred (b # bs) (lo, hi) = findExtendedInterval pred bs (b, hi)"
      using b(2,3) by auto
    obtain lo' where lo': "findExtendedInterval pred bs (b, hi) = (lo', hi)" "lo' \<in> insert b (set bs)"
      "\<forall>x \<in> set bs. lo' \<le> x \<longrightarrow> pred (x, hi)"
      "\<forall>x \<in> set bs. x < lo' \<longrightarrow> (\<exists>b' \<in> set bs. x \<le> b' \<and> b' < lo' \<and> \<not> pred (b', hi))"
      using Cons.IH [of b] Cons.prems b by auto
    moreover have "\<not> b < lo'" using lo'(2) b(4) by auto
    ultimately show ?thesis using True unfolding step by auto
  next
    case False
    then have step: "findExtendedInterval pred (b # bs) (lo, hi) = (lo, hi)"
      using b(2,3) by auto
    have "\<exists>b' \<in> set (b # bs). x \<le> b' \<and> b' < lo \<and> \<not> pred (b', hi)" if "x \<in> set (b # bs)" for x
      using that False b by (intro bexI [of _ b]) auto
    moreover have "\<not> lo \<le> x" if "x \<in> set (b # bs)" for x using that b by force
    ultimately show ?thesis unfolding step by blast
  qed
qed simp

lemma findExtendedInterval_found:
  assumes "sorted_wrt (>) bs" "b \<in> set bs" "pred (b, b)"
  shows "\<exists>lo hi. findExtendedInterval pred bs (0, 0) = (lo, hi) \<and> lo \<le> hi \<and>
    lo \<in> set bs \<and> hi \<in> set bs \<and> pred (hi, hi) \<and> (\<forall>x \<in> set bs. pred (x, x) \<longrightarrow> x \<le> hi) \<and>
    (\<forall>x \<in> set bs. lo \<le> x \<and> x \<le> hi \<longrightarrow> pred (x, hi)) \<and>
    (\<forall>x \<in> set bs. x < lo \<longrightarrow> (\<exists>x' \<in> set bs. x \<le> x' \<and> x' < lo \<and> \<not> pred (x', hi)))"
  using assms
proof (induction bs)
  case (Cons a bs)
  have a: "a \<noteq> 0 \<or> bs = []" "\<forall>x \<in> set bs. x < a" using Cons.prems below_zero [of bs] by auto
  show ?case
  proof (cases "pred (a, a)")
    case True
    then have step: "findExtendedInterval pred (a # bs) (0, 0) = findExtendedInterval pred bs (a, a)" by simp
    obtain lo where lo: "findExtendedInterval pred bs (a, a) = (lo, a)" "lo \<in> insert a (set bs)"
      "\<forall>x \<in> set bs. lo \<le> x \<longrightarrow> pred (x, a)"
      "\<forall>x \<in> set bs. x < lo \<longrightarrow> (\<exists>b' \<in> set bs. x \<le> b' \<and> b' < lo \<and> \<not> pred (b', a))"
      using extend_low [of a bs a pred] Cons.prems(1) a by auto
    have "lo \<le> a" "\<not> a < lo" using lo(2) a(2) by auto
    then show ?thesis using lo True a(2) unfolding step by (intro exI [of _ lo] exI [of _ a]) auto
  next
    case False
    then have step: "findExtendedInterval pred (a # bs) (0, 0) = findExtendedInterval pred bs (0, 0)" by simp
    have "b \<in> set bs" "sorted_wrt (>) bs" using False Cons.prems by auto
    then obtain lo hi where lo: "findExtendedInterval pred bs (0, 0) = (lo, hi)" "lo \<le> hi"
      "lo \<in> set bs" "hi \<in> set bs" "pred (hi, hi)" "\<forall>x \<in> set bs. pred (x, x) \<longrightarrow> x \<le> hi"
      "\<forall>x \<in> set bs. lo \<le> x \<and> x \<le> hi \<longrightarrow> pred (x, hi)"
      "\<forall>x \<in> set bs. x < lo \<longrightarrow> (\<exists>x' \<in> set bs. x \<le> x' \<and> x' < lo \<and> \<not> pred (x', hi))"
      using Cons.IH Cons.prems(3) by blast
    have "\<not> a \<le> hi" "\<not> a < lo" using lo(3,4) a(2) by fastforce+
    then show ?thesis using lo False unfolding step by (intro exI [of _ lo] exI [of _ hi]) auto
  qed
qed simp

lemma findExtendedInterval_none:
  "(\<forall>b \<in> set bs. \<not> pred (b, b)) \<Longrightarrow> findExtendedInterval pred bs (0, 0) = (0, 0)"
  by (induction bs) auto

section \<open>The counter to move to\<close>

definition peerCounters :: "Slot \<Rightarrow> u32 set" where
  "peerCounters s = (\<lambda>(n, env). statementCounter (pledges (statement env))) ` set (mLatestEnvelopes s)"

text \<open>The peers whose counter is above \<open>n\<close> block the local node.\<close>

definition leftBehind :: "SCPContext \<Rightarrow> Slot \<Rightarrow> u32 \<Rightarrow> bool" where
  "leftBehind S s n \<longleftrightarrow> isVBlockingMap (localQSet S) (mLatestEnvelopes s) (aheadOf n)"

lemma attemptBump_eq:
  assumes "mPhase s \<noteq> SCP_PHASE_EXTERNALIZE"
  shows "\<exists>cs. set_invar cs \<and> set cs = insert (currentCounter s) (peerCounters s) \<and>
    attemptBump proc S s = (case findBumpCounter S s (currentCounter s) cs of
      Some n \<Rightarrow> abandonBallotWith proc S n s | None \<Rightarrow> Inr (False, s))"
proof -
  let ?cs = "set_insert (currentCounter s)
    (set_insert_all (map (\<lambda>(n, env). statementCounter (pledges (statement env))) (mLatestEnvelopes s)) [])"
  have "attemptBump proc S s = (case findBumpCounter S s (currentCounter s) ?cs of
      Some n \<Rightarrow> abandonBallotWith proc S n s | None \<Rightarrow> Inr (False, s))"
    using assms by (cases "mPhase s") (simp_all add: attemptBump_def currentCounter_def Let_def)
  moreover have "set_invar ?cs" "set ?cs = insert (currentCounter s) (peerCounters s)"
    by (simp_all add: peerCounters_def)
  ultimately show ?thesis by blast
qed

lemma findBumpCounter_behind:
  assumes "sorted cs" "c \<in> set cs" "c < t"
  shows "findBumpCounter S s t cs = None"
  using assms by (cases cs) auto

lemma attemptBump_behind:
  assumes "c \<in> peerCounters s" "c < currentCounter s"
  shows "attemptBump proc S s = Inr (False, s)"
proof (cases "mPhase s = SCP_PHASE_EXTERNALIZE")
  case True
  then show ?thesis by (simp add: attemptBump_def)
next
  case False
  then obtain cs where "set_invar cs" "set cs = insert (currentCounter s) (peerCounters s)"
    "attemptBump proc S s = (case findBumpCounter S s (currentCounter s) cs of
      Some n \<Rightarrow> abandonBallotWith proc S n s | None \<Rightarrow> Inr (False, s))"
    using attemptBump_eq by blast
  then show ?thesis using findBumpCounter_behind [of cs c] assms by (simp add: set_invar_iff)
qed

lemma findBumpCounter_ahead:
  assumes "sorted cs" "\<forall>c \<in> set cs. t \<le> c" "leftBehind S s t" "\<exists>c \<in> set cs. \<not> leftBehind S s c"
  shows "\<exists>n. findBumpCounter S s t cs = Some n \<and> n \<in> set cs \<and> \<not> leftBehind S s n \<and>
    (\<forall>c \<in> set cs. c < n \<longrightarrow> leftBehind S s c)"
  using assms
proof (induction cs)
  case (Cons c cs)
  show ?case
  proof (cases "leftBehind S s c")
    case True
    then have "findBumpCounter S s t (c # cs) = findBumpCounter S s t cs"
      using Cons.prems(2) by (auto simp: leftBehind_def)
    then show ?thesis using Cons True by auto
  next
    case False
    then have "findBumpCounter S s t (c # cs) = Some c"
      using Cons.prems(2,3) by (auto simp: leftBehind_def)
    then show ?thesis using False Cons.prems(1) by auto
  qed
qed simp

lemma blocks_nobody: "\<not> blocks (\<lambda>n. False) q"
  by (induction q) (auto simp: Let_def filter_empty_conv)

lemma leftBehind_top:
  assumes "\<forall>c \<in> peerCounters s. c \<le> n"
  shows "\<not> leftBehind S s n"
proof -
  have "\<not> aheadOf n (statement env)" if "(m, env) \<in> set (mLatestEnvelopes s)" for m env
  proof -
    have "statementCounter (pledges (statement env)) \<le> n" using assms that by (force simp: peerCounters_def)
    moreover have "n = UINT32_MAX" if "UINT32_MAX \<le> n" using that u32_le_MAX by (rule antisym [rotated])
    ultimately show ?thesis by (cases "pledges (statement env)") (auto simp: aheadOf_def)
  qed
  then have "filterNodes (mLatestEnvelopes s) (aheadOf n) = []"
    by (auto simp: filterNodes_def filter_empty_conv)
  then show ?thesis by (simp add: leftBehind_def isVBlockingMap_def isVBlocking_blocks blocks_nobody)
qed

text \<open>Whoever has passed a counter has passed the ones below it.\<close>

lemma leftBehind_antimono:
  assumes "leftBehind S s n" "m \<le> n"
  shows "leftBehind S s m"
proof -
  have "aheadOf m st" if "aheadOf n st" for st
  proof -
    have "m \<noteq> UINT32_MAX" if "n \<noteq> UINT32_MAX" using that assms(2) u32_le_MAX by (metis antisym)
    then show ?thesis using \<open>aheadOf n st\<close> assms(2) by (cases "pledges st") (auto simp: aheadOf_def)
  qed
  then have "set (filterNodes (mLatestEnvelopes s) (aheadOf n)) \<subseteq> set (filterNodes (mLatestEnvelopes s) (aheadOf m))"
    by (auto simp: filterNodes_def)
  then show ?thesis
    using assms(1) unfolding leftBehind_def isVBlockingMap_def isVBlocking_blocks by (elim blocks_mono [rotated]) auto
qed

lemma attemptBump_ahead:
  assumes "mPhase s \<noteq> SCP_PHASE_EXTERNALIZE" "\<forall>c \<in> peerCounters s. currentCounter s \<le> c"
    "leftBehind S s (currentCounter s)"
  shows "\<exists>n \<in> peerCounters s. attemptBump proc S s = abandonBallotWith proc S n s \<and> currentCounter s < n \<and>
    \<not> leftBehind S s n \<and> (\<forall>c \<in> peerCounters s. c < n \<longrightarrow> leftBehind S s c)"
proof -
  let ?t = "currentCounter s"
  obtain cs where cs: "set_invar cs" "set cs = insert ?t (peerCounters s)"
    "attemptBump proc S s = (case findBumpCounter S s ?t cs of
      Some n \<Rightarrow> abandonBallotWith proc S n s | None \<Rightarrow> Inr (False, s))"
    using attemptBump_eq [OF assms(1)] by blast
  have "\<not> leftBehind S s (Max (set cs))" by (rule leftBehind_top) (use cs(2) in auto)
  then have top: "\<exists>c \<in> set cs. \<not> leftBehind S s c"
    using Max_in [of "set cs"] cs(2) by (metis List.finite_set insert_not_empty)
  obtain n where n: "findBumpCounter S s ?t cs = Some n" "n \<in> set cs" "\<not> leftBehind S s n"
    "\<forall>c \<in> set cs. c < n \<longrightarrow> leftBehind S s c"
    using findBumpCounter_ahead [OF _ _ assms(3) top] cs(1,2) assms(2) by (auto simp: set_invar_iff)
  have "n \<noteq> ?t" using n(3) assms(3) by blast
  then have "n \<in> peerCounters s" "?t < n" using n(2) cs(2) assms(2) by (auto simp: order_less_le)
  then show ?thesis using cs(2,3) n by auto
qed

text \<open>The value that a node would bump its ballot with, if it has one, is not in the way of a commit it holds.\<close>

definition bumpValue :: "Slot \<Rightarrow> Value" where
  "bumpValue s = (if mLatestCompositeCandidate s \<noteq> [] then mLatestCompositeCandidate s
     else case mCurrentBallot s of Some b \<Rightarrow> bvalue b | None \<Rightarrow> [])"

definition canBump :: "Slot \<Rightarrow> bool" where
  "canBump s \<longleftrightarrow> bumpValue s \<noteq> [] \<and>
     (case mCommit s of None \<Rightarrow> True
      | Some c \<Rightarrow> bvalue c = (case mValueOverride s of Some v \<Rightarrow> v | None \<Rightarrow> bumpValue s))"

definition noLaggard :: "Slot \<Rightarrow> bool" where
  "noLaggard s \<longleftrightarrow> (\<forall>c \<in> peerCounters s. currentCounter s \<le> c)"

lemma updateCurrentValue_moves:
  assumes "updateCurrentValue (SCPBallot n v) s = Inr (w, s')" "mPhase s \<noteq> SCP_PHASE_EXTERNALIZE" "currentCounter s < n"
    "\<forall>c. mCommit s = Some c \<longrightarrow> bvalue c = v"
  shows w
proof (cases "mCurrentBallot s")
  case None
  then show ?thesis using assms(1,2) by (cases "mPhase s") (auto simp: updateCurrentValue_def)
next
  case (Some b)
  then have "b < SCPBallot n v" using assms(3) by (simp add: currentCounter_def less_SCPBallot_def)
  then show ?thesis
    using assms(1,2,4) Some by (cases "mPhase s") (auto simp: updateCurrentValue_def Let_def split: option.splits if_splits)
qed

lemma abandonBallot_moves:
  assumes "abandonBallotWith proc S n s = Inr (w, s')" "mPhase s \<noteq> SCP_PHASE_EXTERNALIZE" "currentCounter s < n" "canBump s"
  shows w
proof -
  have "n \<noteq> 0" using assms(3) by auto
  then have "bumpStateCounter proc S (bumpValue s) n s = Inr (w, s')"
    using assms(1,4) by (cases "mCurrentBallot s") (auto simp: abandonBallotWith_def bumpValue_def canBump_def Let_def split: if_splits)
  moreover define v where "v = (case mValueOverride s of Some x \<Rightarrow> x | None \<Rightarrow> bumpValue s)"
  moreover have "mPhase s = SCP_PHASE_PREPARE \<or> mPhase s = SCP_PHASE_CONFIRM" using assms(2) by (cases "mPhase s") simp_all
  ultimately obtain u t where "updateCurrentValue (SCPBallot n v) s = Inr (u, t)" "u \<longrightarrow> w"
    unfolding bumpStateCounter_def Let_def by (auto split: if_splits)
  moreover from this(1) have u by (rule updateCurrentValue_moves [OF _ assms(2,3)]) (use assms(4) in \<open>auto simp: canBump_def v_def\<close>)
  ultimately show ?thesis by blast
qed

lemma attemptBump_moves:
  assumes "attemptBump proc S s = Inr (w, s')" "mPhase s \<noteq> SCP_PHASE_EXTERNALIZE" "noLaggard s" "canBump s"
    "leftBehind S s (currentCounter s)"
  shows w
proof -
  obtain n where "abandonBallotWith proc S n s = Inr (w, s')" "currentCounter s < n"
    using attemptBump_ahead [OF assms(2) _ assms(5), of proc] assms(1,3) by (auto simp: noLaggard_def)
  then show ?thesis using abandonBallot_moves [OF _ assms(2) _ assms(4)] by blast
qed

lemma attemptBump_idle:
  assumes "attemptBump proc S s = Inr (False, s')"
  shows "s' = s"
proof -
  have "s' = s" if "bumpStateCounter proc S v n s = Inr (False, s')" for v n
    using that updateCurrentValue_step [of _ s False] by (auto simp: bumpStateCounter_def Let_def split: if_splits)
  then have "s' = s" if "abandonBallotWith proc S n s = Inr (False, s')" for n
    using that by (auto simp: abandonBallotWith_def bumpStateForce_def Let_def split: if_splits)
  then show ?thesis using assms by (auto simp: attemptBump_def Let_def split: if_splits option.splits)
qed

lemma bumpLoop_idle:
  assumes "bumpLoop body didWork s = Inr (w, s')"
  shows "\<exists>t. body t = Inr (False, s')"
proof -
  let ?again = "\<lambda>r. case r of Inr (didBump, _, _) \<Rightarrow> didBump | Inl _ \<Rightarrow> False"
  let ?turn = "\<lambda>r. case r of Inr (_, w, s') \<Rightarrow> bumpIteration body w s' | Inl e \<Rightarrow> Inl e"
  let ?from = "\<lambda>r. \<forall>b w s'. r = Inr (b, w, s') \<longrightarrow> (\<exists>t. body t = Inr (b, s'))"
  obtain r b where r: "while_option ?again ?turn (bumpIteration body didWork s) = Some r" "r = Inr (b, w, s')"
    using assms by (auto simp: bumpLoop_def split: option.splits)
  have it: "?from (bumpIteration body w s)" for w s by (auto simp: bumpIteration_def)
  have "?from r"
    using r(1) by (rule while_option_rule [where P = ?from, rotated]) (use it in \<open>auto split: sum.splits prod.splits\<close>)
  moreover have "\<not> ?again r" using r(1) by (rule while_option_stop)
  ultimately show ?thesis using r(2) by auto
qed

text \<open>What the search for a counter looks at.\<close>

definition bumpView :: "Slot \<Rightarrow> SCPPhase \<times> SCPBallot option \<times> (NodeID \<times> SCPEnvelope) list \<times> Value \<times> SCPBallot option \<times> Value option" where
  "bumpView s = (mPhase s, mCurrentBallot s, mLatestEnvelopes s, mLatestCompositeCandidate s, mCommit s, mValueOverride s)"

definition caughtUp :: "SCPContext \<Rightarrow> Slot \<Rightarrow> bool" where
  "caughtUp S s \<longleftrightarrow> (mPhase s \<noteq> SCP_PHASE_EXTERNALIZE \<and> noLaggard s \<and> canBump s \<longrightarrow> \<not> leftBehind S s (currentCounter s))"

lemma caughtUp_view: "bumpView s = bumpView t \<Longrightarrow> caughtUp S s \<longleftrightarrow> caughtUp S t"
proof -
  assume v: "bumpView s = bumpView t"
  then have "bumpValue s = bumpValue t" "currentCounter s = currentCounter t" "peerCounters s = peerCounters t"
    by (simp_all add: bumpView_def bumpValue_def currentCounter_def peerCounters_def split: option.split)
  moreover from this v have "canBump s = canBump t" by (simp add: bumpView_def canBump_def split: option.split)
  ultimately show ?thesis using v by (simp add: caughtUp_def bumpView_def noLaggard_def leftBehind_def)
qed

lemma bumpView_simps [simp]:
  "bumpView (checkHeardFromQuorum S s) = bumpView s" "bumpView (sendLatestEnvelope s) = bumpView s"
  "bumpView (s\<lparr>mCurrentMessageLevel := l\<rparr>) = bumpView s"
  by (rule checkHeardFromQuorum_fields [of S s]; simp add: bumpView_def)
    (auto simp: bumpView_def sendLatestEnvelope_def slot_update split: option.splits)

lemma bumpLoop_caughtUp: "bumpLoop (attemptBump proc S) didWork s = Inr (w, s') \<Longrightarrow> caughtUp S s'"
  using bumpLoop_idle [of "attemptBump proc S" didWork s w s'] attemptBump_idle attemptBump_moves
  unfolding caughtUp_def by metis

lemma advanceSlot_caughtUp:
  assumes res: "advanceSlot (Suc fuel) S hint s = Inr s'" and s: "ready s" "mCurrentMessageLevel s = 0"
  shows "caughtUp S s'"
proof -
  define proc where "proc = processEnvelopeWith (advanceSlot fuel S) S True"
  define s0 where "s0 = s\<lparr>mCurrentMessageLevel := mCurrentMessageLevel s + 1\<rparr>"
  note self = advanceSlot_processing [of S "{}" fuel, folded proc_def]
  note steps = self_processing.attemptPreparedAccept_steps [OF self]
    self_processing.attemptPreparedConfirmed_steps [OF self]
    self_processing.attemptAcceptCommit_steps [OF self] self_processing.attemptConfirmCommit_steps [OF self]
  have s0: "ready s0" using s(1) slot_step.message_level ready_step unfolding s0_def by blast
  have "\<not> MAX_ADVANCE_SLOT_RECURSION \<le> mCurrentMessageLevel s0"
    using res by (auto simp: Let_def s0_def)
  then obtain w1 s1 w2 s2 w3 s3 w4 s4 w6 s6 where
      attempts: "attemptPreparedAccept proc S hint s0 = Inr (w1, s1)"
        "attemptPreparedConfirmed proc S hint s1 = Inr (w2, s2)"
        "attemptAcceptCommit proc S hint s2 = Inr (w3, s3)" "attemptConfirmCommit proc S hint s3 = Inr (w4, s4)" and
      loop: "(if mCurrentMessageLevel s4 = 1
        then bindR (bumpLoop (attemptBump proc S) (w4 \<or> w3 \<or> w2 \<or> w1) s4) (\<lambda>(w5, s5). Inr (w5, checkHeardFromQuorum S s5))
        else Inr (w4 \<or> w3 \<or> w2 \<or> w1, s4)) = Inr (w6, s6)" and
      s': "s' = (let s7 = s6\<lparr>mCurrentMessageLevel := mCurrentMessageLevel s6 - 1\<rparr>
        in if w6 then sendLatestEnvelope s7 else s7)"
    using res
    unfolding advanceSlot.simps Let_def proc_def [symmetric] s0_def [symmetric]
    by (auto split del: if_split)
  from attempts have "goodRun S {} s0 s4" using s0 by (meson steps goodRun_trans goodRun_ready)
  then have "mCurrentMessageLevel s4 = 1" by (simp add: goodRun_def s0_def s(2))
  then obtain w5 s5 where s5: "bumpLoop (attemptBump proc S) (w4 \<or> w3 \<or> w2 \<or> w1) s4 = Inr (w5, s5)" "s6 = checkHeardFromQuorum S s5"
    using loop by auto
  have "bumpView s' = bumpView s5" by (simp add: s' s5(2) Let_def)
  then show ?thesis using bumpLoop_caughtUp [OF s5(1)] caughtUp_view by blast
qed

lemma processEnvelope_caughtUp:
  assumes "processEnvelope S self env s = Inr (VALID, s')" "ready s" "mCurrentMessageLevel s = 0"
  shows "caughtUp S s'"
proof -
  have res: "processEnvelopeWith (advanceSlot 50 S) S self env s = Inr (VALID, s')"
    using assms(1) by (simp add: processEnvelope_def)
  from res have "env \<in> {env} \<or> ownEnvelope S s env" by simp
  with res show ?thesis
  proof (cases rule: processEnvelopeWith_cases)
    case (2 t fv)
    have t: "ready t" "mCurrentMessageLevel t = 0" "mPhase t = mPhase s"
      using ready_step [OF 2(3) assms(2)] assms(3) by (simp_all add: 2(2) slot_update)
    show ?thesis
    proof (cases "mPhase s = SCP_PHASE_EXTERNALIZE")
      case True
      then show ?thesis using 2(4) t(3) by (simp add: caughtUp_def)
    next
      case False
      then have "advanceSlot (Suc 49) S (statement env) t = Inr s'" using 2(4) by simp
      then show ?thesis using t(1,2) by (rule advanceSlot_caughtUp)
    qed
  qed simp
qed

section \<open>The values of a statement\<close>

fun checkedValues :: "SCPPledges \<Rightarrow> Value list" where
  "checkedValues (SCP_ST_PREPARE _ b p _ _ _) =
     (case p of Some x \<Rightarrow> set_insert (bvalue x) | None \<Rightarrow> (\<lambda>vs. vs)) (if counter b \<noteq> 0 then [bvalue b] else [])"
| "checkedValues (SCP_ST_CONFIRM b _ _ _ _) = [bvalue b]"
| "checkedValues (SCP_ST_EXTERNALIZE c _ _) = [bvalue c]"
| "checkedValues (SCP_ST_NOMINATE _ _ _) = []"

definition worse :: "ValidationLevel \<Rightarrow> ValidationLevel \<Rightarrow> ValidationLevel" where
  "worse res tr = (if tr \<noteq> kFullyValidatedValue then tr else res)"

text \<open>The verdict is the one on the last value that is not fully valid.\<close>

lemma validateValues_eq:
  assumes "\<not> isNominate (pledges st)"
  shows "validateValues S st s =
    foldl worse kFullyValidatedValue (map (\<lambda>v. validateValue S (mSlotIndex s) v False) (checkedValues (pledges st)))"
proof -
  have "(\<lambda>res v. let tr = validateValue S (mSlotIndex s) v False in
      if tr \<noteq> kFullyValidatedValue then (if tr = kInvalidValue then kInvalidValue else kMaybeValidValue) else res) =
    (\<lambda>res v. worse res (validateValue S (mSlotIndex s) v False))"
    by (intro ext) (auto simp: worse_def Let_def intro: ValidationLevel.exhaust)
  then show ?thesis
    using assms by (cases "pledges st") (simp_all add: validateValues_def foldl_map)
qed

lemma foldl_worse_valid:
  "foldl worse r ls = kFullyValidatedValue \<longleftrightarrow> r = kFullyValidatedValue \<and> set ls \<subseteq> {kFullyValidatedValue}"
  by (induction ls arbitrary: r) (auto simp: worse_def)

end
