(* ===== verification/Examples.thy ===== *)
theory Examples
  imports Agreement NominationTermination SlotMap BallotBehaviour
begin

text \<open>
  Concrete nodes and runs: a node on its own and two nodes that need each other. They show that the
  hypotheses of the theorems can hold, and that the modelled protocol decides.
\<close>

section \<open>Nodes\<close>

text \<open>An application that accepts every value and prefers node 1 as the leader.\<close>

definition exampleContext :: "SCPQuorumSet \<Rightarrow> NodeID \<Rightarrow> SCPContext" where
  "exampleContext q n =
     \<lparr>getQSet = (\<lambda>h. if h = 9 then Some q else None), validateValue = (\<lambda>i v b. kFullyValidatedValue),
      extractValidValue = (\<lambda>i v. []), computeHashNode = (\<lambda>i v b r m. if b then (if m = 1 then 2 else 1) else 0),
      computeValueHash = (\<lambda>i v r x. 1), combineCandidates = (\<lambda>i vs. concat vs), signEnvelope = (\<lambda>st. []),
      verifyEnvelope = (\<lambda>e. True), localNodeID = n, localIsValidator = True, localQSet = q, localQSetHash = 9\<rparr>"

definition soloCtx :: SCPContext where
  "soloCtx = exampleContext (SCPQuorumSet 1 [1] []) 1"

definition pairCtx :: "NodeID \<Rightarrow> SCPContext" where
  "pairCtx = exampleContext (SCPQuorumSet 2 [1, 2] [])"

lemma extract_example: "extractContract (exampleContext q n) i"
  by (simp add: extractContract_def exampleContext_def)

section \<open>A node on its own\<close>

text \<open>Nominating a value takes the node through both protocols.\<close>

lemma solo_run:
  "case slot_input soloCtx (Nominate [7] [1]) (newSlot soloCtx 5) of
     Some (Inr s) \<Rightarrow>
       mPhase s = SCP_PHASE_EXTERNALIZE \<and> map_option bvalue (mCommit s) = Some [7] \<and>
       externalizedValues s = [(5, [7])] \<and> mVotes s = [[7]] \<and> mAccepted s = [[7]] \<and> mCandidates s = [[7]] \<and>
       mCurrentBallot s \<noteq> None \<and> length (emittedBallots s) = 1 \<and> length (emittedNominations s) = 1 \<and>
       length (mLatestEnvelopes s) = 1 \<and> mPreviousValue s = [1]
   | _ \<Rightarrow> False"
  by code_simp

lemma solo_slot:
  obtains s where "slot_input soloCtx (Nominate [7] [1]) (newSlot soloCtx 5) = Some (Inr s)"
    "slot_reachable soloCtx 5 s" "mPhase s = SCP_PHASE_EXTERNALIZE" "locked s [7]" "mVotes s = [[7]]"
    "mAccepted s = [[7]]" "mCandidates s = [[7]]" "mCurrentBallot s \<noteq> None" "length (mLatestEnvelopes s) = 1"
    "mPreviousValue s = [1]"
proof -
  obtain s where s: "slot_input soloCtx (Nominate [7] [1]) (newSlot soloCtx 5) = Some (Inr s)"
    "mPhase s = SCP_PHASE_EXTERNALIZE" "map_option bvalue (mCommit s) = Some [7]" "mVotes s = [[7]]"
    "mAccepted s = [[7]]" "mCandidates s = [[7]]" "mCurrentBallot s \<noteq> None" "length (mLatestEnvelopes s) = 1"
    "mPreviousValue s = [1]"
    using solo_run by (auto split: option.splits sum.splits)
  have "slot_reachable soloCtx 5 s"
    using slot_reachable.input [OF slot_reachable.created _ s(1)] by (simp add: trustworthy_def)
  then show ?thesis using that s by (simp add: locked_def)
qed

text \<open>A statement of a node that is at counter 4, and a slot that knows of one peer ahead of it and another behind.\<close>

definition aheadEnvelope :: SCPEnvelope where
  "aheadEnvelope = \<lparr>statement = \<lparr>nodeID = 2, slotIndex = 5, pledges = SCP_ST_PREPARE 9 (SCPBallot 4 [7]) None None 0 0\<rparr>,
     signature = []\<rparr>"

definition laggardSlot :: Slot where
  "laggardSlot = (newSlot soloCtx 5)\<lparr>mCurrentBallot := Some (SCPBallot 3 [7]), mLatestEnvelopes :=
     [(1, \<lparr>statement = \<lparr>nodeID = 1, slotIndex = 5, pledges = SCP_ST_PREPARE 9 (SCPBallot 4 [7]) None None 0 0\<rparr>, signature = []\<rparr>),
      (2, \<lparr>statement = \<lparr>nodeID = 2, slotIndex = 5, pledges = SCP_ST_PREPARE 9 (SCPBallot 1 [7]) None None 0 0\<rparr>, signature = []\<rparr>)]\<rparr>"

text \<open>Of two nodes that need each other, one is at counter 1 when the statement of the other arrives.\<close>

lemma catch_up_run:
  "case slot_input (pairCtx 1) (BumpState [7] True) (newSlot (pairCtx 1) 5) of
     Some (Inr s) \<Rightarrow> currentCounter s = 1 \<and>
       (case slot_processEnvelope (pairCtx 1) aheadEnvelope False s of
          Some (Inr (r, s')) \<Rightarrow> r = VALID \<and> mPhase s' = SCP_PHASE_PREPARE \<and> noLaggard s' \<and> canBump s' \<and>
            leftBehind (pairCtx 1) s' 3 \<and> currentCounter s' = 4
        | _ \<Rightarrow> False)
   | _ \<Rightarrow> False"
  by code_simp

lemma catch_up:
  obtains s s' where "slot_reachable (pairCtx 1) 5 s" "currentCounter s = 1"
    "slot_processEnvelope (pairCtx 1) aheadEnvelope False s = Some (Inr (VALID, s'))" "mPhase s' = SCP_PHASE_PREPARE"
    "noLaggard s'" "canBump s'" "leftBehind (pairCtx 1) s' 3" "currentCounter s' = 4"
proof -
  obtain s where s: "slot_input (pairCtx 1) (BumpState [7] True) (newSlot (pairCtx 1) 5) = Some (Inr s)" "currentCounter s = 1"
    and run: "case slot_processEnvelope (pairCtx 1) aheadEnvelope False s of
          Some (Inr (r, s')) \<Rightarrow> r = VALID \<and> mPhase s' = SCP_PHASE_PREPARE \<and> noLaggard s' \<and> canBump s' \<and>
            leftBehind (pairCtx 1) s' 3 \<and> currentCounter s' = 4
        | _ \<Rightarrow> False"
    using catch_up_run
    by (cases "slot_input (pairCtx 1) (BumpState [7] True) (newSlot (pairCtx 1) 5)") (auto split: sum.splits)
  obtain s' where s': "slot_processEnvelope (pairCtx 1) aheadEnvelope False s = Some (Inr (VALID, s'))" "mPhase s' = SCP_PHASE_PREPARE"
    "noLaggard s'" "canBump s'" "leftBehind (pairCtx 1) s' 3" "currentCounter s' = 4"
    using run by (cases "slot_processEnvelope (pairCtx 1) aheadEnvelope False s") (auto split: sum.splits)
  have "slot_reachable (pairCtx 1) 5 s"
    using slot_reachable.input [OF slot_reachable.created _ s(1)] by (simp add: trustworthy_def)
  then show ?thesis using that s s' by blast
qed

section \<open>Running a network\<close>

text \<open>A schedule: calls of the application and deliveries of the \<open>k\<close>-th message a node sent.\<close>

datatype NetEvent = Call SlotInput | Deliver NodeID nat

definition emittedEnvelopes :: "Slot \<Rightarrow> SCPEnvelope list" where
  "emittedEnvelopes s = concat (map (\<lambda>c. case c of EmitEnvelope e \<Rightarrow> [e] | _ \<Rightarrow> []) (mDriverCalls s))"

definition eventInput :: "NetEvent \<Rightarrow> Network \<Rightarrow> SlotInput option" where
  "eventInput ev \<sigma> =
     (case ev of
        Call inp \<Rightarrow> (case inp of Receive _ \<Rightarrow> None | _ \<Rightarrow> Some inp)
      | Deliver n k \<Rightarrow>
          let es = emittedEnvelopes (\<sigma> n)
          in if k < length es \<and> nodeID (statement (es ! k)) = n then Some (Receive (es ! k)) else None)"

fun runNetwork ::
  "NodeID list \<Rightarrow> (NodeID \<Rightarrow> SCPContext) \<Rightarrow> (NodeID \<times> NetEvent) list \<Rightarrow> Network \<Rightarrow> Network option" where
  "runNetwork W ctx [] \<sigma> = Some \<sigma>"
| "runNetwork W ctx ((w, ev) # evs) \<sigma> =
     (if w \<notin> set W then None
      else case eventInput ev \<sigma> of
        None \<Rightarrow> None
      | Some inp \<Rightarrow>
          (case slot_input (ctx w) inp (\<sigma> w) of
             Some (Inr s') \<Rightarrow> runNetwork W ctx evs (\<sigma>(w := s'))
           | _ \<Rightarrow> None))"

lemma eventInput_delivered: "eventInput ev \<sigma> = Some inp \<Longrightarrow> delivered W \<sigma> inp"
proof (cases ev)
  case (Deliver n k)
  assume "eventInput ev \<sigma> = Some inp"
  then have inp: "inp = Receive (emittedEnvelopes (\<sigma> n) ! k)" "k < length (emittedEnvelopes (\<sigma> n))"
    "nodeID (statement (emittedEnvelopes (\<sigma> n) ! k)) = n"
    by (auto simp: eventInput_def Deliver Let_def split: if_splits)
  have "EmitEnvelope e \<in> set (mDriverCalls s)" if "e \<in> set (emittedEnvelopes s)" for e s
    using that by (auto simp: emittedEnvelopes_def split: DriverCall.splits)
  from this [OF nth_mem [OF inp(2)]] show ?thesis using inp by (simp add: delivered_def)
qed (auto simp: eventInput_def delivered_def split: SlotInput.splits)

lemma runNetwork_reachable:
  "runNetwork W ctx evs \<sigma> = Some \<sigma>' \<Longrightarrow> network_reachable (set W) ctx i \<sigma> \<Longrightarrow> network_reachable (set W) ctx i \<sigma>'"
proof (induction W ctx evs \<sigma> rule: runNetwork.induct)
  case (2 W ctx w ev evs \<sigma>)
  then obtain inp s' where step: "w \<in> set W" "eventInput ev \<sigma> = Some inp" "slot_input (ctx w) inp (\<sigma> w) = Some (Inr s')"
    "runNetwork W ctx evs (\<sigma>(w := s')) = Some \<sigma>'"
    by (auto split: if_splits option.splits sum.splits)
  have "network_reachable (set W) ctx i (\<sigma>(w := s'))"
    using "2.prems"(2) step(1) eventInput_delivered [OF step(2)] step(3) by (rule network_reachable.node)
  then show ?case using "2.IH" step by blast
qed simp

text \<open>A node of a network runs through reachable slots.\<close>

lemma network_slot_reachable:
  assumes "network_reachable W ctx i \<sigma>" "federation W ctx" "w \<in> W"
  shows "slot_reachable (ctx w) i (\<sigma> w)"
  using assms
proof (induction rule: network_reachable.induct)
  case init
  show ?case by (rule slot_reachable.created)
next
  case (node \<sigma> n inp s')
  have "trustworthy (ctx n) inp (\<sigma> n)"
    using node.hyps(2,3) node.prems(1) by (auto simp: trustworthy_def delivered_def federation_def)
  then show ?case
    using node by (cases "w = n") (auto intro: slot_reachable.input)
qed

section \<open>Two nodes\<close>

definition pairSchedule :: "(NodeID \<times> NetEvent) list" where
  "pairSchedule =
     [(1, Call (Nominate [7] [1])), (2, Call (Nominate [8] [1])), (2, Deliver 1 0), (1, Deliver 2 0),
      (2, Deliver 1 2), (1, Deliver 2 1), (2, Deliver 1 1), (1, Deliver 2 2), (2, Deliver 1 3), (1, Deliver 2 3),
      (2, Deliver 1 4), (1, Deliver 2 4), (2, Deliver 1 5), (1, Deliver 2 5)]"

lemma pair_run:
  "case runNetwork [1, 2] pairCtx pairSchedule (\<lambda>n. newSlot (pairCtx n) 5) of
     Some \<sigma> \<Rightarrow>
       externalizedValues (\<sigma> 1) = [(5, [7])] \<and> externalizedValues (\<sigma> 2) = [(5, [7])] \<and>
       3 \<le> length (emittedBallots (\<sigma> 1)) \<and> 2 \<le> length (emittedNominations (\<sigma> 1)) \<and> length (mLatestEnvelopes (\<sigma> 1)) = 2
   | None \<Rightarrow> False"
  by code_simp

lemma externalizedValues_iff: "(i, v) \<in> set (externalizedValues s) \<longleftrightarrow> ValueExternalized i v \<in> set (mDriverCalls s)"
proof -
  have "(i, v) \<in> set (externalizedIn c) \<longleftrightarrow> c = ValueExternalized i v" for c by (cases c) auto
  then show ?thesis by (auto simp: externalizedValues_def)
qed

lemma pair_federation: "federation {1, 2} pairCtx"
  by (auto simp: federation_def pairCtx_def exampleContext_def)

lemma pair_quorum_intersection: "quorum_intersection {1, 2} pairCtx"
proof -
  have "{1, 2} \<subseteq> V" if "quorum_of {1, 2} pairCtx V" "V \<inter> {1, 2} \<noteq> {}" for V
    using that by (auto simp: quorum_of_def pairCtx_def exampleContext_def eff_threshold_def split: if_splits)
  then show ?thesis unfolding quorum_intersection_def by blast
qed

lemma pair_network:
  obtains \<sigma> where "network_reachable {1, 2} pairCtx 5 \<sigma>"
    "ValueExternalized 5 [7] \<in> set (mDriverCalls (\<sigma> 1))" "ValueExternalized 5 [7] \<in> set (mDriverCalls (\<sigma> 2))"
    "slot_reachable (pairCtx 1) 5 (\<sigma> 1)" "3 \<le> length (emittedBallots (\<sigma> 1))"
    "2 \<le> length (emittedNominations (\<sigma> 1))" "length (mLatestEnvelopes (\<sigma> 1)) = 2"
proof -
  obtain \<sigma> where \<sigma>: "runNetwork [1, 2] pairCtx pairSchedule (\<lambda>n. newSlot (pairCtx n) 5) = Some \<sigma>"
    "externalizedValues (\<sigma> 1) = [(5, [7])]" "externalizedValues (\<sigma> 2) = [(5, [7])]"
    "3 \<le> length (emittedBallots (\<sigma> 1))" "2 \<le> length (emittedNominations (\<sigma> 1))" "length (mLatestEnvelopes (\<sigma> 1)) = 2"
    using pair_run by (auto split: option.splits)
  have net: "network_reachable {1, 2} pairCtx 5 \<sigma>"
    using runNetwork_reachable [OF \<sigma>(1) network_reachable.init] by simp
  have "slot_reachable (pairCtx 1) 5 (\<sigma> 1)" using network_slot_reachable [OF net pair_federation] by simp
  then show ?thesis
    using that net \<sigma> externalizedValues_iff [of 5 "[7]" "\<sigma> 1"] externalizedValues_iff [of 5 "[7]" "\<sigma> 2"] by simp
qed

end
