(* ===== verification/LedgerEntries.thy ===== *)
theory LedgerEntries
  imports Numeric "HOL-Library.Char_ord" "HOL-Library.Product_Lexorder"
begin

text \<open>
  The entries of the ledger (\<^verbatim>\<open>xdr/Stellar-ledger-entries.x\<close>): accounts, trust lines, offers and data, the keys
  that identify them (\<^verbatim>\<open>xdr/Stellar-ledger.x\<close>) and the order of keys (\<^verbatim>\<open>bucket/LedgerCmp.h\<close>). An account
  identifier is a key of 32 bytes, compared as a byte string, hence a 256-bit word. A union with the versions
  0 and 1 whose version 1 adds one structure is an \<open>option\<close>.
\<close>

section \<open>Errors\<close>

datatype ledger_error = ArithError arith_error | RuntimeThrow string | AssertFailed | NullPointer

definition arith :: "arith_error + 'a \<Rightarrow> ledger_error + 'a" where
  "arith r = (case r of Inl e \<Rightarrow> Inl (ArithError e) | Inr x \<Rightarrow> Inr x)"

definition assertL :: "bool \<Rightarrow> ledger_error + unit" where
  "assertL c = (if c then Inr () else Inl AssertFailed)"

section \<open>Assets and entries\<close>

type_synonym AccountID = u256

datatype Asset =
    ASSET_TYPE_NATIVE
  | ASSET_TYPE_CREDIT_ALPHANUM4 (assetCode: "u8 list") (assetIssuer: AccountID)
  | ASSET_TYPE_CREDIT_ALPHANUM12 (assetCode: "u8 list") (assetIssuer: AccountID)

record Price =
  price_n :: int
  price_d :: int

record Liabilities =
  liab_buying :: int
  liab_selling :: int

datatype SignerKey =
    SIGNER_KEY_TYPE_ED25519 u256
  | SIGNER_KEY_TYPE_PRE_AUTH_TX u256
  | SIGNER_KEY_TYPE_HASH_X u256

record Signer =
  signer_key :: SignerKey
  signer_weight :: u32

record AccountEntry =
  acc_accountID :: AccountID
  acc_balance :: int
  acc_seqNum :: int
  acc_numSubEntries :: u32
  acc_inflationDest :: "AccountID option"
  acc_flags :: u32
  acc_homeDomain :: string
  acc_thresholds :: "u8 list"
  acc_signers :: "Signer list"
  acc_v1 :: "Liabilities option"

record TrustLineEntry =
  tl_accountID :: AccountID
  tl_asset :: Asset
  tl_balance :: int
  tl_limit :: int
  tl_flags :: u32
  tl_v1 :: "Liabilities option"

record OfferEntry =
  of_sellerID :: AccountID
  of_offerID :: u64
  of_selling :: Asset
  of_buying :: Asset
  of_amount :: int
  of_price :: Price
  of_flags :: u32

record DataEntry =
  dt_accountID :: AccountID
  dt_dataName :: string
  dt_dataValue :: "u8 list"

datatype LedgerEntryData =
    ACCOUNT AccountEntry
  | TRUSTLINE TrustLineEntry
  | OFFER OfferEntry
  | DATA DataEntry

record LedgerEntry =
  lastModifiedLedgerSeq :: u32
  le_data :: LedgerEntryData

datatype LedgerKey =
    AccountKey AccountID
  | TrustLineKey AccountID Asset
  | OfferKey AccountID u64
  | DataKey AccountID string

definition LedgerEntryKey :: "LedgerEntry \<Rightarrow> LedgerKey" where
  "LedgerEntryKey e =
     (case le_data e of
        ACCOUNT a \<Rightarrow> AccountKey (acc_accountID a)
      | TRUSTLINE t \<Rightarrow> TrustLineKey (tl_accountID t) (tl_asset t)
      | OFFER f \<Rightarrow> OfferKey (of_sellerID f) (of_offerID f)
      | DATA d \<Rightarrow> DataKey (dt_accountID d) (dt_dataName d))"

definition getIssuer :: "Asset \<Rightarrow> ledger_error + AccountID" where
  "getIssuer asset =
     (case asset of
        ASSET_TYPE_NATIVE \<Rightarrow> Inl (RuntimeThrow ''bad union switch'')
      | ASSET_TYPE_CREDIT_ALPHANUM4 _ issuer \<Rightarrow> Inr issuer
      | ASSET_TYPE_CREDIT_ALPHANUM12 _ issuer \<Rightarrow> Inr issuer)"

definition compareAsset :: "Asset \<Rightarrow> Asset \<Rightarrow> bool" where
  "compareAsset a b =
     (case (a, b) of
        (ASSET_TYPE_NATIVE, ASSET_TYPE_NATIVE) \<Rightarrow> True
      | (ASSET_TYPE_CREDIT_ALPHANUM4 c i, ASSET_TYPE_CREDIT_ALPHANUM4 c' i') \<Rightarrow> i = i' \<and> c = c'
      | (ASSET_TYPE_CREDIT_ALPHANUM12 c i, ASSET_TYPE_CREDIT_ALPHANUM12 c' i') \<Rightarrow> i = i' \<and> c = c'
      | _ \<Rightarrow> False)"

section \<open>The order of keys\<close>

text \<open>XDR unions compare their discriminants first, then the fields of the arm in order.\<close>

fun assetRank :: "Asset \<Rightarrow> nat \<times> u8 list \<times> AccountID" where
  "assetRank ASSET_TYPE_NATIVE = (0, [], 0)"
| "assetRank (ASSET_TYPE_CREDIT_ALPHANUM4 c i) = (1, c, i)"
| "assetRank (ASSET_TYPE_CREDIT_ALPHANUM12 c i) = (2, c, i)"

lemma assetRank_inj: "assetRank a = assetRank b \<Longrightarrow> a = b"
  by (cases a; cases b) simp_all

instantiation Asset :: linorder
begin

definition less_Asset :: "Asset \<Rightarrow> Asset \<Rightarrow> bool" where
  "less_Asset a b \<longleftrightarrow> assetRank a < assetRank b"

definition less_eq_Asset :: "Asset \<Rightarrow> Asset \<Rightarrow> bool" where
  "less_eq_Asset a b \<longleftrightarrow> assetRank a \<le> assetRank b"

instance
  by standard (auto simp: less_Asset_def less_eq_Asset_def less_le_not_le dest: assetRank_inj order.antisym)

end

fun keyType :: "LedgerKey \<Rightarrow> nat" where
  "keyType (AccountKey _) = 0"
| "keyType (TrustLineKey _ _) = 1"
| "keyType (OfferKey _ _) = 2"
| "keyType (DataKey _ _) = 3"

text \<open>\<^verbatim>\<open>LedgerEntryIdCmp\<close> is a template over entries and keys; both show it the fields of their key.\<close>

definition LedgerEntryIdCmp :: "LedgerKey \<Rightarrow> LedgerKey \<Rightarrow> bool" where
  "LedgerEntryIdCmp a b =
     (if keyType a < keyType b then True
      else if keyType a > keyType b then False
      else case (a, b) of
        (AccountKey x, AccountKey y) \<Rightarrow> x < y
      | (TrustLineKey x p, TrustLineKey y q) \<Rightarrow> if x < y then True else if y < x then False else p < q
      | (OfferKey x p, OfferKey y q) \<Rightarrow> if x < y then True else if y < x then False else p < q
      | (DataKey x p, DataKey y q) \<Rightarrow> if x < y then True else if y < x then False else p < q
      | _ \<Rightarrow> False)"

fun keyRank :: "LedgerKey \<Rightarrow> nat \<times> AccountID \<times> Asset \<times> u64 \<times> string" where
  "keyRank (AccountKey x) = (0, x, ASSET_TYPE_NATIVE, 0, [])"
| "keyRank (TrustLineKey x a) = (1, x, a, 0, [])"
| "keyRank (OfferKey x i) = (2, x, ASSET_TYPE_NATIVE, i, [])"
| "keyRank (DataKey x s) = (3, x, ASSET_TYPE_NATIVE, 0, s)"

lemma keyRank_inj: "keyRank a = keyRank b \<Longrightarrow> a = b"
  by (cases a; cases b) simp_all

lemma LedgerEntryIdCmp_rank: "LedgerEntryIdCmp a b \<longleftrightarrow> keyRank a < keyRank b"
  by (cases a; cases b) (auto simp: LedgerEntryIdCmp_def)

instantiation LedgerKey :: linorder
begin

definition less_LedgerKey :: "LedgerKey \<Rightarrow> LedgerKey \<Rightarrow> bool" where
  "less_LedgerKey a b \<longleftrightarrow> LedgerEntryIdCmp a b"

definition less_eq_LedgerKey :: "LedgerKey \<Rightarrow> LedgerKey \<Rightarrow> bool" where
  "less_eq_LedgerKey a b \<longleftrightarrow> a = b \<or> LedgerEntryIdCmp a b"

instance
proof
  fix x y z :: LedgerKey
  note [simp] = less_LedgerKey_def less_eq_LedgerKey_def LedgerEntryIdCmp_rank
  show "x < y \<longleftrightarrow> x \<le> y \<and> \<not> y \<le> x" by auto
  show "x \<le> x" by simp
  show "x \<le> y \<Longrightarrow> y \<le> z \<Longrightarrow> x \<le> z" by (auto dest: less_trans)
  show "x \<le> y \<Longrightarrow> y \<le> x \<Longrightarrow> x = y" by (auto dest: less_asym)
  show "x \<le> y \<or> y \<le> x" using keyRank_inj [of x y] linorder_less_linear [of "keyRank x" "keyRank y"] by auto
qed

end

lemma arith_simps [simp]: "arith (Inr x) = Inr x" "arith (Inl e) = Inl (ArithError e)"
  by (simp_all add: arith_def)

lemma assertL_simps [simp]: "assertL True = Inr ()" "assertL False = Inl AssertFailed"
  by (simp_all add: assertL_def)

lemma compareAsset_eq: "compareAsset a b \<longleftrightarrow> a = b"
  by (cases a; cases b) (auto simp: compareAsset_def)

end
