(* ===== verification/OfferExchange.thy ===== *)
theory OfferExchange
  imports LedgerEntries
begin

text \<open>
  The arithmetic of crossing offers (\<^verbatim>\<open>transactions/OfferExchange.cpp\<close>): how much wheat is bought for how
  much sheep at a price, subject to the limits of both sides. \<^verbatim>\<open>int64_t\<close> and \<^verbatim>\<open>int32_t\<close> are \<open>int\<close>s, the
  128-bit products are words. The properties are the guarantees that the long comments of the source argue
  for: results within all limits, rounding in favour of the offer that stays, a bounded price error, and
  adjusting an offer being idempotent.
\<close>

section \<open>Results\<close>

datatype ExchangeResultType = NORMAL | REDUCED_TO_ZERO | BOGUS

record ExchangeResult =
  numWheatReceived :: int
  numSheepSend :: int
  reduced :: bool

record ExchangeResultV10 =
  wheatReceivedV10 :: int
  sheepSendV10 :: int
  wheatStays :: bool

definition exchangeResultType :: "ExchangeResult \<Rightarrow> ExchangeResultType" where
  "exchangeResultType r =
     (if numWheatReceived r \<noteq> 0 \<and> numSheepSend r \<noteq> 0 then NORMAL
      else if reduced r then REDUCED_TO_ZERO else BOGUS)"

section \<open>Protocols 2 and 3\<close>

text \<open>\<^verbatim>\<open>if (!bigDivide(result, A, B, C, rounding)) result = INT64_MAX;\<close>, with the status.\<close>

definition divideOrMax :: "int \<Rightarrow> int \<Rightarrow> int \<Rightarrow> Rounding \<Rightarrow> ledger_error + (bool \<times> int)" where
  "divideOrMax A B C rounding =
     bindR (arith (bigDivide_i64 A B C rounding)) (\<lambda>(ok, res).
     Inr (case (ok, res) of (True, Some x) \<Rightarrow> (True, x) | _ \<Rightarrow> (False, INT64_MAX)))"

definition exchangeV2 :: "int \<Rightarrow> Price \<Rightarrow> int \<Rightarrow> int \<Rightarrow> ledger_error + ExchangeResult" where
  "exchangeV2 wheatReceived0 price maxWheatReceive maxSheepSend =
     (let reduced1 = wheatReceived0 > maxWheatReceive;
          wheatReceived = min wheatReceived0 maxWheatReceive in
      bindR (divideOrMax wheatReceived (price_n price) (price_d price) ROUND_DOWN) (\<lambda>(_, sheep1).
      let reduced2 = (reduced1 \<or> sheep1 > maxSheepSend);
          sheep2 = min sheep1 maxSheepSend in
      bindR (arith (bigDivide_throw sheep2 (price_d price) (price_n price) ROUND_DOWN)) (\<lambda>wheat.
      Inr \<lparr>numWheatReceived = wheat, numSheepSend = sheep2, reduced = reduced2\<rparr>)))"

definition exchangeV3 :: "int \<Rightarrow> Price \<Rightarrow> int \<Rightarrow> int \<Rightarrow> ledger_error + ExchangeResult" where
  "exchangeV3 wheatReceived0 price maxWheatReceive maxSheepSend =
     (let reduced1 = wheatReceived0 > maxWheatReceive;
          wheat1 = min wheatReceived0 maxWheatReceive in
      bindR (divideOrMax wheat1 (price_n price) (price_d price) ROUND_UP) (\<lambda>(ok, sheep1).
      let reduced2 = (reduced1 \<or> \<not> ok);
          reduced3 = (reduced2 \<or> sheep1 > maxSheepSend);
          sheep2 = min sheep1 maxSheepSend in
      bindR (divideOrMax sheep2 (price_d price) (price_n price) ROUND_DOWN) (\<lambda>(_, newWheat).
      Inr \<lparr>numWheatReceived = min wheat1 newWheat, numSheepSend = sheep2, reduced = reduced3\<rparr>)))"

section \<open>Protocol 10\<close>

definition checkPriceErrorBound :: "Price \<Rightarrow> int \<Rightarrow> int \<Rightarrow> bool \<Rightarrow> ledger_error + bool" where
  "checkPriceErrorBound price wheatReceive sheepSend canFavorWheat =
     bindR (arith (bigMultiply_i64 (100 * price_n price) wheatReceive)) (\<lambda>lhs.
     bindR (arith (bigMultiply_i64 (100 * price_d price) sheepSend)) (\<lambda>rhs.
     if canFavorWheat \<and> rhs > lhs then Inr True
     else let absDiff = (if lhs > rhs then lhs - rhs else rhs - lhs) in
       bindR (arith (bigMultiply_i64 (price_n price) wheatReceive)) (\<lambda>cap.
       Inr (absDiff \<le> cap))))"

definition calculateOfferValue :: "int \<Rightarrow> int \<Rightarrow> int \<Rightarrow> int \<Rightarrow> ledger_error + u128" where
  "calculateOfferValue priceN priceD maxSend maxReceive =
     bindR (arith (bigMultiply_i64 maxSend priceN)) (\<lambda>sendValue.
     bindR (arith (bigMultiply_i64 maxReceive priceD)) (\<lambda>receiveValue.
     Inr (min sendValue receiveValue)))"

text \<open>The amounts, by which offer is larger and which asset is more valuable.\<close>

definition tradeV10 :: "int \<Rightarrow> int \<Rightarrow> u128 \<Rightarrow> u128 \<Rightarrow> bool \<Rightarrow> ledger_error + (int \<times> int)" where
  "tradeV10 n d wheatValue sheepValue isPathPayment =
     (if wheatValue > sheepValue
      then if n > d \<or> isPathPayment
           then bindR (arith (bigDivide128_throw sheepValue n ROUND_DOWN)) (\<lambda>wheatReceive.
                bindR (arith (bigDivide_throw wheatReceive n d ROUND_UP)) (\<lambda>sheepSend.
                Inr (wheatReceive, sheepSend)))
           else bindR (arith (bigDivide128_throw sheepValue d ROUND_DOWN)) (\<lambda>sheepSend.
                bindR (arith (bigDivide_throw sheepSend d n ROUND_DOWN)) (\<lambda>wheatReceive.
                Inr (wheatReceive, sheepSend)))
      else if n > d
           then bindR (arith (bigDivide128_throw wheatValue n ROUND_DOWN)) (\<lambda>wheatReceive.
                bindR (arith (bigDivide_throw wheatReceive n d ROUND_DOWN)) (\<lambda>sheepSend.
                Inr (wheatReceive, sheepSend)))
           else bindR (arith (bigDivide128_throw wheatValue d ROUND_DOWN)) (\<lambda>sheepSend.
                bindR (arith (bigDivide_throw sheepSend d n ROUND_UP)) (\<lambda>wheatReceive.
                Inr (wheatReceive, sheepSend))))"

definition exchangeV10WithoutPriceErrorThresholds ::
  "Price \<Rightarrow> int \<Rightarrow> int \<Rightarrow> int \<Rightarrow> int \<Rightarrow> bool \<Rightarrow> ledger_error + ExchangeResultV10" where
  "exchangeV10WithoutPriceErrorThresholds price maxWheatSend maxWheatReceive maxSheepSend maxSheepReceive
     isPathPayment =
     (let n = price_n price; d = price_d price in
      bindR (calculateOfferValue n d maxWheatSend maxSheepReceive) (\<lambda>wheatValue.
      bindR (calculateOfferValue d n maxSheepSend maxWheatReceive) (\<lambda>sheepValue.
      let stays = (wheatValue > sheepValue) in
      bindR (tradeV10 n d wheatValue sheepValue isPathPayment) (\<lambda>(wheatReceive, sheepSend).
      if wheatReceive < 0 \<or> wheatReceive > min maxWheatReceive maxWheatSend
      then Inl (RuntimeThrow ''wheatReceive out of bounds'')
      else if sheepSend < 0 \<or> sheepSend > min maxSheepReceive maxSheepSend
      then Inl (RuntimeThrow ''sheepSend out of bounds'')
      else Inr \<lparr>wheatReceivedV10 = wheatReceive, sheepSendV10 = sheepSend, wheatStays = stays\<rparr>))))"

definition applyPriceErrorThresholds ::
  "Price \<Rightarrow> int \<Rightarrow> int \<Rightarrow> bool \<Rightarrow> bool \<Rightarrow> ledger_error + ExchangeResultV10" where
  "applyPriceErrorThresholds price wheatReceive sheepSend stays isPathPayment =
     (if wheatReceive > 0 \<and> sheepSend > 0
      then
        bindR (arith (bigMultiply_i64 wheatReceive (price_n price))) (\<lambda>wheatReceiveValue.
        bindR (arith (bigMultiply_i64 sheepSend (price_d price))) (\<lambda>sheepSendValue.
        if stays \<and> sheepSendValue < wheatReceiveValue
        then Inl (RuntimeThrow ''favored sheep when wheat stays'')
        else if \<not> stays \<and> sheepSendValue > wheatReceiveValue
        then Inl (RuntimeThrow ''favored wheat when sheep stays'')
        else if \<not> isPathPayment
        then bindR (checkPriceErrorBound price wheatReceive sheepSend False) (\<lambda>ok.
             if \<not> ok then Inr \<lparr>wheatReceivedV10 = 0, sheepSendV10 = 0, wheatStays = stays\<rparr>
             else Inr \<lparr>wheatReceivedV10 = wheatReceive, sheepSendV10 = sheepSend, wheatStays = stays\<rparr>)
        else bindR (checkPriceErrorBound price wheatReceive sheepSend True) (\<lambda>ok.
             if \<not> ok then Inl (RuntimeThrow ''exceeded price error bound'')
             else Inr \<lparr>wheatReceivedV10 = wheatReceive, sheepSendV10 = sheepSend, wheatStays = stays\<rparr>)))
      else Inr \<lparr>wheatReceivedV10 = 0, sheepSendV10 = 0, wheatStays = stays\<rparr>)"

definition exchangeV10 :: "Price \<Rightarrow> int \<Rightarrow> int \<Rightarrow> int \<Rightarrow> int \<Rightarrow> bool \<Rightarrow> ledger_error + ExchangeResultV10" where
  "exchangeV10 price maxWheatSend maxWheatReceive maxSheepSend maxSheepReceive isPathPayment =
     bindR (exchangeV10WithoutPriceErrorThresholds price maxWheatSend maxWheatReceive maxSheepSend maxSheepReceive
              isPathPayment) (\<lambda>beforeThresholds.
     applyPriceErrorThresholds price (wheatReceivedV10 beforeThresholds) (sheepSendV10 beforeThresholds)
       (wheatStays beforeThresholds) isPathPayment)"

definition adjustOfferAmount :: "Price \<Rightarrow> int \<Rightarrow> int \<Rightarrow> ledger_error + int" where
  "adjustOfferAmount price maxWheatSend maxSheepReceive =
     bindR (exchangeV10 price maxWheatSend INT64_MAX INT64_MAX maxSheepReceive False) (\<lambda>res.
     Inr (wheatReceivedV10 res))"

section \<open>The exchange in natural numbers\<close>

definition int64 :: "int \<Rightarrow> bool" where
  "int64 x \<longleftrightarrow> 0 \<le> x \<and> x \<le> INT64_MAX"

definition validPrice :: "Price \<Rightarrow> bool" where
  "validPrice p \<longleftrightarrow> 0 < price_n p \<and> price_n p \<le> 2147483647 \<and> 0 < price_d p \<and> price_d p \<le> 2147483647"

definition offerValue :: "int \<Rightarrow> int \<Rightarrow> int \<Rightarrow> int \<Rightarrow> nat" where
  "offerValue priceN priceD maxSend maxReceive = min (nat maxSend * nat priceN) (nat maxReceive * nat priceD)"

text \<open>What is traded, given the values of the two offers.\<close>

definition tradeAmounts :: "nat \<Rightarrow> nat \<Rightarrow> nat \<Rightarrow> nat \<Rightarrow> bool \<Rightarrow> nat \<times> nat" where
  "tradeAmounts n d wheatValue sheepValue isPathPayment =
     (if sheepValue < wheatValue
      then if d < n \<or> isPathPayment
           then let w = sheepValue div n in (w, exact_quotient (w * n) d ROUND_UP)
           else let s = sheepValue div d in (s * d div n, s)
      else if d < n
           then let w = wheatValue div n in (w, w * n div d)
           else let s = wheatValue div d in (exact_quotient (s * d) n ROUND_UP, s))"

lemma div_le_bound: "0 < n \<Longrightarrow> x \<le> m * n \<Longrightarrow> x div n \<le> (m :: nat)"
  by (metis div_le_mono div_mult_self_is_m)

lemma tradeAmounts_bounds:
  assumes pos: "0 < n" "0 < d" and t: "tradeAmounts n d wv sv pp = (w, s)"
  shows "min wv sv \<le> m * n \<Longrightarrow> w \<le> m" "min wv sv \<le> m * d \<Longrightarrow> s \<le> m"
    "if sv < wv then w * n \<le> s * d else s * d \<le> w * n"
proof -
  define V where "V = min wv sv"
  have V: "sv < wv \<Longrightarrow> sv = V" "\<not> sv < wv \<Longrightarrow> wv = V" by (simp_all add: V_def)
  consider "w = V div n" "s = exact_quotient (w * n) d ROUND_UP" | "s = V div d" "w = s * d div n"
    | "w = V div n" "s = w * n div d" | "s = V div d" "w = exact_quotient (s * d) n ROUND_UP"
    using t V by (auto simp: tradeAmounts_def Let_def split: if_splits)
  then have "(\<forall>m. V \<le> m * n \<longrightarrow> w \<le> m) \<and> (\<forall>m. V \<le> m * d \<longrightarrow> s \<le> m)"
  proof cases
    case 1
    have "w * n \<le> V" by (simp add: 1)
    then show ?thesis using pos 1 by (simp add: exact_quotient_up_le div_le_bound) (meson div_times_less_eq_dividend order_trans)
  next
    case 2
    have "s * d \<le> V" by (simp add: 2)
    then show ?thesis using pos 2 by (simp add: div_le_bound) (meson div_times_less_eq_dividend div_le_bound order_trans)
  next
    case 3
    have "w * n \<le> V" by (simp add: 3)
    then show ?thesis using pos 3 by (simp add: div_le_bound) (meson div_times_less_eq_dividend div_le_bound order_trans)
  next
    case 4
    have "s * d \<le> V" by (simp add: 4)
    then show ?thesis using pos 4 by (simp add: exact_quotient_up_le div_le_bound) (meson div_times_less_eq_dividend order_trans)
  qed
  then show "min wv sv \<le> m * n \<Longrightarrow> w \<le> m" "min wv sv \<le> m * d \<Longrightarrow> s \<le> m"
    unfolding V_def by blast+
  have up: "x \<le> exact_quotient x c ROUND_UP * c" if "0 < c" for x c
    using exact_quotient_up_le [OF that, of x "exact_quotient x c ROUND_UP"] by simp
  show "if sv < wv then w * n \<le> s * d else s * d \<le> w * n"
    using t up [OF pos(1)] up [OF pos(2)] by (auto simp: tradeAmounts_def Let_def split: if_splits)
qed

section \<open>The code computes the exchange\<close>

lemma int64_nat: "int64 x \<Longrightarrow> nat x \<le> 9223372036854775807"
  by (simp only: int64_def nat_le_iff) simp

lemma price_nat: "validPrice p \<Longrightarrow> 0 < nat (price_n p) \<and> 0 < nat (price_d p)"
  by (simp add: validPrice_def)

lemma price_int64: "validPrice p \<Longrightarrow> int64 (price_n p) \<and> int64 (price_d p)"
  by (simp add: validPrice_def int64_def)

lemma bigMultiply_int64:
  assumes "int64 a" "int64 b"
  obtains v where "bigMultiply_i64 a b = Inr v" "unat v = nat a * nat b"
  using assms by (auto simp: bigMultiply_i64_def int64_def unat_bigMultiply_u64 unat_word_of_int_u64)

lemma calculateOfferValue_spec:
  assumes "int64 priceN" "int64 priceD" "int64 maxSend" "int64 maxReceive"
  obtains v where "calculateOfferValue priceN priceD maxSend maxReceive = Inr v"
    "unat v = offerValue priceN priceD maxSend maxReceive"
proof -
  obtain x y where "bigMultiply_i64 maxSend priceN = Inr x" "unat x = nat maxSend * nat priceN"
    "bigMultiply_i64 maxReceive priceD = Inr y" "unat y = nat maxReceive * nat priceD"
    using assms bigMultiply_int64 by metis
  then show ?thesis
    using that [of "min x y"] by (simp add: calculateOfferValue_def offerValue_def min_def word_le_nat_alt)
qed

lemma divide128_down:
  assumes "0 < B" "int64 B" "unat a \<le> 9223372036854775807 * nat B"
  shows "bigDivide128_throw a B ROUND_DOWN = Inr (int (unat a div nat B))"
  using assms div_le_bound [of "nat B" "unat a" 9223372036854775807]
  by (simp add: bigDivide128_throw_cases int64_def exact_quotient_def)

lemma divide_fits:
  assumes "int64 A" "int64 B" "0 < C" "int64 C" "exact_quotient (nat A * nat B) (nat C) r \<le> 9223372036854775807"
  shows "bigDivide_throw A B C r = Inr (int (exact_quotient (nat A * nat B) (nat C) r))"
  using assms by (simp add: bigDivide_throw_cases int64_def)

text \<open>The exchange without thresholds: it never throws, and returns the amounts of the trade.\<close>

definition withinLimits :: "int \<Rightarrow> int \<Rightarrow> int \<Rightarrow> int \<Rightarrow> bool" where
  "withinLimits maxWheatSend maxWheatReceive maxSheepSend maxSheepReceive \<longleftrightarrow>
     int64 maxWheatSend \<and> int64 maxWheatReceive \<and> int64 maxSheepSend \<and> int64 maxSheepReceive"

abbreviation wheatValueOf :: "Price \<Rightarrow> int \<Rightarrow> int \<Rightarrow> nat" where
  "wheatValueOf p maxWheatSend maxSheepReceive \<equiv> offerValue (price_n p) (price_d p) maxWheatSend maxSheepReceive"

abbreviation sheepValueOf :: "Price \<Rightarrow> int \<Rightarrow> int \<Rightarrow> nat" where
  "sheepValueOf p maxWheatReceive maxSheepSend \<equiv> offerValue (price_d p) (price_n p) maxSheepSend maxWheatReceive"

lemma exchange_computed:
  assumes p: "validPrice p" and lim: "withinLimits mws mwr mss msr"
    and t: "tradeAmounts (nat (price_n p)) (nat (price_d p)) (wheatValueOf p mws msr) (sheepValueOf p mwr mss) pp = (w, s)"
  shows "exchangeV10WithoutPriceErrorThresholds p mws mwr mss msr pp =
    Inr \<lparr>wheatReceivedV10 = int w, sheepSendV10 = int s, wheatStays = sheepValueOf p mwr mss < wheatValueOf p mws msr\<rparr>"
    "int w \<le> mwr" "int w \<le> mws" "int s \<le> mss" "int s \<le> msr"
proof -
  let ?n = "nat (price_n p)" and ?d = "nat (price_d p)"
  let ?wv = "wheatValueOf p mws msr" and ?sv = "sheepValueOf p mwr mss"
  have pos: "0 < ?n" "0 < ?d" and ip: "int64 (price_n p)" "int64 (price_d p)" "0 < price_n p" "0 < price_d p"
    using p by (auto simp: validPrice_def int64_def)
  have il: "int64 mws" "int64 mwr" "int64 mss" "int64 msr" using lim by (simp_all add: withinLimits_def)
  note bnd = tradeAmounts_bounds [OF pos t]
  have "w \<le> nat mwr" "w \<le> nat mws" "s \<le> nat mss" "s \<le> nat msr"
    by (rule bnd, simp add: offerValue_def min_le_iff_disj)+
  then show le: "int w \<le> mwr" "int w \<le> mws" "int s \<le> mss" "int s \<le> msr"
    using il by (auto simp: int64_def)
  have i: "int64 (int w)" "int64 (int s)" using le il by (auto simp: int64_def)
  obtain a where a: "calculateOfferValue (price_n p) (price_d p) mws msr = Inr a" "unat a = ?wv"
    using calculateOfferValue_spec [OF ip(1,2) il(1,4)] by blast
  obtain b where b: "calculateOfferValue (price_d p) (price_n p) mss mwr = Inr b" "unat b = ?sv"
    using calculateOfferValue_spec [OF ip(2,1) il(3,2)] by blast
  have stays: "b < a \<longleftrightarrow> ?sv < ?wv" by (simp add: word_less_nat_alt a(2) b(2))
  have fit: "?sv \<le> 9223372036854775807 * ?n" "?sv \<le> 9223372036854775807 * ?d"
    "?wv \<le> 9223372036854775807 * ?n" "?wv \<le> 9223372036854775807 * ?d"
    using il by (auto simp: offerValue_def int64_nat min_le_iff_disj)
  have q: "bigDivide_throw (int x) B C r = Inr (int (exact_quotient (x * nat B) (nat C) r))"
    if "int64 (int x)" "int64 B" "int64 C" "0 < C" "int64 (int (exact_quotient (x * nat B) (nat C) r))" for x B C r
    using divide_fits [OF that(1,2,4,3), of r] that(5) int64_nat [OF that(5)] by simp
  have down: "exact_quotient x y ROUND_DOWN = x div y" for x y by (simp add: exact_quotient_def)
  have "tradeV10 (price_n p) (price_d p) a b pp = Inr (int w, int s)"
    using t i ip fit
    by (auto simp: tradeV10_def tradeAmounts_def Let_def stays divide128_down a(2) b(2) q down split: if_splits)
  moreover have "\<not> min mwr mws < int w" "\<not> min msr mss < int s" using le by auto
  ultimately show "exchangeV10WithoutPriceErrorThresholds p mws mwr mss msr pp =
    Inr \<lparr>wheatReceivedV10 = int w, sheepSendV10 = int s, wheatStays = ?sv < ?wv\<rparr>"
    by (simp add: exchangeV10WithoutPriceErrorThresholds_def a(1) b(1) Let_def stays)
qed

section \<open>Price errors\<close>

text \<open>The effective price differs from the price by at most one percent; or, if allowed, favours the seller of
  wheat.\<close>

definition priceErrorOk :: "Price \<Rightarrow> int \<Rightarrow> int \<Rightarrow> bool \<Rightarrow> bool" where
  "priceErrorOk p w s canFavorWheat \<longleftrightarrow>
     canFavorWheat \<and> price_n p * w < price_d p * s \<or>
     \<bar>100 * (price_n p * w) - 100 * (price_d p * s)\<bar> \<le> price_n p * w"

lemma checkPriceErrorBound_spec:
  assumes p: "validPrice p" and i: "int64 w" "int64 s"
  shows "checkPriceErrorBound p w s fav = Inr (priceErrorOk p w s fav)"
proof -
  have e: "int64 (100 * price_n p)" "int64 (100 * price_d p)" "int64 (price_n p)"
    using p by (simp_all add: validPrice_def int64_def)
  obtain l r c where l: "bigMultiply_i64 (100 * price_n p) w = Inr l" "unat l = nat (100 * price_n p) * nat w"
    and r: "bigMultiply_i64 (100 * price_d p) s = Inr r" "unat r = nat (100 * price_d p) * nat s"
    and c: "bigMultiply_i64 (price_n p) w = Inr c" "unat c = nat (price_n p) * nat w"
    using bigMultiply_int64 [OF e(1) i(1)] bigMultiply_int64 [OF e(2) i(2)] bigMultiply_int64 [OF e(3) i(1)] by metis
  have pos: "0 \<le> price_n p" "0 \<le> price_d p" "0 \<le> w" "0 \<le> s" using p i by (simp_all add: validPrice_def int64_def)
  have li: "int (unat l) = 100 * (price_n p * w)" "int (unat r) = 100 * (price_d p * s)"
    "int (unat c) = price_n p * w"
    using pos by (simp_all add: l(2) r(2) c(2))
  have "l < r \<longleftrightarrow> price_n p * w < price_d p * s" "r < l \<longleftrightarrow> price_d p * s < price_n p * w"
    using li by (simp_all only: word_less_nat_alt of_nat_less_iff [symmetric, where 'a = int]) linarith+
  moreover have "(if r < l then l - r else r - l) \<le> c \<longleftrightarrow> \<bar>int (unat l) - int (unat r)\<bar> \<le> int (unat c)"
    by (auto simp: word_le_nat_alt word_less_nat_alt unat_sub)
  ultimately show ?thesis
    using li by (auto simp: checkPriceErrorBound_def l(1) r(1) c(1) priceErrorOk_def Let_def)
qed

lemma thresholds_spec:
  assumes p: "validPrice p" and i: "int64 w" "int64 s"
    and fav: "if stays then price_n p * w \<le> price_d p * s else price_d p * s \<le> price_n p * w"
  shows "applyPriceErrorThresholds p w s stays pp =
    (if 0 < w \<and> 0 < s \<and> priceErrorOk p w s pp
     then Inr \<lparr>wheatReceivedV10 = w, sheepSendV10 = s, wheatStays = stays\<rparr>
     else if 0 < w \<and> 0 < s \<and> pp then Inl (RuntimeThrow ''exceeded price error bound'')
     else Inr \<lparr>wheatReceivedV10 = 0, sheepSendV10 = 0, wheatStays = stays\<rparr>)"
proof -
  have e: "int64 (price_n p)" "int64 (price_d p)" using p by (simp_all add: validPrice_def int64_def)
  obtain l r where l: "bigMultiply_i64 w (price_n p) = Inr l" "unat l = nat w * nat (price_n p)"
    and r: "bigMultiply_i64 s (price_d p) = Inr r" "unat r = nat s * nat (price_d p)"
    using bigMultiply_int64 [OF i(1) e(1)] bigMultiply_int64 [OF i(2) e(2)] by metis
  have "int (unat l) = price_n p * w" "int (unat r) = price_d p * s"
    using p i by (simp_all add: l(2) r(2) validPrice_def int64_def mult.commute)
  then have "\<not> (stays \<and> r < l)" "\<not> (\<not> stays \<and> l < r)"
    using fav by (auto simp: word_less_nat_alt split: if_splits)
  then show ?thesis
    by (auto simp: applyPriceErrorThresholds_def l(1) r(1) checkPriceErrorBound_spec [OF p i])
qed

lemma exchangeV10_spec:
  assumes p: "validPrice p" and lim: "withinLimits mws mwr mss msr"
    and t: "tradeAmounts (nat (price_n p)) (nat (price_d p)) (wheatValueOf p mws msr) (sheepValueOf p mwr mss) pp = (w, s)"
  shows "exchangeV10 p mws mwr mss msr pp =
    (let stays = sheepValueOf p mwr mss < wheatValueOf p mws msr in
     if 0 < w \<and> 0 < s \<and> priceErrorOk p (int w) (int s) pp
     then Inr \<lparr>wheatReceivedV10 = int w, sheepSendV10 = int s, wheatStays = stays\<rparr>
     else if 0 < w \<and> 0 < s \<and> pp then Inl (RuntimeThrow ''exceeded price error bound'')
     else Inr \<lparr>wheatReceivedV10 = 0, sheepSendV10 = 0, wheatStays = stays\<rparr>)"
proof -
  let ?stays = "sheepValueOf p mwr mss < wheatValueOf p mws msr"
  note c = exchange_computed [OF p lim t]
  have i: "int64 (int w)" "int64 (int s)" using c(2,4) lim by (auto simp: withinLimits_def int64_def)
  have pos: "0 < nat (price_n p)" "0 < nat (price_d p)" using p by (simp_all add: validPrice_def)
  have n: "int (w * nat (price_n p)) = price_n p * int w" "int (s * nat (price_d p)) = price_d p * int s"
    using p by (simp_all add: validPrice_def)
  have "if ?stays then price_n p * int w \<le> price_d p * int s else price_d p * int s \<le> price_n p * int w"
    using tradeAmounts_bounds(3) [OF pos t] unfolding n [symmetric] by (simp add: of_nat_le_iff del: of_nat_mult)
  from thresholds_spec [OF p i this] show ?thesis by (simp add: exchangeV10_def c(1) Let_def)
qed

section \<open>Adjusting an offer\<close>

lemma unlimited_sheep_stays:
  assumes "int64 mws" "int64 msr"
  shows "\<not> sheepValueOf p INT64_MAX INT64_MAX < wheatValueOf p mws msr"
proof -
  have "nat mws * nat (price_n p) \<le> 9223372036854775807 * nat (price_n p)"
    "nat msr * nat (price_d p) \<le> 9223372036854775807 * nat (price_d p)"
    using int64_nat [OF assms(1)] int64_nat [OF assms(2)] by (intro mult_right_mono; simp)+
  then have "wheatValueOf p mws msr \<le> 9223372036854775807 * nat (price_n p)"
    "wheatValueOf p mws msr \<le> 9223372036854775807 * nat (price_d p)"
    by (simp_all only: offerValue_def min_le_iff_disj) auto
  then show ?thesis by (simp add: offerValue_def [of "price_d p"] not_less)
qed

text \<open>The amounts of a trade in which the whole offer is taken, as a function of the limits of the offer.\<close>

definition takenAmounts :: "Price \<Rightarrow> int \<Rightarrow> int \<Rightarrow> nat \<times> nat" where
  "takenAmounts p mws msr = tradeAmounts (nat (price_n p)) (nat (price_d p)) (wheatValueOf p mws msr) (wheatValueOf p mws msr) False"

lemma taken_trade:
  "\<not> sv < wv \<Longrightarrow> tradeAmounts n d wv sv pp = tradeAmounts n d wv wv False"
  by (simp add: tradeAmounts_def)

lemma taken_again:
  assumes p: "validPrice p" and i: "int64 mws" "int64 msr" and t: "takenAmounts p mws msr = (w, s)"
  shows "takenAmounts p (int w) msr = (w, s)"
proof -
  let ?n = "nat (price_n p)" and ?d = "nat (price_d p)"
  define V where "V = wheatValueOf p mws msr"
  define V' where "V' = wheatValueOf p (int w) msr"
  have pos: "0 < ?n" "0 < ?d" using p by (simp_all add: validPrice_def)
  have V: "V \<le> nat mws * ?n" "V \<le> nat msr * ?d" by (simp_all add: V_def offerValue_def)
  have w: "w \<le> nat mws" using tradeAmounts_bounds(1) [OF pos t [unfolded takenAmounts_def]] V(1) by (simp add: V_def)
  have V': "V' = min (w * ?n) (nat msr * ?d)" by (simp add: V'_def offerValue_def)
  show ?thesis
  proof (cases "?d < ?n")
    case True
    then have ws: "w = V div ?n" "s = w * ?n div ?d" using t by (auto simp: takenAmounts_def tradeAmounts_def V_def Let_def)
    have "w * ?n \<le> V" by (simp add: ws(1))
    then have "V' = w * ?n" using V(2) by (simp add: V')
    then have "wheatValueOf p (int w) msr = w * ?n" by (simp add: V'_def)
    then show ?thesis using True ws(2) pos by (simp add: takenAmounts_def tradeAmounts_def Let_def)
  next
    case False
    then have ws: "s = V div ?d" "w = exact_quotient (s * ?d) ?n ROUND_UP"
      using t by (auto simp: takenAmounts_def tradeAmounts_def V_def Let_def)
    have sd: "s * ?d \<le> V" by (simp add: ws(1))
    have "s * ?d \<le> w * ?n" using exact_quotient_up_le [OF pos(1), of "s * ?d" w] ws(2) by simp
    then have "s * ?d \<le> V'" using order_trans [OF sd V(2)] unfolding V' by (rule min.boundedI)
    moreover have "V' \<le> V" using w unfolding V' V_def offerValue_def by (intro min.mono mult_right_mono) auto
    ultimately have "V' div ?d = s" using pos(2) ws(1)
      by (metis antisym div_le_mono less_eq_div_iff_mult_less_eq)
    then have "wheatValueOf p (int w) msr div ?d = s" by (simp add: V'_def)
    then show ?thesis using False ws(2) [symmetric] by (auto simp: takenAmounts_def tradeAmounts_def Let_def)
  qed
qed

lemma adjustOffer_taken:
  assumes p: "validPrice p" and i: "int64 mws" "int64 msr" and t: "takenAmounts p mws msr = (w, s)"
  shows "adjustOfferAmount p mws msr =
    Inr (if 0 < w \<and> 0 < s \<and> priceErrorOk p (int w) (int s) False then int w else 0)"
proof -
  have lim: "withinLimits mws INT64_MAX INT64_MAX msr" using i by (simp add: withinLimits_def int64_def)
  have "tradeAmounts (nat (price_n p)) (nat (price_d p)) (wheatValueOf p mws msr)
      (sheepValueOf p INT64_MAX INT64_MAX) False = (w, s)"
    using t taken_trade [OF unlimited_sheep_stays [OF i]] by (simp add: takenAmounts_def)
  from exchangeV10_spec [OF p lim this] show ?thesis by (simp add: adjustOfferAmount_def Let_def)
qed

lemma adjust_zero:
  assumes "validPrice p" "int64 msr"
  shows "adjustOfferAmount p 0 msr = Inr 0"
proof -
  have "exact_quotient 0 (nat (price_n p)) ROUND_UP = 0"
    using exact_quotient_up_le [of "nat (price_n p)" 0 0] assms(1) by (simp add: validPrice_def)
  then have "takenAmounts p 0 msr = (0, 0)"
    by (simp add: takenAmounts_def tradeAmounts_def offerValue_def Let_def)
  from adjustOffer_taken [OF assms(1) _ assms(2) this] show ?thesis by (simp add: int64_def)
qed

lemma hundredfold: "\<bar>100 * a - 100 * b\<bar> = 100 * \<bar>a - (b :: int)\<bar>"
  by (simp add: abs_if)

lemma int_offerValue:
  assumes "0 \<le> N" "0 \<le> D" "0 \<le> a" "0 \<le> b"
  shows "int (offerValue N D a b) = min (a * N) (b * D)"
  using assms by (simp add: offerValue_def of_nat_min)

lemma fullWheat_trade:
  assumes pos: "0 < n" "0 < d" and "sv = r * n" "sv < wv"
  shows "tradeAmounts n d wv sv True = (r, exact_quotient (r * n) d ROUND_UP)"
  using assms by (simp add: tradeAmounts_def)

section \<open>Adjusted offers\<close>

text \<open>Crossing an offer that is adjusted to its limits keeps the price bound in a path payment, too.\<close>

lemma adjusted_error_ok:
  assumes p: "validPrice p" and lim: "withinLimits mws mwr mss msr" and adj: "adjustOfferAmount p mws msr = Inr mws"
    and t: "tradeAmounts (nat (price_n p)) (nat (price_d p)) (wheatValueOf p mws msr) (sheepValueOf p mwr mss) True = (w, s)"
    and ws: "0 < w" "0 < s"
  shows "priceErrorOk p (int w) (int s) True"
proof -
  let ?n = "nat (price_n p)" and ?d = "nat (price_d p)"
  have pos: "0 < ?n" "0 < ?d" "0 \<le> price_n p" "0 \<le> price_d p" using p by (simp_all add: validPrice_def)
  show ?thesis
  proof (cases "sheepValueOf p mwr mss < wheatValueOf p mws msr")
    case True
    have "int (w * ?n) = price_n p * int w" "int (s * ?d) = price_d p * int s" using pos by simp_all
    moreover have "w * ?n \<le> s * ?d" using tradeAmounts_bounds(3) [OF pos(1,2) t] True by simp
    ultimately have "price_n p * int w \<le> price_d p * int s" by (metis of_nat_le_iff)
    moreover have "0 \<le> price_n p * int w" using pos by simp
    ultimately show ?thesis
      unfolding priceErrorOk_def by (cases "price_n p * int w = price_d p * int s") simp_all
  next
    case False
    then have "takenAmounts p mws msr = (w, s)" using t taken_trade [OF False] by (simp add: takenAmounts_def)
    from adjustOffer_taken [OF p _ _ this] adj lim
    have "priceErrorOk p (int w) (int s) False" if "mws \<noteq> 0" using that by (auto simp: withinLimits_def split: if_splits)
    moreover have "mws \<noteq> 0" using exchange_computed(3) [OF p lim t] ws(1) by auto
    ultimately show ?thesis by (simp add: priceErrorOk_def)
  qed
qed

lemma exchange_adjusted:
  assumes p: "validPrice p" and lim: "withinLimits mws mwr mss msr"
    and adj: "pp \<Longrightarrow> adjustOfferAmount p mws msr = Inr mws"
  shows "\<exists>w s stays. exchangeV10 p mws mwr mss msr pp = Inr \<lparr>wheatReceivedV10 = w, sheepSendV10 = s, wheatStays = stays\<rparr> \<and>
    0 \<le> w \<and> w \<le> mws \<and> w \<le> mwr \<and> 0 \<le> s \<and> s \<le> mss \<and> s \<le> msr"
proof -
  obtain w s where t: "tradeAmounts (nat (price_n p)) (nat (price_d p)) (wheatValueOf p mws msr) (sheepValueOf p mwr mss) pp = (w, s)"
    by fastforce
  note c = exchange_computed [OF p lim t] and e = exchangeV10_spec [OF p lim t]
  have "priceErrorOk p (int w) (int s) True" if "pp" "0 < w" "0 < s"
    using adjusted_error_ok [OF p lim adj, of w s] t that by simp
  moreover have "0 \<le> mws" "0 \<le> mwr" "0 \<le> mss" "0 \<le> msr" using lim by (simp_all add: withinLimits_def int64_def)
  ultimately show ?thesis using e c(2-5) by (auto simp: Let_def split: if_splits)
qed

lemma adjust_again:
  assumes "validPrice p" "int64 mws" "int64 msr" "adjustOfferAmount p mws msr = Inr a"
  shows "0 \<le> a \<and> a \<le> mws \<and> adjustOfferAmount p a msr = Inr a"
proof -
  obtain w s where t: "takenAmounts p mws msr = (w, s)" by fastforce
  have "w \<le> nat mws"
    using tradeAmounts_bounds(1) [OF _ _ t [unfolded takenAmounts_def], of "nat mws"] price_nat [OF assms(1)]
    by (simp add: offerValue_def)
  then have "int w \<le> mws" "int64 (int w)" using assms(2) by (auto simp: int64_def)
  then show ?thesis
    using adjustOffer_taken [OF assms(1-3) t] adjustOffer_taken [OF assms(1) _ assms(3) taken_again [OF assms(1-3) t]]
      adjust_zero [OF assms(1,3)] assms(2,4)
    by (auto simp: int64_def split: if_splits)
qed

lemma taken_unlimited:
  assumes p: "validPrice p" and i: "int64 mws" "int64 msr" and t: "takenAmounts p mws msr = (w, s)"
  shows "takenAmounts p (int w) INT64_MAX = (w, s)"
proof -
  let ?n = "nat (price_n p)" and ?d = "nat (price_d p)"
  define V where "V = wheatValueOf p mws msr"
  define V' where "V' = wheatValueOf p (int w) INT64_MAX"
  have pos: "0 < ?n" "0 < ?d" using p by (simp_all add: validPrice_def)
  have "nat msr \<le> nat INT64_MAX" using i(2) unfolding int64_def by (intro nat_mono) (elim conjE)
  then have Vd: "V \<le> nat INT64_MAX * ?d" unfolding V_def offerValue_def
    by (meson min.cobounded2 mult_le_mono1 order_trans)
  have V': "V' = min (w * ?n) (nat INT64_MAX * ?d)" by (simp add: V'_def offerValue_def)
  show ?thesis
  proof (cases "?d < ?n")
    case True
    then have ws: "w = V div ?n" "s = w * ?n div ?d" using t by (auto simp: takenAmounts_def tradeAmounts_def V_def Let_def)
    have "w * ?n \<le> V" by (simp add: ws(1))
    then have "V' = w * ?n" using order_trans [OF _ Vd] unfolding V' by (intro min_absorb1)
    then have "wheatValueOf p (int w) INT64_MAX = w * ?n" by (simp only: V'_def)
    then show ?thesis using True ws(2) pos unfolding takenAmounts_def tradeAmounts_def Let_def by simp
  next
    case False
    then have ws: "s = V div ?d" "w = exact_quotient (s * ?d) ?n ROUND_UP"
      using t by (auto simp: takenAmounts_def tradeAmounts_def V_def Let_def)
    have "s * ?d \<le> V" by (simp add: ws(1))
    moreover have "s * ?d \<le> w * ?n" using exact_quotient_up_le [OF pos(1), of "s * ?d" w] ws(2) by simp
    ultimately have lo: "s * ?d \<le> V'" using order_trans [OF _ Vd] unfolding V' by (intro min.boundedI)
    have "\<not> s * ?d \<le> (w - 1) * ?n \<or> w = 0"
      using exact_quotient_up_le [OF pos(1), of "s * ?d" "w - 1"] ws(2) by auto
    then have "w * ?n < s * ?d + ?n \<or> w = 0" by (cases w) auto
    then have hi: "V' < (s + 1) * ?d" using False pos unfolding V' by (auto simp: min_less_iff_disj)
    have "V' div ?d = s" using lo hi pos(2) by (intro div_nat_eqI) (simp_all add: mult.commute)
    then have "wheatValueOf p (int w) INT64_MAX div ?d = s" by (simp only: V'_def)
    then show ?thesis using False ws(2) [symmetric] unfolding takenAmounts_def tradeAmounts_def Let_def by auto
  qed
qed

text \<open>The liabilities of an offer are what it trades when nothing limits the other side.\<close>

lemma unlimited_exchange:
  assumes p: "validPrice p" and i: "int64 a" and t: "takenAmounts p a INT64_MAX = (w, s)"
  shows "exchangeV10WithoutPriceErrorThresholds p a INT64_MAX INT64_MAX INT64_MAX False =
      Inr \<lparr>wheatReceivedV10 = int w, sheepSendV10 = int s, wheatStays = False\<rparr>"
    and "int w \<le> a"
proof -
  have lim: "withinLimits a INT64_MAX INT64_MAX INT64_MAX" using i by (simp add: withinLimits_def int64_def)
  have m: "int64 INT64_MAX" by (simp add: int64_def)
  have st: "\<not> sheepValueOf p INT64_MAX INT64_MAX < wheatValueOf p a INT64_MAX" by (rule unlimited_sheep_stays [OF i m])
  have t': "tradeAmounts (nat (price_n p)) (nat (price_d p)) (wheatValueOf p a INT64_MAX) (sheepValueOf p INT64_MAX INT64_MAX) False = (w, s)"
    using t taken_trade [OF st] by (simp only: takenAmounts_def)
  show "exchangeV10WithoutPriceErrorThresholds p a INT64_MAX INT64_MAX INT64_MAX False =
      Inr \<lparr>wheatReceivedV10 = int w, sheepSendV10 = int s, wheatStays = False\<rparr>"
    using exchange_computed(1) [OF p lim t'] st by simp
  show "int w \<le> a" by (rule exchange_computed(3) [OF p lim t'])
qed

lemma adjusted_trade:
  assumes p: "validPrice p" and i: "int64 mws" "int64 msr" and a: "adjustOfferAmount p mws msr = Inr a" "a \<noteq> 0"
  shows "\<exists>s. takenAmounts p a INT64_MAX = (nat a, s) \<and> int s \<le> msr \<and> 0 < a"
proof -
  obtain w s where t: "takenAmounts p mws msr = (w, s)" by fastforce
  have aw: "a = int w" "0 < w" using adjustOffer_taken [OF p i t] a by (auto split: if_splits)
  have "s \<le> nat msr"
    using tradeAmounts_bounds(2) [OF _ _ t [unfolded takenAmounts_def], of "nat msr"] price_nat [OF p]
    by (simp add: offerValue_def)
  then show ?thesis using taken_unlimited [OF p i t] aw i(2) by (auto simp: int64_def)
qed


section \<open>Properties\<close>

text \<open>C33: Crossing two offers outside of a path payment never fails on valid inputs; no limit of either side is
  exceeded, rounding favours the offer that stays in the book, the smaller offer is the one that goes, and
  either nothing is traded or the effective price is within one percent of the price of the offer.\<close>

theorem exchangeV10_fair:
  assumes "validPrice p" "int64 maxWheatSend" "int64 maxWheatReceive" "int64 maxSheepSend" "int64 maxSheepReceive"
  shows "\<exists>w s stays.
    exchangeV10 p maxWheatSend maxWheatReceive maxSheepSend maxSheepReceive False =
      Inr \<lparr>wheatReceivedV10 = w, sheepSendV10 = s, wheatStays = stays\<rparr> \<and>
    0 \<le> w \<and> w \<le> maxWheatSend \<and> w \<le> maxWheatReceive \<and> 0 \<le> s \<and> s \<le> maxSheepSend \<and> s \<le> maxSheepReceive \<and>
    (if stays then price_n p * w \<le> price_d p * s else price_d p * s \<le> price_n p * w) \<and>
    (stays \<longleftrightarrow> min (maxSheepSend * price_d p) (maxWheatReceive * price_n p) <
       min (maxWheatSend * price_n p) (maxSheepReceive * price_d p)) \<and>
    (w = 0 \<longleftrightarrow> s = 0) \<and> 100 * \<bar>price_n p * w - price_d p * s\<bar> \<le> price_n p * w"
proof -
  have lim: "withinLimits maxWheatSend maxWheatReceive maxSheepSend maxSheepReceive"
    using assms by (simp add: withinLimits_def)
  let ?wv = "wheatValueOf p maxWheatSend maxSheepReceive" and ?sv = "sheepValueOf p maxWheatReceive maxSheepSend"
  obtain w s where t: "tradeAmounts (nat (price_n p)) (nat (price_d p)) ?wv ?sv False = (w, s)" by fastforce
  have pos: "0 < nat (price_n p)" "0 < nat (price_d p)" "0 \<le> price_n p" "0 \<le> price_d p"
    using assms(1) by (simp_all add: validPrice_def)
  have nn: "0 \<le> maxWheatSend" "0 \<le> maxWheatReceive" "0 \<le> maxSheepSend" "0 \<le> maxSheepReceive"
    using assms by (simp_all add: int64_def)
  have stays: "?sv < ?wv \<longleftrightarrow> min (maxSheepSend * price_d p) (maxWheatReceive * price_n p) <
       min (maxWheatSend * price_n p) (maxSheepReceive * price_d p)"
    using int_offerValue [OF pos(4,3) nn(3,2)] int_offerValue [OF pos(3,4) nn(1,4)] of_nat_less_iff [of ?sv ?wv, where 'a = int]
    by simp
  have fav: "if ?sv < ?wv then price_n p * int w \<le> price_d p * int s else price_d p * int s \<le> price_n p * int w"
  proof -
    have "int (w * nat (price_n p)) = price_n p * int w" "int (s * nat (price_d p)) = price_d p * int s"
      using pos by simp_all
    then show ?thesis using tradeAmounts_bounds(3) [OF pos(1,2) t] by (metis of_nat_le_iff)
  qed
  note c = exchange_computed [OF assms(1) lim t] and e = exchangeV10_spec [OF assms(1) lim t]
  show ?thesis
  proof (cases "0 < w \<and> 0 < s \<and> priceErrorOk p (int w) (int s) False")
    case True
    then have "100 * \<bar>price_n p * int w - price_d p * int s\<bar> \<le> price_n p * int w"
      by (simp add: priceErrorOk_def hundredfold)
    then show ?thesis using True e c fav stays by (intro exI [of _ "int w"] exI [of _ "int s"] exI [of _ "?sv < ?wv"]) simp
  next
    case False
    then have "exchangeV10 p maxWheatSend maxWheatReceive maxSheepSend maxSheepReceive False =
      Inr \<lparr>wheatReceivedV10 = 0, sheepSendV10 = 0, wheatStays = ?sv < ?wv\<rparr>"
      using e by (auto simp: Let_def)
    then show ?thesis using nn stays by (intro exI [of _ 0] exI [of _ "?sv < ?wv"]) simp
  qed
qed

theorem exchangeV10_fair_witness:
  "\<exists>w s stays. exchangeV10 \<lparr>price_n = 3, price_d = 2\<rparr> 1000 700 INT64_MAX INT64_MAX False =
      Inr \<lparr>wheatReceivedV10 = w, sheepSendV10 = s, wheatStays = stays\<rparr> \<and> w \<le> 700 \<and> 100 * \<bar>3 * w - 2 * s\<bar> \<le> 3 * w"
  using exchangeV10_fair [of "\<lparr>price_n = 3, price_d = 2\<rparr>" 1000 700 INT64_MAX INT64_MAX]
  by (auto simp: validPrice_def int64_def)

text \<open>C34: Adjusting an offer is idempotent: an offer whose amount has been adjusted to its limits is not changed by
  adjusting it again, and adjusting never raises the amount.\<close>

theorem adjustOffer_idempotent:
  assumes "validPrice p" "int64 maxWheatSend" "int64 maxSheepReceive"
  shows "\<exists>a. adjustOfferAmount p maxWheatSend maxSheepReceive = Inr a \<and> 0 \<le> a \<and> a \<le> maxWheatSend \<and>
    adjustOfferAmount p a maxSheepReceive = Inr a"
proof -
  obtain w s where t: "takenAmounts p maxWheatSend maxSheepReceive = (w, s)" by fastforce
  note a = adjustOffer_taken [OF assms t]
  have "w \<le> nat maxWheatSend"
    using tradeAmounts_bounds(1) [OF _ _ t [unfolded takenAmounts_def], of "nat maxWheatSend"] price_nat [OF assms(1)]
    by (simp add: offerValue_def)
  then have le: "int w \<le> maxWheatSend" using assms(2) unfolding int64_def by linarith
  then have iw: "int64 (int w)" using assms(2) by (simp add: int64_def)
  have again: "adjustOfferAmount p (int w) maxSheepReceive =
      Inr (if 0 < w \<and> 0 < s \<and> priceErrorOk p (int w) (int s) False then int w else 0)"
    by (rule adjustOffer_taken [OF assms(1) iw assms(3) taken_again [OF assms t]])
  show ?thesis
    using a again le adjust_zero [OF assms(1,3)] assms(2) by (auto simp: int64_def)
qed

theorem adjustOffer_idempotent_witness:
  "\<exists>a. adjustOfferAmount \<lparr>price_n = 2, price_d = 3\<rparr> 1001 INT64_MAX = Inr a \<and>
     adjustOfferAmount \<lparr>price_n = 2, price_d = 3\<rparr> a INT64_MAX = Inr a"
  using adjustOffer_idempotent [of "\<lparr>price_n = 2, price_d = 3\<rparr>" 1001 INT64_MAX]
  by (auto simp: validPrice_def int64_def)

text \<open>C35: A path payment can cross every adjusted offer: none of the exceptions of the exchange is thrown, and when the
  offer stays in the book although the sender can pay for all the wheat that is asked for, exactly that much wheat is
  received.\<close>

theorem path_payment_crosses_adjusted_offer:
  assumes "validPrice p" "int64 maxWheatSend" "int64 maxWheatReceive" "int64 maxSheepSend" "int64 maxSheepReceive"
    "adjustOfferAmount p maxWheatSend maxSheepReceive = Inr maxWheatSend"
  shows "\<exists>w s stays.
    exchangeV10 p maxWheatSend maxWheatReceive maxSheepSend maxSheepReceive True =
      Inr \<lparr>wheatReceivedV10 = w, sheepSendV10 = s, wheatStays = stays\<rparr> \<and>
    (stays \<and> maxWheatReceive * price_n p \<le> maxSheepSend * price_d p \<longrightarrow> w = maxWheatReceive)"
proof -
  have lim: "withinLimits maxWheatSend maxWheatReceive maxSheepSend maxSheepReceive"
    using assms by (simp add: withinLimits_def)
  let ?n = "nat (price_n p)" and ?d = "nat (price_d p)"
  let ?wv = "wheatValueOf p maxWheatSend maxSheepReceive" and ?sv = "sheepValueOf p maxWheatReceive maxSheepSend"
  obtain w s where t: "tradeAmounts ?n ?d ?wv ?sv True = (w, s)" by fastforce
  have pos: "0 < ?n" "0 < ?d" "0 \<le> price_n p" "0 \<le> price_d p" using assms(1) by (simp_all add: validPrice_def)
  have fav: "if ?sv < ?wv then w * ?n \<le> s * ?d else s * ?d \<le> w * ?n" by (rule tradeAmounts_bounds(3) [OF pos(1,2) t])
  have ok: "priceErrorOk p (int w) (int s) True" if "0 < w" "0 < s"
    by (rule adjusted_error_ok [OF assms(1) lim assms(6) t that])
  have full: "w = nat maxWheatReceive \<and> (0 < w \<longrightarrow> 0 < s)" if "?sv < ?wv" "maxWheatReceive * price_n p \<le> maxSheepSend * price_d p"
  proof -
    have "0 \<le> maxWheatReceive" "0 \<le> maxSheepSend" using assms by (simp_all add: int64_def)
    then have "int ?sv = int (nat maxWheatReceive * ?n)"
      using int_offerValue [of "price_d p" "price_n p" maxSheepSend maxWheatReceive] pos that(2) by simp
    then have "?sv = nat maxWheatReceive * ?n" by linarith
    from fullWheat_trade [OF pos(1,2) this that(1)] t
    have "w = nat maxWheatReceive" by simp
    moreover have "0 < s" if "0 < w"
      using fav \<open>?sv < ?wv\<close> that pos(1) by (auto intro: Nat.gr0I)
    ultimately show ?thesis by simp
  qed
  let ?z = "0 < w \<and> 0 < s"
  show ?thesis
    using exchangeV10_spec [OF assms(1) lim t] ok full assms(3)
    by (intro exI [of _ "if ?z then int w else 0"] exI [of _ "if ?z then int s else 0"] exI [of _ "?sv < ?wv"])
      (auto simp: Let_def int64_def)
qed

theorem path_payment_crosses_adjusted_offer_witness:
  "\<exists>s. exchangeV10 \<lparr>price_n = 2, price_d = 3\<rparr> 150 101 INT64_MAX INT64_MAX True =
     Inr \<lparr>wheatReceivedV10 = 101, sheepSendV10 = s, wheatStays = True\<rparr>"
proof -
  have "adjustOfferAmount \<lparr>price_n = 2, price_d = 3\<rparr> 150 INT64_MAX = Inr 150"
    "case exchangeV10 \<lparr>price_n = 2, price_d = 3\<rparr> 150 101 INT64_MAX INT64_MAX True of Inr r \<Rightarrow> wheatStays r | Inl _ \<Rightarrow> False"
    by (code_simp, code_simp)
  then show ?thesis
    using path_payment_crosses_adjusted_offer [of "\<lparr>price_n = 2, price_d = 3\<rparr>" 150 101 INT64_MAX INT64_MAX]
    by (auto simp: validPrice_def int64_def)
qed

end
