(* ===== verification/Balances.thy ===== *)
theory Balances
  imports OfferExchange
begin

text \<open>
  Balances, liabilities and reserves of single ledger entries (\<^verbatim>\<open>transactions/TransactionUtils.cpp\<close> and the
  checked addition of \<^verbatim>\<open>util/types.cpp\<close>). The functions that change an entry return whether they succeeded and
  the entry. Balances and liabilities are integers, which the proofs keep within 64 bits. The reserve of protocols up
  to 8 wraps around, at 32 bits, as in the code; that of later ones is the exact product, which leaves the 64 bits of the
  code from about \<open>2 ^ 31\<close> subentries on, with the largest base reserve. The stamp \<^verbatim>\<open>lastModifiedLedgerSeq\<close> is
  set when a ledger state commits, not here.
\<close>

unbundle bit_operations_syntax

text \<open>The fields of the ledger header that the functions below read or write.\<close>

record LedgerHeader =
  ledgerVersion :: u32
  ledgerSeq :: u32
  baseReserve :: u32
  idPool :: u64

section \<open>Checked addition\<close>

definition addBalance64 :: "int \<Rightarrow> int \<Rightarrow> int \<Rightarrow> ledger_error + (bool \<times> int)" where
  "addBalance64 balance delta maxBalance =
     bindR (assertL (balance \<ge> 0)) (\<lambda>_.
     bindR (assertL (maxBalance \<ge> 0)) (\<lambda>_.
     if delta = 0 then Inr (True, balance)
     else if delta < - balance then Inr (False, balance)
     else if maxBalance - balance < delta then Inr (False, balance)
     else Inr (True, balance + delta)))"

section \<open>Reading entries\<close>

definition AUTHORIZED_FLAG :: u32 where
  "AUTHORIZED_FLAG = 1"

definition getMinBalance :: "LedgerHeader \<Rightarrow> u32 \<Rightarrow> int" where
  "getMinBalance header ownerCount =
     (if ledgerVersion header \<le> 8 then uint ((2 + ownerCount) * baseReserve header)
      else uint (2 + ownerCount) * uint (baseReserve header))"

definition isAuthorized :: "LedgerEntry \<Rightarrow> ledger_error + bool" where
  "isAuthorized le =
     (case le_data le of
        TRUSTLINE line \<Rightarrow> Inr (tl_flags line AND AUTHORIZED_FLAG \<noteq> 0)
      | _ \<Rightarrow> Inl (RuntimeThrow ''bad union switch''))"

definition getBuyingLiabilities :: "LedgerHeader \<Rightarrow> LedgerEntry \<Rightarrow> ledger_error + int" where
  "getBuyingLiabilities header le =
     (if ledgerVersion header < 10 then Inl (RuntimeThrow ''Liabilities accessed before version 10'')
      else case le_data le of
        ACCOUNT acc \<Rightarrow> Inr (case acc_v1 acc of None \<Rightarrow> 0 | Some l \<Rightarrow> liab_buying l)
      | TRUSTLINE line \<Rightarrow> Inr (case tl_v1 line of None \<Rightarrow> 0 | Some l \<Rightarrow> liab_buying l)
      | _ \<Rightarrow> Inl (RuntimeThrow ''Unknown LedgerEntry type''))"

definition getSellingLiabilities :: "LedgerHeader \<Rightarrow> LedgerEntry \<Rightarrow> ledger_error + int" where
  "getSellingLiabilities header le =
     (if ledgerVersion header < 10 then Inl (RuntimeThrow ''Liabilities accessed before version 10'')
      else case le_data le of
        ACCOUNT acc \<Rightarrow> Inr (case acc_v1 acc of None \<Rightarrow> 0 | Some l \<Rightarrow> liab_selling l)
      | TRUSTLINE line \<Rightarrow> Inr (case tl_v1 line of None \<Rightarrow> 0 | Some l \<Rightarrow> liab_selling l)
      | _ \<Rightarrow> Inl (RuntimeThrow ''Unknown LedgerEntry type''))"

definition getAvailableBalance :: "LedgerHeader \<Rightarrow> LedgerEntry \<Rightarrow> ledger_error + int" where
  "getAvailableBalance header le =
     bindR (case le_data le of
              ACCOUNT acc \<Rightarrow> Inr (acc_balance acc - getMinBalance header (acc_numSubEntries acc))
            | TRUSTLINE line \<Rightarrow> Inr (tl_balance line)
            | _ \<Rightarrow> Inl (RuntimeThrow ''Unknown LedgerEntry type'')) (\<lambda>avail.
     if ledgerVersion header \<ge> 10
     then bindR (getSellingLiabilities header le) (\<lambda>selling. Inr (avail - selling))
     else Inr avail)"

definition getMaxAmountReceive :: "LedgerHeader \<Rightarrow> LedgerEntry \<Rightarrow> ledger_error + int" where
  "getMaxAmountReceive header le =
     (case le_data le of
        ACCOUNT acc \<Rightarrow>
          if ledgerVersion header \<ge> 10
          then bindR (getBuyingLiabilities header le) (\<lambda>buying. Inr (INT64_MAX - (acc_balance acc + buying)))
          else Inr INT64_MAX
      | TRUSTLINE line \<Rightarrow>
          bindR (isAuthorized le) (\<lambda>authorized.
          if authorized
          then if ledgerVersion header \<ge> 10
               then bindR (getBuyingLiabilities header le) (\<lambda>buying. Inr (tl_limit line - tl_balance line - buying))
               else Inr (tl_limit line - tl_balance line)
          else Inr 0)
      | _ \<Rightarrow> Inl (RuntimeThrow ''Unknown LedgerEntry type''))"

definition getMinimumLimit :: "LedgerHeader \<Rightarrow> LedgerEntry \<Rightarrow> ledger_error + int" where
  "getMinimumLimit header le =
     (case le_data le of
        TRUSTLINE line \<Rightarrow>
          if ledgerVersion header \<ge> 10
          then bindR (getBuyingLiabilities header le) (\<lambda>buying. Inr (tl_balance line + buying))
          else Inr (tl_balance line)
      | _ \<Rightarrow> Inl (RuntimeThrow ''bad union switch''))"

section \<open>Changing entries\<close>

definition addBalance :: "LedgerHeader \<Rightarrow> LedgerEntry \<Rightarrow> int \<Rightarrow> ledger_error + (bool \<times> LedgerEntry)" where
  "addBalance header entry delta =
     (case le_data entry of
        ACCOUNT acc \<Rightarrow>
          if delta = 0 then Inr (True, entry)
          else bindR (addBalance64 (acc_balance acc) delta INT64_MAX) (\<lambda>(ok, newBalance).
            let store = Inr (True, entry\<lparr>le_data := ACCOUNT (acc\<lparr>acc_balance := newBalance\<rparr>)\<rparr>) in
            if \<not> ok then Inr (False, entry)
            else if ledgerVersion header \<ge> 10
            then bindR (getSellingLiabilities header entry) (\<lambda>selling.
                 if delta < 0 \<and> newBalance - getMinBalance header (acc_numSubEntries acc) < selling
                 then Inr (False, entry)
                 else bindR (getBuyingLiabilities header entry) (\<lambda>buying.
                   if newBalance > INT64_MAX - buying then Inr (False, entry) else store))
            else store)
      | TRUSTLINE line \<Rightarrow>
          if delta = 0 then Inr (True, entry)
          else bindR (isAuthorized entry) (\<lambda>authorized.
            if \<not> authorized then Inr (False, entry)
            else bindR (addBalance64 (tl_balance line) delta (tl_limit line)) (\<lambda>(ok, newBalance).
              let store = Inr (True, entry\<lparr>le_data := TRUSTLINE (line\<lparr>tl_balance := newBalance\<rparr>)\<rparr>) in
              if \<not> ok then Inr (False, entry)
              else if ledgerVersion header \<ge> 10
              then bindR (getSellingLiabilities header entry) (\<lambda>selling.
                   if newBalance < selling then Inr (False, entry)
                   else bindR (getBuyingLiabilities header entry) (\<lambda>buying.
                     if newBalance > tl_limit line - buying then Inr (False, entry) else store))
              else store))
      | _ \<Rightarrow> Inl (RuntimeThrow ''Unknown LedgerEntry type''))"

text \<open>The extension of version 1, created with no liabilities when it is missing.\<close>

definition liabilitiesV1 :: "Liabilities option \<Rightarrow> Liabilities" where
  "liabilitiesV1 v = (case v of None \<Rightarrow> \<lparr>liab_buying = 0, liab_selling = 0\<rparr> | Some l \<Rightarrow> l)"

definition addBuyingLiabilities :: "LedgerHeader \<Rightarrow> LedgerEntry \<Rightarrow> int \<Rightarrow> ledger_error + (bool \<times> LedgerEntry)" where
  "addBuyingLiabilities header entry delta =
     bindR (getBuyingLiabilities header entry) (\<lambda>buyingLiab.
     if delta = 0 then Inr (True, entry)
     else case le_data entry of
       ACCOUNT acc \<Rightarrow>
         bindR (addBalance64 buyingLiab delta (INT64_MAX - acc_balance acc)) (\<lambda>(ok, liab).
         Inr (ok, if ok then entry\<lparr>le_data := ACCOUNT (acc\<lparr>acc_v1 :=
           Some ((liabilitiesV1 (acc_v1 acc))\<lparr>liab_buying := liab\<rparr>)\<rparr>)\<rparr> else entry))
     | TRUSTLINE line \<Rightarrow>
         bindR (isAuthorized entry) (\<lambda>authorized.
         if \<not> authorized then Inr (False, entry)
         else bindR (addBalance64 buyingLiab delta (tl_limit line - tl_balance line)) (\<lambda>(ok, liab).
           Inr (ok, if ok then entry\<lparr>le_data := TRUSTLINE (line\<lparr>tl_v1 :=
             Some ((liabilitiesV1 (tl_v1 line))\<lparr>liab_buying := liab\<rparr>)\<rparr>)\<rparr> else entry)))
     | _ \<Rightarrow> Inl (RuntimeThrow ''Unknown LedgerEntry type''))"

definition addSellingLiabilities :: "LedgerHeader \<Rightarrow> LedgerEntry \<Rightarrow> int \<Rightarrow> ledger_error + (bool \<times> LedgerEntry)" where
  "addSellingLiabilities header entry delta =
     bindR (getSellingLiabilities header entry) (\<lambda>sellingLiab.
     if delta = 0 then Inr (True, entry)
     else case le_data entry of
       ACCOUNT acc \<Rightarrow>
         let maxLiabilities = acc_balance acc - getMinBalance header (acc_numSubEntries acc) in
         if maxLiabilities < 0 then Inr (False, entry)
         else bindR (addBalance64 sellingLiab delta maxLiabilities) (\<lambda>(ok, liab).
           Inr (ok, if ok then entry\<lparr>le_data := ACCOUNT (acc\<lparr>acc_v1 :=
             Some ((liabilitiesV1 (acc_v1 acc))\<lparr>liab_selling := liab\<rparr>)\<rparr>)\<rparr> else entry))
     | TRUSTLINE line \<Rightarrow>
         bindR (isAuthorized entry) (\<lambda>authorized.
         if \<not> authorized then Inr (False, entry)
         else bindR (addBalance64 sellingLiab delta (tl_balance line)) (\<lambda>(ok, liab).
           Inr (ok, if ok then entry\<lparr>le_data := TRUSTLINE (line\<lparr>tl_v1 :=
             Some ((liabilitiesV1 (tl_v1 line))\<lparr>liab_selling := liab\<rparr>)\<rparr>)\<rparr> else entry)))
     | _ \<Rightarrow> Inl (RuntimeThrow ''Unknown LedgerEntry type''))"

definition addNumEntries :: "LedgerHeader \<Rightarrow> LedgerEntry \<Rightarrow> int \<Rightarrow> ledger_error + (bool \<times> LedgerEntry)" where
  "addNumEntries header entry count =
     (case le_data entry of
        ACCOUNT acc \<Rightarrow>
          let newEntriesCount = acc_numSubEntries acc + word_of_int count in
          if sint newEntriesCount < 0 then Inl (RuntimeThrow ''invalid account state'')
          else bindR (if ledgerVersion header \<ge> 10 then getSellingLiabilities header entry else Inr 0) (\<lambda>selling.
            let effMinBalance = getMinBalance header newEntriesCount + selling in
            if count > 0 \<and> acc_balance acc < effMinBalance then Inr (False, entry)
            else Inr (True, entry\<lparr>le_data := ACCOUNT (acc\<lparr>acc_numSubEntries := newEntriesCount\<rparr>)\<rparr>))
      | _ \<Rightarrow> Inl (RuntimeThrow ''bad union switch''))"

definition setAuthorized :: "LedgerEntry \<Rightarrow> bool \<Rightarrow> ledger_error + LedgerEntry" where
  "setAuthorized entry authorized =
     (case le_data entry of
        TRUSTLINE line \<Rightarrow>
          Inr (entry\<lparr>le_data := TRUSTLINE (line\<lparr>tl_flags :=
            (if authorized then tl_flags line OR AUTHORIZED_FLAG else tl_flags line AND NOT AUTHORIZED_FLAG)\<rparr>)\<rparr>)
      | _ \<Rightarrow> Inl (RuntimeThrow ''bad union switch''))"

definition generateID :: "LedgerHeader \<Rightarrow> u64 \<times> LedgerHeader" where
  "generateID header = (idPool header + 1, header\<lparr>idPool := idPool header + 1\<rparr>)"

definition getStartingSequenceNumber :: "LedgerHeader \<Rightarrow> u64" where
  "getStartingSequenceNumber header = push_bit 32 (ucast (ledgerSeq header))"

section \<open>Liabilities of an offer\<close>

definition getOfferBuyingLiabilities :: "LedgerHeader \<Rightarrow> OfferEntry \<Rightarrow> ledger_error + int" where
  "getOfferBuyingLiabilities header oe =
     (if ledgerVersion header < 10 then Inl (RuntimeThrow ''Offer liabilities calculated before version 10'')
      else bindR (exchangeV10WithoutPriceErrorThresholds (of_price oe) (of_amount oe) INT64_MAX INT64_MAX INT64_MAX False)
        (\<lambda>res. Inr (sheepSendV10 res)))"

definition getOfferSellingLiabilities :: "LedgerHeader \<Rightarrow> OfferEntry \<Rightarrow> ledger_error + int" where
  "getOfferSellingLiabilities header oe =
     (if ledgerVersion header < 10 then Inl (RuntimeThrow ''Offer liabilities calculated before version 10'')
      else bindR (exchangeV10WithoutPriceErrorThresholds (of_price oe) (of_amount oe) INT64_MAX INT64_MAX INT64_MAX False)
        (\<lambda>res. Inr (wheatReceivedV10 res)))"

section \<open>What an entry holds\<close>

text \<open>Accounts and trust lines, seen alike: a balance, the part of it that is reserved, the bound it must stay
  below, and the liabilities.\<close>

definition holds :: "LedgerEntry \<Rightarrow> bool" where
  "holds e \<longleftrightarrow> (case le_data e of ACCOUNT _ \<Rightarrow> True | TRUSTLINE _ \<Rightarrow> True | _ \<Rightarrow> False)"

definition heldBalance :: "LedgerEntry \<Rightarrow> int" where
  "heldBalance e = (case le_data e of ACCOUNT a \<Rightarrow> acc_balance a | TRUSTLINE t \<Rightarrow> tl_balance t | _ \<Rightarrow> 0)"

definition liabilities :: "LedgerEntry \<Rightarrow> Liabilities" where
  "liabilities e = liabilitiesV1 (case le_data e of ACCOUNT a \<Rightarrow> acc_v1 a | TRUSTLINE t \<Rightarrow> tl_v1 t | _ \<Rightarrow> None)"

abbreviation buying :: "LedgerEntry \<Rightarrow> int" where "buying e \<equiv> liab_buying (liabilities e)"
abbreviation selling :: "LedgerEntry \<Rightarrow> int" where "selling e \<equiv> liab_selling (liabilities e)"

definition reserved :: "LedgerHeader \<Rightarrow> LedgerEntry \<Rightarrow> int" where
  "reserved h e = (case le_data e of ACCOUNT a \<Rightarrow> getMinBalance h (acc_numSubEntries a) | _ \<Rightarrow> 0)"

definition upperBound :: "LedgerEntry \<Rightarrow> int" where
  "upperBound e = (case le_data e of TRUSTLINE t \<Rightarrow> tl_limit t | _ \<Rightarrow> INT64_MAX)"

definition usable :: "LedgerEntry \<Rightarrow> bool" where
  "usable e \<longleftrightarrow> (case le_data e of ACCOUNT _ \<Rightarrow> True | TRUSTLINE t \<Rightarrow> tl_flags t AND AUTHORIZED_FLAG \<noteq> 0 | _ \<Rightarrow> False)"

text \<open>Balances and liabilities are not negative, what is owed can be paid out of what is not reserved, and what
  is due to come in fits.\<close>

definition entry_ok :: "LedgerHeader \<Rightarrow> LedgerEntry \<Rightarrow> bool" where
  "entry_ok h e \<longleftrightarrow> (holds e \<longrightarrow>
     0 \<le> heldBalance e \<and> 0 \<le> buying e \<and> 0 \<le> selling e \<and>
     heldBalance e + buying e \<le> upperBound e \<and> upperBound e \<le> INT64_MAX \<and>
     (selling e = 0 \<or> selling e + reserved h e \<le> heldBalance e))"

lemmas held_defs = holds_def heldBalance_def liabilities_def reserved_def upperBound_def usable_def liabilitiesV1_def

lemma getMinBalance_nonneg: "0 \<le> getMinBalance h n"
  by (simp add: getMinBalance_def)

lemma reserved_nonneg: "0 \<le> reserved h e"
  by (auto simp: reserved_def getMinBalance_nonneg split: LedgerEntryData.splits)

lemma held_getters:
  assumes "10 \<le> ledgerVersion h" "holds e"
  shows "getBuyingLiabilities h e = Inr (buying e)" "getSellingLiabilities h e = Inr (selling e)"
    "getAvailableBalance h e = Inr (heldBalance e - reserved h e - selling e)"
    "getMaxAmountReceive h e = Inr (if usable e then upperBound e - heldBalance e - buying e else 0)"
  using assms
  by (auto simp: getBuyingLiabilities_def getSellingLiabilities_def getAvailableBalance_def getMaxAmountReceive_def
      isAuthorized_def held_defs split: LedgerEntryData.splits option.splits)

lemma addBalance64_spec:
  assumes "0 \<le> b" "0 \<le> m"
  shows "addBalance64 b d m = Inr (if d = 0 \<or> 0 \<le> b + d \<and> b + d \<le> m then (True, b + d) else (False, b))"
  using assms by (auto simp: addBalance64_def)

definition setBalance :: "int \<Rightarrow> LedgerEntry \<Rightarrow> LedgerEntry" where
  "setBalance b e = e\<lparr>le_data := (case le_data e of ACCOUNT a \<Rightarrow> ACCOUNT (a\<lparr>acc_balance := b\<rparr>)
     | TRUSTLINE t \<Rightarrow> TRUSTLINE (t\<lparr>tl_balance := b\<rparr>) | d \<Rightarrow> d)\<rparr>"

definition setLiabilities :: "Liabilities \<Rightarrow> LedgerEntry \<Rightarrow> LedgerEntry" where
  "setLiabilities l e = e\<lparr>le_data := (case le_data e of ACCOUNT a \<Rightarrow> ACCOUNT (a\<lparr>acc_v1 := Some l\<rparr>)
     | TRUSTLINE t \<Rightarrow> TRUSTLINE (t\<lparr>tl_v1 := Some l\<rparr>) | d \<Rightarrow> d)\<rparr>"

lemma setBalance_fields:
  assumes "holds e"
  shows "holds (setBalance b e)" "heldBalance (setBalance b e) = b" "liabilities (setBalance b e) = liabilities e"
    "reserved h (setBalance b e) = reserved h e" "upperBound (setBalance b e) = upperBound e"
    "usable (setBalance b e) = usable e" "LedgerEntryKey (setBalance b e) = LedgerEntryKey e"
  using assms by (auto simp: setBalance_def held_defs LedgerEntryKey_def split: LedgerEntryData.splits)

lemma setLiabilities_fields:
  assumes "holds e"
  shows "holds (setLiabilities l e)" "heldBalance (setLiabilities l e) = heldBalance e" "liabilities (setLiabilities l e) = l"
    "reserved h (setLiabilities l e) = reserved h e" "upperBound (setLiabilities l e) = upperBound e"
    "usable (setLiabilities l e) = usable e" "LedgerEntryKey (setLiabilities l e) = LedgerEntryKey e"
  using assms by (auto simp: setLiabilities_def held_defs LedgerEntryKey_def split: LedgerEntryData.splits)

text \<open>There is room to add \<open>d\<close> to the balance: it fits below the bound with what is due to come in, or it can be
  taken out of what is neither reserved nor owed.\<close>

definition roomFor :: "LedgerHeader \<Rightarrow> LedgerEntry \<Rightarrow> int \<Rightarrow> bool" where
  "roomFor h e d \<longleftrightarrow> usable e \<and>
     (if 0 < d then d \<le> upperBound e - heldBalance e - buying e else - d \<le> heldBalance e - reserved h e - selling e)"

lemma setBalance_same: "holds e \<Longrightarrow> setBalance (heldBalance e) e = e"
  by (cases e) (auto simp: setBalance_def held_defs split: LedgerEntryData.splits)

lemma addBalance_spec:
  assumes v: "10 \<le> ledgerVersion h" and e: "holds e" "entry_ok h e"
  shows "addBalance h e d =
    Inr (if d = 0 \<or> roomFor h e d then (True, setBalance (heldBalance e + d) e) else (False, e))"
proof (cases "d = 0")
  case True
  then show ?thesis using e setBalance_same [OF e(1)] by (auto simp: addBalance_def holds_def split: LedgerEntryData.splits)
next
  case False
  note g = held_getters [OF v e(1)]
  show ?thesis
  proof (cases "le_data e")
    case (ACCOUNT a)
    have ok: "0 \<le> acc_balance a" "0 \<le> buying e" "0 \<le> selling e" "acc_balance a + buying e \<le> INT64_MAX"
      using e ACCOUNT by (simp_all add: entry_ok_def heldBalance_def upperBound_def)
    have h: "heldBalance e = acc_balance a" "reserved h e = getMinBalance h (acc_numSubEntries a)"
      "upperBound e = INT64_MAX" "usable e" using ACCOUNT by (simp_all add: held_defs)
    show ?thesis
      using False ok v getMinBalance_nonneg [of h "acc_numSubEntries a"] unfolding addBalance_def ACCOUNT roomFor_def h
      by (simp add: ACCOUNT addBalance64_spec g Let_def setBalance_def h)
  next
    case (TRUSTLINE t)
    have ok: "0 \<le> tl_balance t" "0 \<le> buying e" "selling e \<le> tl_balance t" "0 \<le> selling e" "tl_balance t + buying e \<le> tl_limit t"
      using e TRUSTLINE by (auto simp add: entry_ok_def heldBalance_def upperBound_def reserved_def)
    have h: "heldBalance e = tl_balance t" "reserved h e = 0" "upperBound e = tl_limit t" using TRUSTLINE by (simp_all add: held_defs)
    have u: "isAuthorized e = Inr (usable e)" using TRUSTLINE by (simp add: isAuthorized_def usable_def)
    show ?thesis
      using False ok v unfolding addBalance_def TRUSTLINE roomFor_def h
      by (simp add: TRUSTLINE u addBalance64_spec g Let_def setBalance_def h)
  qed (use e(1) in \<open>simp_all add: holds_def\<close>)
qed

lemma addBuying_spec:
  assumes v: "10 \<le> ledgerVersion h" and e: "holds e" "entry_ok h e"
  shows "addBuyingLiabilities h e d =
    Inr (if d = 0 then (True, e)
         else if usable e \<and> 0 \<le> buying e + d \<and> heldBalance e + buying e + d \<le> upperBound e
         then (True, setLiabilities ((liabilities e)\<lparr>liab_buying := buying e + d\<rparr>) e) else (False, e))"
proof (cases "d = 0")
  case True
  then show ?thesis by (simp add: addBuyingLiabilities_def held_getters [OF v e(1)])
next
  case False
  show ?thesis
    using e False
    by (cases "le_data e") (auto simp: addBuyingLiabilities_def held_getters [OF v e(1)] isAuthorized_def entry_ok_def
        setLiabilities_def addBalance64_spec held_defs)
qed

lemma addSelling_spec:
  assumes v: "10 \<le> ledgerVersion h" and e: "holds e" "entry_ok h e"
  shows "addSellingLiabilities h e d =
    Inr (if d = 0 then (True, e)
         else if usable e \<and> 0 \<le> selling e + d \<and> selling e + d + reserved h e \<le> heldBalance e
         then (True, setLiabilities ((liabilities e)\<lparr>liab_selling := selling e + d\<rparr>) e) else (False, e))"
proof (cases "d = 0")
  case True
  then show ?thesis by (simp add: addSellingLiabilities_def held_getters [OF v e(1)])
next
  case False
  show ?thesis
    using e False
    by (cases "le_data e") (auto simp: addSellingLiabilities_def held_getters [OF v e(1)] isAuthorized_def entry_ok_def Let_def
        setLiabilities_def addBalance64_spec held_defs)
qed

lemma setBalance_ok:
  "holds e \<Longrightarrow> entry_ok h e \<Longrightarrow> roomFor h e d \<Longrightarrow> entry_ok h (setBalance (heldBalance e + d) e)"
  using reserved_nonneg [of h e] by (auto simp: entry_ok_def roomFor_def setBalance_fields split: if_splits)

lemma addLiabilities_ok:
  assumes "holds e" "entry_ok h e"
  shows "0 \<le> buying e + d \<Longrightarrow> heldBalance e + buying e + d \<le> upperBound e \<Longrightarrow>
      entry_ok h (setLiabilities ((liabilities e)\<lparr>liab_buying := buying e + d\<rparr>) e)"
    and "0 \<le> selling e + d \<Longrightarrow> selling e + d + reserved h e \<le> heldBalance e \<Longrightarrow>
      entry_ok h (setLiabilities ((liabilities e)\<lparr>liab_selling := selling e + d\<rparr>) e)"
  using assms by (auto simp: entry_ok_def setLiabilities_fields)

section \<open>Sub-entries\<close>

lemma sub_entries_word:
  assumes "0 < unat n" "unat n < 2 ^ 31"
  shows "unat (n + word_of_int (- 1) :: u32) = unat n - 1" "0 \<le> sint (n + word_of_int (- 1) :: u32)"
proof -
  have w: "n + word_of_int (- 1) = n - 1" by simp
  show u: "unat (n + word_of_int (- 1)) = unat n - 1" unfolding w using assms(1) by (simp add: unat_dec unat_gt_0)
  have i: "uint (n + word_of_int (- 1)) = int (unat n - 1)" unfolding uint_nat u ..
  have "sint (n + word_of_int (- 1)) = signed_take_bit 31 (int (unat n - 1))" unfolding sint_uint i by simp
  also have "\<dots> = int (unat n - 1)" using assms(2) by (intro signed_take_bit_int_eq_self) simp_all
  finally show "0 \<le> sint (n + word_of_int (- 1))" by simp
qed

lemma getMinBalance_mono:
  assumes "10 \<le> ledgerVersion h" "unat m \<le> unat n" "unat n < 2 ^ 31"
  shows "getMinBalance h m \<le> getMinBalance h n"
proof -
  have "uint (2 + k) = 2 + int (unat k)" if "unat k < 2 ^ 31" for k :: u32
  proof -
    have "unat (2 + k) = 2 + unat k" using unat_word_ariths(1) [of 2 k] that by simp
    then show ?thesis unfolding uint_nat by simp
  qed
  then have "uint (2 + m) \<le> uint (2 + n)" using assms(2,3) by simp
  moreover have "\<not> ledgerVersion h \<le> 8" using assms(1) order_trans [of 10 "ledgerVersion h" 8] by auto
  ultimately show ?thesis by (simp add: getMinBalance_def mult_right_mono)
qed

lemma addNumEntries_release:
  assumes v: "10 \<le> ledgerVersion h" and e: "le_data e = ACCOUNT a" "entry_ok h e"
    and n: "0 < unat (acc_numSubEntries a)" "unat (acc_numSubEntries a) < 2 ^ 31"
  shows "\<exists>e'. addNumEntries h e (- 1) = Inr (True, e') \<and> entry_ok h e' \<and>
    le_data e' = ACCOUNT (a\<lparr>acc_numSubEntries := acc_numSubEntries a - 1\<rparr>)"
proof -
  let ?e = "e\<lparr>le_data := ACCOUNT (a\<lparr>acc_numSubEntries := acc_numSubEntries a - 1\<rparr>)\<rparr>"
  have h: "holds e" using e(1) by (simp add: holds_def)
  have "addNumEntries h e (- 1) = Inr (True, ?e)"
    using sub_entries_word(2) [OF n] v e(1) held_getters(2) [OF v h] by (simp add: addNumEntries_def Let_def)
  moreover have "getMinBalance h (acc_numSubEntries a - 1) \<le> getMinBalance h (acc_numSubEntries a)"
    using sub_entries_word(1) [OF n] n by (intro getMinBalance_mono [OF v]) simp_all
  then have "entry_ok h ?e" using e by (auto simp: entry_ok_def held_defs)
  ultimately show ?thesis by auto
qed

section \<open>Reserves and liabilities are respected\<close>

text \<open>C36: From protocol 10 on, adding to a balance or to liabilities succeeds exactly when there is room: what is
  paid out must be available and what is received must fit, by the amounts that \<^verbatim>\<open>getAvailableBalance\<close> and
  \<^verbatim>\<open>getMaxAmountReceive\<close> report; it never throws, and it keeps balances and liabilities covered: nothing becomes
  negative, liabilities stay payable beyond the reserve, and what is due to come in still fits.\<close>

theorem amounts_stay_covered:
  assumes "10 \<le> ledgerVersion header" "holds entry" "entry_ok header entry"
  shows "\<exists>avail room. getAvailableBalance header entry = Inr avail \<and> getMaxAmountReceive header entry = Inr room \<and>
    (\<exists>ok e. addBalance header entry delta = Inr (ok, e) \<and> entry_ok header e \<and>
       heldBalance e = heldBalance entry + (if ok then delta else 0) \<and>
       (ok \<longleftrightarrow> delta = 0 \<or> usable entry \<and> (if 0 < delta then delta \<le> room else - delta \<le> avail))) \<and>
    (\<exists>ok e. addBuyingLiabilities header entry delta = Inr (ok, e) \<and> entry_ok header e \<and>
       buying e = buying entry + (if ok then delta else 0) \<and>
       (ok \<longleftrightarrow> delta = 0 \<or> usable entry \<and> 0 \<le> buying entry + delta \<and> delta \<le> room)) \<and>
    (\<exists>ok e. addSellingLiabilities header entry delta = Inr (ok, e) \<and> entry_ok header e \<and>
       selling e = selling entry + (if ok then delta else 0) \<and>
       (ok \<longleftrightarrow> delta = 0 \<or> usable entry \<and> 0 \<le> selling entry + delta \<and> delta \<le> avail))"
    (is "\<exists>avail room. _ \<and> _ \<and> ?balance avail room \<and> ?buying room \<and> ?selling avail")
proof -
  note g = held_getters [OF assms(1,2)]
  note f = setBalance_fields [OF assms(2)] setLiabilities_fields [OF assms(2)]
  let ?avail = "heldBalance entry - reserved header entry - selling entry"
  let ?room = "if usable entry then upperBound entry - heldBalance entry - buying entry else 0"
  have "?balance ?avail ?room"
    using setBalance_ok [OF assms(2,3), of delta] assms(3) setBalance_same [OF assms(2)]
    by (auto simp: addBalance_spec [OF assms] f roomFor_def)
  moreover have "?buying ?room"
    using addLiabilities_ok(1) [OF assms(2,3), of delta] assms(3) by (auto simp: addBuying_spec [OF assms] f)
  moreover have "?selling ?avail"
    using addLiabilities_ok(2) [OF assms(2,3), of delta] assms(3) by (auto simp: addSelling_spec [OF assms] f)
  ultimately show ?thesis using g(3,4) by blast
qed

definition exampleHeader :: LedgerHeader where
  "exampleHeader = \<lparr>ledgerVersion = 10, ledgerSeq = 1, baseReserve = 10, idPool = 0\<rparr>"

definition exampleAccount :: "AccountID \<Rightarrow> int \<Rightarrow> int \<Rightarrow> int \<Rightarrow> LedgerEntry" where
  "exampleAccount n balance buys sells =
     \<lparr>lastModifiedLedgerSeq = 1, le_data = ACCOUNT \<lparr>acc_accountID = n, acc_balance = balance, acc_seqNum = 0, acc_numSubEntries = 1,
        acc_inflationDest = None, acc_flags = 0, acc_homeDomain = [], acc_thresholds = [], acc_signers = [],
        acc_v1 = Some \<lparr>liab_buying = buys, liab_selling = sells\<rparr>\<rparr>\<rparr>"

lemma example_account_held:
  "holds (exampleAccount n b x y)" "heldBalance (exampleAccount n b x y) = b" "buying (exampleAccount n b x y) = x"
  "selling (exampleAccount n b x y) = y" "reserved exampleHeader (exampleAccount n b x y) = 30"
  "upperBound (exampleAccount n b x y) = INT64_MAX" "usable (exampleAccount n b x y)" "10 \<le> ledgerVersion exampleHeader"
  by (simp_all add: held_defs exampleAccount_def exampleHeader_def getMinBalance_def)

theorem amounts_stay_covered_witness:
  "\<exists>avail ok e. getAvailableBalance exampleHeader (exampleAccount 1 100 5 20) = Inr avail \<and>
     addBalance exampleHeader (exampleAccount 1 100 5 20) (- 50) = Inr (ok, e) \<and> entry_ok exampleHeader e \<and>
     (ok \<longleftrightarrow> 50 \<le> avail) \<and> heldBalance e = 100 + (if ok then - 50 else 0)"
proof -
  have ok: "entry_ok exampleHeader (exampleAccount 1 100 5 20)" by (simp add: entry_ok_def example_account_held)
  show ?thesis
    using amounts_stay_covered [OF example_account_held(8,1) ok, of "- 50"] by (auto simp: example_account_held)
qed

end
