(* ===== verification/Buckets.thy ===== *)
theory Buckets
  imports LedgerEntries
begin

text \<open>
  Buckets (\<^verbatim>\<open>bucket/Bucket.cpp\<close>, \<^verbatim>\<open>bucket/BucketOutputIterator.cpp\<close>, \<^verbatim>\<open>bucket/LedgerCmp.h\<close>): files of ledger
  entries and tombstones sorted by key. A bucket is the list of the entries of its file, an input iterator is
  the list of the entries still to be read, and the output iterator keeps its buffer of one entry.
\<close>

section \<open>Entries and iterators\<close>

datatype BucketEntry = LIVEENTRY LedgerEntry | DEADENTRY LedgerKey

type_synonym Bucket = "BucketEntry list"

definition BucketEntryIdCmp :: "BucketEntry \<Rightarrow> BucketEntry \<Rightarrow> bool" where
  "BucketEntryIdCmp a b =
     (case a of
        LIVEENTRY x \<Rightarrow>
          (case b of LIVEENTRY y \<Rightarrow> LedgerEntryIdCmp (LedgerEntryKey x) (LedgerEntryKey y)
           | DEADENTRY l \<Rightarrow> LedgerEntryIdCmp (LedgerEntryKey x) l)
      | DEADENTRY k \<Rightarrow>
          (case b of LIVEENTRY y \<Rightarrow> LedgerEntryIdCmp k (LedgerEntryKey y)
           | DEADENTRY l \<Rightarrow> LedgerEntryIdCmp k l))"

record BucketOutputIterator =
  mOut :: "BucketEntry list"
  mBuf :: "BucketEntry option"
  mKeepDeadEntries :: bool

definition newBucketOutputIterator :: "bool \<Rightarrow> BucketOutputIterator" where
  "newBucketOutputIterator keepDeadEntries = \<lparr>mOut = [], mBuf = None, mKeepDeadEntries = keepDeadEntries\<rparr>"

definition put :: "BucketEntry \<Rightarrow> BucketOutputIterator \<Rightarrow> ledger_error + BucketOutputIterator" where
  "put e out =
     (if \<not> mKeepDeadEntries out \<and> (case e of DEADENTRY _ \<Rightarrow> True | _ \<Rightarrow> False) then Inr out
      else case mBuf out of
        Some buf \<Rightarrow>
          bindR (assertL (\<not> BucketEntryIdCmp e buf)) (\<lambda>_.
          Inr ((if BucketEntryIdCmp buf e then out\<lparr>mOut := mOut out @ [buf]\<rparr> else out)\<lparr>mBuf := Some e\<rparr>))
      | None \<Rightarrow> Inr (out\<lparr>mBuf := Some e\<rparr>))"

definition getBucket :: "BucketOutputIterator \<Rightarrow> Bucket" where
  "getBucket out = (case mBuf out of Some buf \<Rightarrow> mOut out @ [buf] | None \<Rightarrow> mOut out)"

fun putAll :: "BucketEntry list \<Rightarrow> BucketOutputIterator \<Rightarrow> ledger_error + BucketOutputIterator" where
  "putAll [] out = Inr out"
| "putAll (e # es) out = bindR (put e out) (putAll es)"

section \<open>Merging\<close>

text \<open>Whether the entry is shadowed, and the shadow iterators after the search.\<close>

fun findShadow :: "BucketEntry \<Rightarrow> Bucket list \<Rightarrow> bool \<times> Bucket list" where
  "findShadow entry [] = (False, [])"
| "findShadow entry (si # sis) =
     (let si1 = dropWhile (\<lambda>e. BucketEntryIdCmp e entry) si in
      if si1 \<noteq> [] \<and> \<not> BucketEntryIdCmp entry (hd si1) then (True, si1 # sis)
      else let (found, sis1) = findShadow entry sis in (found, si1 # sis1))"

definition maybePut ::
  "BucketOutputIterator \<Rightarrow> BucketEntry \<Rightarrow> Bucket list \<Rightarrow> ledger_error + (BucketOutputIterator \<times> Bucket list)" where
  "maybePut out entry shadowIterators =
     (let (found, sis) = findShadow entry shadowIterators in
      if found then Inr (out, sis) else bindR (put entry out) (\<lambda>out1. Inr (out1, sis)))"

fun mergeLoop ::
  "Bucket \<Rightarrow> Bucket \<Rightarrow> Bucket list \<Rightarrow> BucketOutputIterator \<Rightarrow> ledger_error + BucketOutputIterator" where
  "mergeLoop [] [] sis out = Inr out"
| "mergeLoop (oi # ois) [] sis out =
     bindR (maybePut out oi sis) (\<lambda>(out1, sis1). mergeLoop ois [] sis1 out1)"
| "mergeLoop [] (ni # nis) sis out =
     bindR (maybePut out ni sis) (\<lambda>(out1, sis1). mergeLoop [] nis sis1 out1)"
| "mergeLoop (oi # ois) (ni # nis) sis out =
     (if BucketEntryIdCmp oi ni
      then bindR (maybePut out oi sis) (\<lambda>(out1, sis1). mergeLoop ois (ni # nis) sis1 out1)
      else if BucketEntryIdCmp ni oi
      then bindR (maybePut out ni sis) (\<lambda>(out1, sis1). mergeLoop (oi # ois) nis sis1 out1)
      else bindR (maybePut out ni sis) (\<lambda>(out1, sis1). mergeLoop ois nis sis1 out1))"

definition merge :: "Bucket \<Rightarrow> Bucket \<Rightarrow> Bucket list \<Rightarrow> bool \<Rightarrow> ledger_error + Bucket" where
  "merge oldBucket newBucket shadows keepDeadEntries =
     bindR (mergeLoop oldBucket newBucket shadows (newBucketOutputIterator keepDeadEntries)) (\<lambda>out.
     Inr (getBucket out))"

fun bucketKey :: "BucketEntry \<Rightarrow> LedgerKey" where
  "bucketKey (LIVEENTRY e) = LedgerEntryKey e"
| "bucketKey (DEADENTRY k) = k"

text \<open>\<^verbatim>\<open>std::sort\<close> by \<^verbatim>\<open>BucketEntryIdCmp\<close> sorts by key; entries of one batch with the same key, whose order it
  leaves open, do not occur.\<close>

definition fresh :: "LedgerEntry list \<Rightarrow> LedgerKey list \<Rightarrow> ledger_error + Bucket" where
  "fresh liveEntries deadEntries =
     (let live = sort_key bucketKey (map LIVEENTRY liveEntries);
          dead = sort_key bucketKey (map DEADENTRY deadEntries) in
      bindR (putAll live (newBucketOutputIterator True)) (\<lambda>liveOut.
      bindR (putAll dead (newBucketOutputIterator True)) (\<lambda>deadOut.
      merge (getBucket liveOut) (getBucket deadOut) [] True)))"

definition containsBucketIdentity :: "BucketEntry \<Rightarrow> Bucket \<Rightarrow> bool" where
  "containsBucketIdentity ident b \<longleftrightarrow>
     list_ex (\<lambda>e. \<not> (BucketEntryIdCmp e ident \<or> BucketEntryIdCmp ident e)) b"

fun countLiveAndDeadEntries :: "Bucket \<Rightarrow> nat \<times> nat" where
  "countLiveAndDeadEntries [] = (0, 0)"
| "countLiveAndDeadEntries (e # es) =
     (let (live, dead) = countLiveAndDeadEntries es in
      case e of LIVEENTRY _ \<Rightarrow> (live + 1, dead) | DEADENTRY _ \<Rightarrow> (live, dead + 1))"

section \<open>Applying a bucket to a ledger\<close>

text \<open>\<^verbatim>\<open>BucketApplicator::advance\<close>, called until the iterator is exhausted; the ledger is a map from keys.\<close>

definition applyEntry :: "BucketEntry \<Rightarrow> (LedgerKey \<rightharpoonup> LedgerEntry) \<Rightarrow> (LedgerKey \<rightharpoonup> LedgerEntry)" where
  "applyEntry e ls =
     (case e of LIVEENTRY x \<Rightarrow> ls(LedgerEntryKey x \<mapsto> x) | DEADENTRY k \<Rightarrow> ls(k := None))"

definition applyBucket :: "Bucket \<Rightarrow> (LedgerKey \<rightharpoonup> LedgerEntry) \<Rightarrow> (LedgerKey \<rightharpoonup> LedgerEntry)" where
  "applyBucket b ls = fold applyEntry b ls"

section \<open>Buckets as maps\<close>

definition bucket_ok :: "Bucket \<Rightarrow> bool" where
  "bucket_ok b \<longleftrightarrow> sorted_wrt (<) (map bucketKey b)"

definition bucketMap :: "Bucket \<Rightarrow> LedgerKey \<rightharpoonup> BucketEntry" where
  "bucketMap b = map_of (map (\<lambda>e. (bucketKey e, e)) b)"

definition bucketKeys :: "Bucket \<Rightarrow> LedgerKey set" where
  "bucketKeys b = bucketKey ` set b"

fun isDead :: "BucketEntry \<Rightarrow> bool" where
  "isDead (DEADENTRY _) = True"
| "isDead (LIVEENTRY _) = False"

lemma BucketEntryIdCmp_key [simp]: "BucketEntryIdCmp a b \<longleftrightarrow> bucketKey a < bucketKey b"
  by (cases a; cases b) (simp_all add: BucketEntryIdCmp_def less_LedgerKey_def)

lemma bucket_ok_simps [simp]:
  "bucket_ok []"
  "bucket_ok (e # es) \<longleftrightarrow> (\<forall>x \<in> set es. bucketKey e < bucketKey x) \<and> bucket_ok es"
  by (simp_all add: bucket_ok_def)

lemma bucketKeys_simps [simp]:
  "bucketKeys [] = {}" "bucketKeys (e # es) = insert (bucketKey e) (bucketKeys es)"
  "bucketKeys (xs @ ys) = bucketKeys xs \<union> bucketKeys ys"
  by (auto simp: bucketKeys_def)

lemma bucketMap_simps [simp]:
  "bucketMap [] = Map.empty"
  "bucketMap (e # es) = (bucketMap es)(bucketKey e \<mapsto> e)"
  by (simp_all add: bucketMap_def)

lemma dom_bucketMap [simp]: "dom (bucketMap b) = bucketKeys b"
  by (simp add: bucketMap_def dom_map_of_conv_image_fst image_image bucketKeys_def)

lemma bucketMap_None: "bucketMap b k = None \<longleftrightarrow> k \<notin> bucketKeys b"
  using dom_bucketMap [of b] by blast

lemma bucketMap_notin [simp]: "k \<notin> bucketKeys b \<Longrightarrow> bucketMap b k = None"
  by (simp add: bucketMap_None)

lemma bucketMap_key: "bucketMap b k = Some e \<Longrightarrow> bucketKey e = k \<and> e \<in> set b"
  by (induction b) (auto split: if_splits)

lemma bucket_ok_dropWhile: "bucket_ok b \<Longrightarrow> bucket_ok (dropWhile P b)"
  by (metis bucket_ok_def map_append sorted_wrt_append takeWhile_dropWhile_id)

lemma bucket_ok_filter: "bucket_ok b \<Longrightarrow> bucket_ok (filter P b)"
  by (induction b) auto

lemma bucketMap_filter:
  "bucket_ok b \<Longrightarrow> bucketMap (filter P b) k = (case bucketMap b k of Some e \<Rightarrow> if P e then Some e else None | None \<Rightarrow> None)"
proof (induction b)
  case (Cons e b)
  then have "bucketMap b (bucketKey e) = None" by (auto simp: bucketMap_None bucketKeys_def)
  with Cons show ?case by auto
qed simp

section \<open>What merging computes\<close>

definition shadowed :: "Bucket list \<Rightarrow> LedgerKey \<Rightarrow> bool" where
  "shadowed shadows k \<longleftrightarrow> (\<exists>b \<in> set shadows. k \<in> bucketKeys b)"

fun mergeEntries :: "Bucket \<Rightarrow> Bucket \<Rightarrow> Bucket" where
  "mergeEntries ois [] = ois"
| "mergeEntries [] nis = nis"
| "mergeEntries (oi # ois) (ni # nis) =
     (if bucketKey oi < bucketKey ni then oi # mergeEntries ois (ni # nis)
      else if bucketKey ni < bucketKey oi then ni # mergeEntries (oi # ois) nis
      else ni # mergeEntries ois nis)"

definition mergedBucket :: "Bucket \<Rightarrow> Bucket \<Rightarrow> Bucket list \<Rightarrow> bool \<Rightarrow> Bucket" where
  "mergedBucket oldBucket newBucket shadows keep =
     filter (\<lambda>e. \<not> shadowed shadows (bucketKey e) \<and> (keep \<or> \<not> isDead e)) (mergeEntries oldBucket newBucket)"

lemma mergeEntries_Nil [simp]: "mergeEntries [] nis = nis"
  by (cases nis) simp_all

lemma keys_mergeEntries [simp]: "bucketKeys (mergeEntries ois nis) = bucketKeys ois \<union> bucketKeys nis"
  by (induction ois nis rule: mergeEntries.induct) auto

lemma bucket_ok_iff: "bucket_ok (e # es) \<longleftrightarrow> (\<forall>k \<in> bucketKeys es. bucketKey e < k) \<and> bucket_ok es"
  by (auto simp: bucketKeys_def)

lemma mergeEntries_ok: "bucket_ok ois \<Longrightarrow> bucket_ok nis \<Longrightarrow> bucket_ok (mergeEntries ois nis)"
  by (induction ois nis rule: mergeEntries.induct)
    (auto simp: bucket_ok_iff simp del: bucket_ok_simps(2) intro: less_trans)

lemma mergeEntries_map: "bucket_ok ois \<Longrightarrow> bucket_ok nis \<Longrightarrow>
    bucketMap (mergeEntries ois nis) = bucketMap ois ++ bucketMap nis"
proof (induction ois nis rule: mergeEntries.induct)
  case (3 oi ois ni nis)
  consider "bucketKey oi < bucketKey ni" | "bucketKey ni < bucketKey oi" | "bucketKey oi = bucketKey ni"
    by (meson linorder_less_linear)
  then show ?case
  proof cases
    case 1
    then have "bucketMap (ni # nis) (bucketKey oi) = None"
      using "3.prems"(2) unfolding bucketMap_None by (auto simp: bucketKeys_def)
    then show ?thesis using 1 3 by (auto simp: map_add_def fun_eq_iff split: option.splits)
  qed (use 3 in \<open>auto simp: map_add_def fun_eq_iff split: option.splits\<close>)
qed simp_all

fun putMany :: "BucketEntry list \<Rightarrow> Bucket list \<Rightarrow> BucketOutputIterator \<Rightarrow> ledger_error + BucketOutputIterator" where
  "putMany [] sis out = Inr out"
| "putMany (e # es) sis out = bindR (maybePut out e sis) (\<lambda>(out1, sis1). putMany es sis1 out1)"

lemma mergeLoop_putMany: "mergeLoop ois nis sis out = putMany (mergeEntries ois nis) sis out"
  by (induction ois nis sis out rule: mergeLoop.induct) (auto simp: bindR_def split: sum.splits)

lemma keys_dropWhile:
  "bucketKey e \<le> k \<Longrightarrow> k \<in> bucketKeys (dropWhile (\<lambda>x. BucketEntryIdCmp x e) b) \<longleftrightarrow> k \<in> bucketKeys b"
  by (induction b) auto

lemma hd_dropWhile_key:
  "bucket_ok b \<Longrightarrow>
    (dropWhile (\<lambda>x. BucketEntryIdCmp x e) b \<noteq> [] \<and> \<not> BucketEntryIdCmp e (hd (dropWhile (\<lambda>x. BucketEntryIdCmp x e) b)))
    \<longleftrightarrow> bucketKey e \<in> bucketKeys (dropWhile (\<lambda>x. BucketEntryIdCmp x e) b)"
proof (induction b)
  case (Cons x b)
  then show ?case by (cases "bucketKey x" "bucketKey e" rule: linorder_cases) (auto simp: bucketKeys_def)
qed simp

lemma findShadow_spec:
  assumes "\<forall>b \<in> set sis. bucket_ok b"
  shows "fst (findShadow e sis) = shadowed sis (bucketKey e)"
    and "\<forall>b \<in> set (snd (findShadow e sis)). bucket_ok b"
    and "bucketKey e < k \<Longrightarrow> shadowed (snd (findShadow e sis)) k = shadowed sis k"
proof -
  have "fst (findShadow e sis) = shadowed sis (bucketKey e) \<and> (\<forall>b \<in> set (snd (findShadow e sis)). bucket_ok b) \<and>
    (bucketKey e < k \<longrightarrow> shadowed (snd (findShadow e sis)) k = shadowed sis k)"
    using assms
  proof (induction sis)
    case (Cons si sis)
    define si1 where "si1 = dropWhile (\<lambda>x. BucketEntryIdCmp x e) si"
    have ok: "bucket_ok si1" using Cons.prems by (simp add: si1_def bucket_ok_dropWhile)
    have keys: "bucketKey e \<le> k \<Longrightarrow> k \<in> bucketKeys si1 \<longleftrightarrow> k \<in> bucketKeys si" for k
      unfolding si1_def by (rule keys_dropWhile)
    have hd: "(si1 \<noteq> [] \<and> \<not> BucketEntryIdCmp e (hd si1)) \<longleftrightarrow> bucketKey e \<in> bucketKeys si1"
      unfolding si1_def by (rule hd_dropWhile_key) (use Cons.prems in simp)
    have IH: "fst (findShadow e sis) = shadowed sis (bucketKey e)" "\<forall>b \<in> set (snd (findShadow e sis)). bucket_ok b"
      "bucketKey e < k \<longrightarrow> shadowed (snd (findShadow e sis)) k = shadowed sis k" using Cons by auto
    have step: "findShadow e (si # sis) = (if bucketKey e \<in> bucketKeys si1 then (True, si1 # sis)
      else (fst (findShadow e sis), si1 # snd (findShadow e sis)))"
      using hd by (auto simp: Let_def si1_def split: prod.splits)
    show ?case unfolding step using IH ok keys Cons.prems by (auto simp: shadowed_def)
  qed (simp add: shadowed_def)
  then show "fst (findShadow e sis) = shadowed sis (bucketKey e)"
    "\<forall>b \<in> set (snd (findShadow e sis)). bucket_ok b"
    "bucketKey e < k \<Longrightarrow> shadowed (snd (findShadow e sis)) k = shadowed sis k" by auto
qed

lemma put_spec:
  assumes "\<forall>x \<in> set (getBucket out). bucketKey x < bucketKey e"
  shows "\<exists>out1. put e out = Inr out1 \<and> mKeepDeadEntries out1 = mKeepDeadEntries out \<and>
    getBucket out1 = getBucket out @ (if mKeepDeadEntries out \<or> \<not> isDead e then [e] else [])"
  using assms by (cases "mBuf out"; cases e) (auto simp: put_def getBucket_def assertL_def dest: less_asym)

lemma putMany_spec:
  assumes "bucket_ok es" "\<forall>b \<in> set sis. bucket_ok b"
    and "\<forall>x \<in> set (getBucket out). \<forall>e \<in> set es. bucketKey x < bucketKey e"
  shows "\<exists>out1. putMany es sis out = Inr out1 \<and>
    getBucket out1 = getBucket out @
      filter (\<lambda>e. \<not> shadowed sis (bucketKey e) \<and> (mKeepDeadEntries out \<or> \<not> isDead e)) es"
  using assms
proof (induction es arbitrary: sis out)
  case (Cons e es)
  define sis1 where "sis1 = snd (findShadow e sis)"
  note sh = findShadow_spec [OF Cons.prems(2), of e, folded sis1_def]
  have same: "filter (\<lambda>x. \<not> shadowed sis1 (bucketKey x) \<and> P x) es = filter (\<lambda>x. \<not> shadowed sis (bucketKey x) \<and> P x) es"
    for P using Cons.prems(1) sh(3) by (intro filter_cong) auto
  have f: "findShadow e sis = (shadowed sis (bucketKey e), sis1)" using sh(1) by (simp add: sis1_def prod_eq_iff)
  show ?case
  proof (cases "shadowed sis (bucketKey e)")
    case True
    then show ?thesis using Cons.IH [of sis1 out] Cons.prems sh(2) f same by (simp add: maybePut_def)
  next
    case False
    obtain out1 where o1: "put e out = Inr out1" "mKeepDeadEntries out1 = mKeepDeadEntries out"
      "getBucket out1 = getBucket out @ (if mKeepDeadEntries out \<or> \<not> isDead e then [e] else [])"
      using put_spec [of out e] Cons.prems(3) by auto
    have "\<forall>x \<in> set (getBucket out1). \<forall>y \<in> set es. bucketKey x < bucketKey y"
      using o1(3) Cons.prems(1,3) by auto
    from Cons.IH [OF _ sh(2) this] show ?thesis using Cons.prems(1) False f same o1 by (auto simp: maybePut_def)
  qed
qed simp

lemma merge_computes:
  assumes "bucket_ok ob" "bucket_ok nb" "\<forall>b \<in> set sis. bucket_ok b"
  shows "merge ob nb sis keep = Inr (mergedBucket ob nb sis keep)"
  using putMany_spec [OF mergeEntries_ok [OF assms(1,2)] assms(3), of "newBucketOutputIterator keep"]
  by (auto simp: merge_def mergeLoop_putMany mergedBucket_def newBucketOutputIterator_def getBucket_def)

lemma mergedBucket_ok: "bucket_ok ob \<Longrightarrow> bucket_ok nb \<Longrightarrow> bucket_ok (mergedBucket ob nb sis keep)"
  by (simp add: mergedBucket_def bucket_ok_filter mergeEntries_ok)

lemma mergedBucket_map:
  assumes "bucket_ok ob" "bucket_ok nb"
  shows "bucketMap (mergedBucket ob nb sis keep) k =
    (if shadowed sis k then None
     else case (bucketMap ob ++ bucketMap nb) k of
       Some e \<Rightarrow> if keep \<or> \<not> isDead e then Some e else None
     | None \<Rightarrow> None)"
proof -
  have "bucketKey e = k" if "(bucketMap ob ++ bucketMap nb) k = Some e" for e
    using that by (auto simp: map_add_Some_iff dest: bucketMap_key)
  then show ?thesis
    unfolding mergedBucket_def bucketMap_filter [OF mergeEntries_ok [OF assms]] mergeEntries_map [OF assms]
    by (cases "(bucketMap ob ++ bucketMap nb) k") (simp_all del: map_add_None)
qed

section \<open>Fresh buckets\<close>

lemma putAll_putMany: "putAll es out = putMany es [] out"
  by (induction es arbitrary: out) (auto simp: maybePut_def bindR_def split: sum.splits)

lemma not_shadowed_Nil [simp]: "\<not> shadowed [] k"
  by (simp add: shadowed_def)

lemma sort_key_ok: "distinct (map bucketKey es) \<Longrightarrow> bucket_ok (sort_key bucketKey es)"
  by (simp add: bucket_ok_def strict_sorted_iff flip: distinct_map [of bucketKey])
    (metis distinct_map distinct_sort set_sort)

lemma bucketMap_ok_iff: "bucket_ok b \<Longrightarrow> bucketMap b k = Some e \<longleftrightarrow> e \<in> set b \<and> bucketKey e = k"
  by (induction b) auto

lemma putAll_sorted:
  assumes "bucket_ok es"
  shows "\<exists>out. putAll es (newBucketOutputIterator True) = Inr out \<and> getBucket out = es"
  using putMany_spec [OF assms, of "[]" "newBucketOutputIterator True"]
  by (simp add: putAll_putMany newBucketOutputIterator_def getBucket_def)

definition batch_ok :: "LedgerEntry list \<Rightarrow> LedgerKey list \<Rightarrow> bool" where
  "batch_ok live dead \<longleftrightarrow> distinct (map LedgerEntryKey live) \<and> distinct dead"

definition freshBucket :: "LedgerEntry list \<Rightarrow> LedgerKey list \<Rightarrow> Bucket" where
  "freshBucket live dead =
     mergedBucket (sort_key bucketKey (map LIVEENTRY live)) (sort_key bucketKey (map DEADENTRY dead)) [] True"

lemma batch_sorted:
  assumes "batch_ok live dead"
  shows "bucket_ok (sort_key bucketKey (map LIVEENTRY live))" "bucket_ok (sort_key bucketKey (map DEADENTRY dead))"
  using assms by (auto simp: batch_ok_def comp_def intro!: sort_key_ok)

lemma fresh_computes: "batch_ok live dead \<Longrightarrow> fresh live dead = Inr (freshBucket live dead)"
  using putAll_sorted [OF batch_sorted(1)] putAll_sorted [OF batch_sorted(2)]
  by (fastforce simp: fresh_def Let_def freshBucket_def merge_computes batch_sorted)

lemma freshBucket_ok: "batch_ok live dead \<Longrightarrow> bucket_ok (freshBucket live dead)"
  by (simp add: freshBucket_def mergedBucket_ok batch_sorted)

section \<open>Applying buckets\<close>

text \<open>The ledger after a batch of changes.\<close>

definition applyBatch ::
  "LedgerEntry list \<Rightarrow> LedgerKey list \<Rightarrow> (LedgerKey \<rightharpoonup> LedgerEntry) \<Rightarrow> (LedgerKey \<rightharpoonup> LedgerEntry)" where
  "applyBatch live dead ls =
     (\<lambda>k. if k \<in> set dead then None
          else case find (\<lambda>e. LedgerEntryKey e = k) live of Some e \<Rightarrow> Some e | None \<Rightarrow> ls k)"

definition overlay :: "(LedgerKey \<rightharpoonup> BucketEntry) \<Rightarrow> (LedgerKey \<rightharpoonup> LedgerEntry) \<Rightarrow> (LedgerKey \<rightharpoonup> LedgerEntry)" where
  "overlay m ls = (\<lambda>k. case m k of Some (LIVEENTRY e) \<Rightarrow> Some e | Some (DEADENTRY _) \<Rightarrow> None | None \<Rightarrow> ls k)"

lemma overlay_empty [simp]: "overlay Map.empty ls = ls"
  by (simp add: overlay_def)

lemma overlay_add: "overlay (m ++ n) ls = overlay n (overlay m ls)"
  by (auto simp: overlay_def fun_eq_iff map_add_def split: option.splits BucketEntry.splits)

lemma applyBucket_overlay: "bucket_ok b \<Longrightarrow> applyBucket b ls = overlay (bucketMap b) ls"
proof (induction b arbitrary: ls)
  case (Cons e b)
  then have n: "bucketMap b (bucketKey e) = None" unfolding bucketMap_None by (auto simp: bucketKeys_def)
  show ?case using Cons n
    by (cases e) (auto simp: applyBucket_def applyEntry_def overlay_def fun_eq_iff split: option.splits BucketEntry.splits)
qed (simp add: applyBucket_def)

lemma bucketMap_sorted:
  assumes "distinct (map bucketKey es)"
  shows "bucketMap (sort_key bucketKey es) k = find (\<lambda>e. bucketKey e = k) es"
proof (cases "find (\<lambda>e. bucketKey e = k) es")
  case None
  then have "k \<notin> bucketKeys (sort_key bucketKey es)" by (auto simp: find_None_iff bucketKeys_def)
  then show ?thesis using None by simp
next
  case (Some e)
  then show ?thesis
    by (metis (mono_tags, lifting) assms bucketMap_ok_iff find_Some_iff nth_mem set_sort sort_key_ok)
qed

lemma freshBucket_overlay:
  assumes "batch_ok live dead"
  shows "overlay (bucketMap (freshBucket live dead)) ls = applyBatch live dead ls"
proof
  fix k
  have d: "distinct (map bucketKey (map LIVEENTRY live))" "distinct (map bucketKey (map DEADENTRY dead))"
    using assms by (simp_all add: batch_ok_def comp_def)
  have live: "find (\<lambda>e. bucketKey e = k) (map LIVEENTRY live) = map_option LIVEENTRY (find (\<lambda>e. LedgerEntryKey e = k) live)"
    by (induction live) auto
  have dead: "find (\<lambda>e. bucketKey e = k) (map DEADENTRY dead) = (if k \<in> set dead then Some (DEADENTRY k) else None)"
    by (induction dead) auto
  show "overlay (bucketMap (freshBucket live dead)) ls k = applyBatch live dead ls k"
    unfolding overlay_def freshBucket_def mergedBucket_map [OF batch_sorted [OF assms]] applyBatch_def map_add_def
      bucketMap_sorted [OF d(1)] bucketMap_sorted [OF d(2)] live dead
    by (auto split: option.splits)
qed

section \<open>Merging keeps the newest entries\<close>

text \<open>C37: Merging two buckets never trips an assertion of the output iterator and makes a sorted bucket, in which
  every key has its newest entry, unless the key occurs in a shadow, or the entry is a tombstone and tombstones
  are not kept.\<close>

theorem merge_keeps_newest:
  assumes "bucket_ok oldBucket" "bucket_ok newBucket" "\<forall>b \<in> set shadows. bucket_ok b"
  shows "\<exists>b. merge oldBucket newBucket shadows keepDeadEntries = Inr b \<and> bucket_ok b \<and>
    (\<forall>k. bucketMap b k =
       (if \<exists>s \<in> set shadows. containsBucketIdentity (DEADENTRY k) s then None
        else case (if containsBucketIdentity (DEADENTRY k) newBucket then bucketMap newBucket k else bucketMap oldBucket k) of
          Some e \<Rightarrow> if keepDeadEntries \<or> \<not> isDead e then Some e else None
        | None \<Rightarrow> None))"
proof -
  have c: "containsBucketIdentity (DEADENTRY k) b \<longleftrightarrow> k \<in> bucketKeys b" for k b
    by (auto simp: containsBucketIdentity_def list_ex_iff bucketKeys_def)
  have newest: "(bucketMap oldBucket ++ bucketMap newBucket) k =
    (if k \<in> bucketKeys newBucket then bucketMap newBucket k else bucketMap oldBucket k)" for k
    using bucketMap_None [of newBucket k] by (auto simp: map_add_def split: option.splits)
  have "bucketMap (mergedBucket oldBucket newBucket shadows keepDeadEntries) k =
    (if \<exists>s \<in> set shadows. k \<in> bucketKeys s then None
     else case (if k \<in> bucketKeys newBucket then bucketMap newBucket k else bucketMap oldBucket k) of
       Some e \<Rightarrow> if keepDeadEntries \<or> \<not> isDead e then Some e else None
     | None \<Rightarrow> None)" for k
    unfolding mergedBucket_map [OF assms(1,2)] newest shadowed_def by (rule refl)
  then show ?thesis unfolding c using merge_computes [OF assms] mergedBucket_ok [OF assms(1,2)] by blast
qed

theorem merge_keeps_newest_witness:
  "(case merge [DEADENTRY (OfferKey 1 1), DEADENTRY (OfferKey 1 2)] [DEADENTRY (OfferKey 1 2), DEADENTRY (OfferKey 2 1)]
      [[DEADENTRY (OfferKey 1 1)]] True of
      Inr b \<Rightarrow> bucketMap b (OfferKey 1 1) = None \<and> bucketMap b (OfferKey 1 2) = Some (DEADENTRY (OfferKey 1 2))
    | Inl _ \<Rightarrow> False)"
proof -
  let ?o = "[DEADENTRY (OfferKey 1 1), DEADENTRY (OfferKey 1 2)]"
  let ?n = "[DEADENTRY (OfferKey 1 2), DEADENTRY (OfferKey 2 1)]"
  have ok: "bucket_ok ?o" "bucket_ok ?n" "\<forall>b \<in> set [[DEADENTRY (OfferKey 1 1)]]. bucket_ok b"
    by (simp_all add: less_LedgerKey_def LedgerEntryIdCmp_def)
  from merge_keeps_newest [OF ok, of True] show ?thesis
    by (auto simp: containsBucketIdentity_def less_LedgerKey_def LedgerEntryIdCmp_def)
qed

end
