(* ===== verification/BucketList.thy ===== *)
theory BucketList
  imports Buckets
begin

text \<open>
  The bucket list (\<^verbatim>\<open>bucket/BucketList.cpp\<close>, \<^verbatim>\<open>bucket/FutureBucket.cpp\<close>): eleven levels of two buckets each, in
  which every ledger puts the entries it changed. A level is half the size of the next one; when it is full its
  entries spill into the next level by a merge that runs in the background and is waited for at the next spill.
  The inputs of a merge never change, so its output is a function of them, whenever the thread runs.
\<close>

unbundle bit_operations_syntax

section \<open>Merges in progress\<close>

type_synonym BucketHash = u256

text \<open>The states of a \<^verbatim>\<open>FutureBucket\<close>. Hashes of live buckets are functions of the buckets; the last component
  of \<open>FB_LIVE_INPUTS\<close> is the flag that the running merge captured.\<close>

datatype FutureBucket =
    FB_CLEAR
  | FB_HASH_OUTPUT BucketHash
  | FB_HASH_INPUTS BucketHash BucketHash "BucketHash list"
  | FB_LIVE_OUTPUT Bucket
  | FB_LIVE_INPUTS Bucket Bucket "Bucket list" bool

definition newFutureBucket :: "Bucket \<Rightarrow> Bucket \<Rightarrow> Bucket list \<Rightarrow> bool \<Rightarrow> FutureBucket" where
  "newFutureBucket currB snap shadows keepDeadEntries = FB_LIVE_INPUTS currB snap shadows keepDeadEntries"

definition isLive :: "FutureBucket \<Rightarrow> bool" where
  "isLive fb \<longleftrightarrow> (case fb of FB_LIVE_INPUTS _ _ _ _ \<Rightarrow> True | FB_LIVE_OUTPUT _ \<Rightarrow> True | _ \<Rightarrow> False)"

definition isMerging :: "FutureBucket \<Rightarrow> bool" where
  "isMerging fb \<longleftrightarrow> (case fb of FB_LIVE_INPUTS _ _ _ _ \<Rightarrow> True | _ \<Rightarrow> False)"

definition hasHashes :: "FutureBucket \<Rightarrow> bool" where
  "hasHashes fb \<longleftrightarrow> (case fb of FB_HASH_INPUTS _ _ _ \<Rightarrow> True | FB_HASH_OUTPUT _ \<Rightarrow> True | _ \<Rightarrow> False)"

definition resolve :: "FutureBucket \<Rightarrow> ledger_error + (Bucket \<times> FutureBucket)" where
  "resolve fb =
     (case fb of
        FB_LIVE_INPUTS currB snap shadows keepDeadEntries \<Rightarrow>
          bindR (merge currB snap shadows keepDeadEntries) (\<lambda>b. Inr (b, FB_LIVE_OUTPUT b))
      | FB_LIVE_OUTPUT b \<Rightarrow> Inr (b, FB_LIVE_OUTPUT b)
      | _ \<Rightarrow> Inl AssertFailed)"

text \<open>What \<^verbatim>\<open>save\<close> writes and \<^verbatim>\<open>load\<close> reads back: the hashes of the inputs or of the output.\<close>

definition saveFuture :: "(Bucket \<Rightarrow> BucketHash) \<Rightarrow> FutureBucket \<Rightarrow> FutureBucket" where
  "saveFuture getHash fb =
     (case fb of
        FB_LIVE_INPUTS currB snap shadows _ \<Rightarrow> FB_HASH_INPUTS (getHash currB) (getHash snap) (map getHash shadows)
      | FB_LIVE_OUTPUT b \<Rightarrow> FB_HASH_OUTPUT (getHash b)
      | _ \<Rightarrow> fb)"

fun findBuckets :: "(BucketHash \<Rightarrow> Bucket option) \<Rightarrow> BucketHash list \<Rightarrow> ledger_error + Bucket list" where
  "findBuckets getBucketByHash [] = Inr []"
| "findBuckets getBucketByHash (h # hs) =
     (case getBucketByHash h of
        None \<Rightarrow> Inl AssertFailed
      | Some b \<Rightarrow> bindR (findBuckets getBucketByHash hs) (\<lambda>bs. Inr (b # bs)))"

definition makeLive :: "(BucketHash \<Rightarrow> Bucket option) \<Rightarrow> bool \<Rightarrow> FutureBucket \<Rightarrow> ledger_error + FutureBucket" where
  "makeLive getBucketByHash keepDeadEntries fb =
     (case fb of
        FB_HASH_OUTPUT h \<Rightarrow>
          (case getBucketByHash h of None \<Rightarrow> Inl NullPointer | Some b \<Rightarrow> Inr (FB_LIVE_OUTPUT b))
      | FB_HASH_INPUTS hc hs hsh \<Rightarrow>
          bindR (findBuckets getBucketByHash hsh) (\<lambda>shadows.
          case (getBucketByHash hc, getBucketByHash hs) of
            (Some currB, Some snap) \<Rightarrow> Inr (FB_LIVE_INPUTS currB snap shadows keepDeadEntries)
          | _ \<Rightarrow> Inl AssertFailed)
      | _ \<Rightarrow> Inl AssertFailed)"

section \<open>Levels\<close>

definition kNumLevels :: nat where
  "kNumLevels = 11"

definition levelSize :: "nat \<Rightarrow> ledger_error + u32" where
  "levelSize level = bindR (assertL (level < kNumLevels)) (\<lambda>_. Inr (push_bit (2 * (level + 1)) 1))"

definition levelHalf :: "nat \<Rightarrow> ledger_error + u32" where
  "levelHalf level = bindR (levelSize level) (\<lambda>size. Inr (drop_bit 1 size))"

definition maskLedger :: "u32 \<Rightarrow> u32 \<Rightarrow> u32" where
  "maskLedger v m = v AND NOT (m - 1)"

definition levelShouldSpill :: "u32 \<Rightarrow> nat \<Rightarrow> ledger_error + bool" where
  "levelShouldSpill ledger level =
     (if level = kNumLevels - 1 then Inr False
      else bindR (levelHalf level) (\<lambda>half.
        if ledger = maskLedger ledger half then Inr True
        else bindR (levelSize level) (\<lambda>size. Inr (ledger = maskLedger ledger size))))"

definition keepDeadEntries :: "nat \<Rightarrow> bool" where
  "keepDeadEntries level \<longleftrightarrow> level < kNumLevels - 1"

record BucketLevel =
  mLevel :: nat
  mNextCurr :: FutureBucket
  mCurr :: Bucket
  mSnap :: Bucket

definition newBucketLevel :: "nat \<Rightarrow> BucketLevel" where
  "newBucketLevel i = \<lparr>mLevel = i, mNextCurr = FB_CLEAR, mCurr = [], mSnap = []\<rparr>"

definition setCurr :: "Bucket \<Rightarrow> BucketLevel \<Rightarrow> BucketLevel" where
  "setCurr b l = l\<lparr>mNextCurr := FB_CLEAR, mCurr := b\<rparr>"

definition level_commit :: "BucketLevel \<Rightarrow> ledger_error + BucketLevel" where
  "level_commit l =
     bindR (if isLive (mNextCurr l)
            then bindR (resolve (mNextCurr l)) (\<lambda>(b, fb). Inr (setCurr b (l\<lparr>mNextCurr := fb\<rparr>)))
            else Inr l) (\<lambda>l1.
     bindR (assertL (\<not> isMerging (mNextCurr l1))) (\<lambda>_. Inr l1))"

definition level_prepare :: "u32 \<Rightarrow> Bucket \<Rightarrow> Bucket list \<Rightarrow> BucketLevel \<Rightarrow> ledger_error + BucketLevel" where
  "level_prepare currLedger snap shadows l =
     bindR (assertL (\<not> isMerging (mNextCurr l))) (\<lambda>_.
     bindR (if mLevel l \<noteq> 0
            then bindR (levelHalf (mLevel l - 1)) (\<lambda>half.
                 let nextChangeLedger = currLedger + half in
                 bindR (levelShouldSpill nextChangeLedger (mLevel l)) (\<lambda>spill.
                 Inr (if spill then [] else mCurr l)))
            else Inr (mCurr l)) (\<lambda>currB.
     let l1 = l\<lparr>mNextCurr := newFutureBucket currB snap shadows (keepDeadEntries (mLevel l))\<rparr> in
     bindR (assertL (isMerging (mNextCurr l1))) (\<lambda>_. Inr l1)))"

definition level_snap :: "BucketLevel \<Rightarrow> BucketLevel" where
  "level_snap l = l\<lparr>mSnap := mCurr l, mCurr := []\<rparr>"

section \<open>The list\<close>

definition newBucketList :: "BucketLevel list" where
  "newBucketList = map newBucketLevel [0..<kNumLevels]"

text \<open>The loop of \<^verbatim>\<open>addBatch\<close> from level \<open>i\<close> down to level 1, with the shadows that are left.\<close>

fun spillLoop :: "u32 \<Rightarrow> nat \<Rightarrow> Bucket list \<Rightarrow> BucketLevel list \<Rightarrow> ledger_error + (Bucket list \<times> BucketLevel list)" where
  "spillLoop currLedger 0 shadows levels = Inr (shadows, levels)"
| "spillLoop currLedger (Suc j) shadows levels =
     bindR (assertL (2 \<le> length shadows)) (\<lambda>_.
     let shadows1 = butlast (butlast shadows) in
     bindR (levelShouldSpill currLedger j) (\<lambda>spill.
     if spill
     then let levels1 = levels[j := level_snap (levels ! j)];
              snap = mSnap (levels1 ! j) in
          bindR (level_commit (levels1 ! Suc j)) (\<lambda>l1.
          bindR (level_prepare currLedger snap shadows1 l1) (\<lambda>l2.
          spillLoop currLedger j shadows1 (levels1[Suc j := l2])))
     else spillLoop currLedger j shadows1 levels))"

definition levelBuckets :: "BucketLevel list \<Rightarrow> Bucket list" where
  "levelBuckets levels = concat (map (\<lambda>l. [mCurr l, mSnap l]) levels)"

definition addBatch ::
  "u32 \<Rightarrow> LedgerEntry list \<Rightarrow> LedgerKey list \<Rightarrow> BucketLevel list \<Rightarrow> ledger_error + BucketLevel list" where
  "addBatch currLedger liveEntries deadEntries levels =
     bindR (assertL (currLedger > 0)) (\<lambda>_.
     let shadows = levelBuckets levels in
     bindR (assertL (2 \<le> length shadows)) (\<lambda>_.
     bindR (spillLoop currLedger (length levels - 1) (butlast (butlast shadows)) levels) (\<lambda>(shadows1, levels1).
     bindR (assertL (length shadows1 = 0)) (\<lambda>_.
     bindR (fresh liveEntries deadEntries) (\<lambda>snap.
     bindR (level_prepare currLedger snap shadows1 (levels1 ! 0)) (\<lambda>l1.
     bindR (level_commit l1) (\<lambda>l2. Inr (levels1[0 := l2]))))))))"

fun restartFrom ::
  "(BucketHash \<Rightarrow> Bucket option) \<Rightarrow> nat \<Rightarrow> BucketLevel list \<Rightarrow> ledger_error + BucketLevel list" where
  "restartFrom getBucketByHash i [] = Inr []"
| "restartFrom getBucketByHash i (l # ls) =
     bindR (if hasHashes (mNextCurr l) \<and> \<not> isLive (mNextCurr l)
            then bindR (makeLive getBucketByHash (keepDeadEntries i) (mNextCurr l)) (\<lambda>fb.
                 Inr (l\<lparr>mNextCurr := fb\<rparr>))
            else Inr l) (\<lambda>l1.
     bindR (restartFrom getBucketByHash (i + 1) ls) (\<lambda>ls1. Inr (l1 # ls1)))"

definition restartMerges :: "(BucketHash \<Rightarrow> Bucket option) \<Rightarrow> BucketLevel list \<Rightarrow> ledger_error + BucketLevel list" where
  "restartMerges getBucketByHash levels = restartFrom getBucketByHash 0 levels"

section \<open>Saving and restoring\<close>

text \<open>The description of a bucket list by hashes (\<^verbatim>\<open>history/HistoryArchive.cpp\<close>), which is kept in the database
  and published, and its inverse (\<^verbatim>\<open>bucket/BucketManagerImpl.cpp\<close>). \<open>getHash\<close> is the hash of a bucket and
  \<open>getBucketByHash\<close> the store of bucket files.\<close>

record HistoryStateBucket =
  hs_curr :: BucketHash
  hs_next :: FutureBucket
  hs_snap :: BucketHash

definition archiveState :: "(Bucket \<Rightarrow> BucketHash) \<Rightarrow> BucketLevel list \<Rightarrow> HistoryStateBucket list" where
  "archiveState getHash levels =
     map (\<lambda>l. \<lparr>hs_curr = getHash (mCurr l), hs_next = mNextCurr l, hs_snap = getHash (mSnap l)\<rparr>) levels"

definition saveState :: "(Bucket \<Rightarrow> BucketHash) \<Rightarrow> HistoryStateBucket list \<Rightarrow> HistoryStateBucket list" where
  "saveState getHash has = map (\<lambda>b. b\<lparr>hs_next := saveFuture getHash (hs_next b)\<rparr>) has"

fun assumeLevels ::
  "(BucketHash \<Rightarrow> Bucket option) \<Rightarrow> HistoryStateBucket list \<Rightarrow> BucketLevel list \<Rightarrow> ledger_error + BucketLevel list" where
  "assumeLevels getBucketByHash has [] = Inr []"
| "assumeLevels getBucketByHash [] (l # ls) = Inl (RuntimeThrow ''vector::_M_range_check'')"
| "assumeLevels getBucketByHash (h # has) (l # ls) =
     (case (getBucketByHash (hs_curr h), getBucketByHash (hs_snap h)) of
        (Some c, Some s) \<Rightarrow>
          bindR (assumeLevels getBucketByHash has ls) (\<lambda>ls1.
          Inr ((setCurr c l)\<lparr>mSnap := s, mNextCurr := hs_next h\<rparr> # ls1))
      | _ \<Rightarrow> Inl (RuntimeThrow ''Missing bucket files while assuming saved BucketList state''))"

definition assumeState ::
  "(BucketHash \<Rightarrow> Bucket option) \<Rightarrow> HistoryStateBucket list \<Rightarrow> BucketLevel list \<Rightarrow> ledger_error + BucketLevel list" where
  "assumeState getBucketByHash has levels =
     bindR (assumeLevels getBucketByHash has levels) (restartMerges getBucketByHash)"

section \<open>When levels spill\<close>

definition spills :: "nat \<Rightarrow> nat \<Rightarrow> bool" where
  "spills L j \<longleftrightarrow> j < 10 \<and> 2 ^ (2 * j + 1) dvd L"

lemma mask_dvd: "w = w AND NOT (2 ^ n - 1) \<longleftrightarrow> 2 ^ n dvd unat (w :: u32)"
proof -
  have "w = w AND NOT (mask n) \<longleftrightarrow> take_bit n w = 0"
    by (auto simp: bit_eq_iff bit_simps)
  also have "\<dots> \<longleftrightarrow> take_bit n (unat w) = 0"
    by (metis unsigned_take_bit_eq unsigned_0 unat_eq_zero)
  finally show ?thesis by (simp add: mask_eq_exp_minus_1 take_bit_eq_mod dvd_eq_mod_eq_0)
qed

lemma level_numbers:
  assumes "j < 11"
  shows "levelSize j = Inr (2 ^ (2 * j + 2))" "levelHalf j = Inr (2 ^ (2 * j + 1))"
proof -
  show s: "levelSize j = Inr (2 ^ (2 * j + 2))"
    using assms by (simp add: levelSize_def kNumLevels_def push_bit_eq_mult)
  have "j \<in> {0..<11}" using assms by simp
  then have "drop_bit 1 (2 ^ (2 * j + 2) :: u32) = 2 ^ (2 * j + 1)"
    by (simp add: atLeastLessThan_nat_numeral) (auto simp: drop_bit_eq_div)
  then show "levelHalf j = Inr (2 ^ (2 * j + 1))" by (simp add: levelHalf_def s)
qed

lemma levelShouldSpill_spills: "j < 11 \<Longrightarrow> levelShouldSpill w j = Inr (spills (unat w) j)"
  using mask_dvd [of w "2 * j + 1"] mask_dvd [of w "2 * j + 2"]
  by (auto simp: levelShouldSpill_def spills_def kNumLevels_def level_numbers maskLedger_def intro: dvd_trans)

lemma spills_Suc: "spills L (Suc j) \<Longrightarrow> spills L j"
  by (auto simp: spills_def intro: dvd_trans [OF le_imp_power_dvd])

lemma spills_word:
  assumes "j < 11"
  shows "spills (unat (w + 2 ^ (2 * j + 1) :: u32)) k \<longleftrightarrow> spills (unat w + 2 ^ (2 * j + 1)) k"
proof -
  have w: "w + 2 ^ (2 * j + 1) = word_of_nat (unat w + 2 ^ (2 * j + 1))" by (simp add: of_nat_unat)
  have u: "unat (w + 2 ^ (2 * j + 1) :: u32) = (unat w + 2 ^ (2 * j + 1)) mod 2 ^ 32"
    by (subst w) (simp only: unat_of_nat, simp)
  have "2 ^ (2 * k + 1) dvd (x mod 2 ^ 32) \<longleftrightarrow> 2 ^ (2 * k + 1) dvd x" if "k < 10" for x :: nat
    using that by (intro dvd_mod_iff le_imp_power_dvd) simp
  then show ?thesis unfolding spills_def u by blast
qed

section \<open>The state between ledgers\<close>

text \<open>The keys of the buckets that are newer than the bucket that spills into level \<open>i\<close>.\<close>

definition newerKeys :: "BucketLevel list \<Rightarrow> nat \<Rightarrow> LedgerKey set" where
  "newerKeys levels i =
     (\<Union>j < i - 1. bucketKeys (mCurr (levels ! j)) \<union> bucketKeys (mSnap (levels ! j))) \<union> bucketKeys (mCurr (levels ! (i - 1)))"

text \<open>The next ledger after \<open>n\<close> at which level \<open>i\<close> commits.\<close>

definition nextChange :: "nat \<Rightarrow> nat \<Rightarrow> nat" where
  "nextChange n i = (n div 2 ^ (2 * i - 1) + 1) * 2 ^ (2 * i - 1)"

definition pending_ok :: "nat \<Rightarrow> BucketLevel list \<Rightarrow> nat \<Rightarrow> bool" where
  "pending_ok n levels i \<longleftrightarrow>
     (case mNextCurr (levels ! i) of
        FB_CLEAR \<Rightarrow> mSnap (levels ! (i - 1)) = []
      | FB_LIVE_INPUTS c s shadows keep \<Rightarrow>
          s = mSnap (levels ! (i - 1)) \<and> c = (if spills (nextChange n i) i then [] else mCurr (levels ! i)) \<and>
          keep = (i < 10) \<and> (\<forall>b \<in> set shadows. bucket_ok b \<and> bucketKeys b \<subseteq> newerKeys levels i)
      | _ \<Rightarrow> False)"

definition bucketList_ok :: "nat \<Rightarrow> BucketLevel list \<Rightarrow> bool" where
  "bucketList_ok n levels \<longleftrightarrow>
     length levels = 11 \<and>
     (\<forall>j < 11. mLevel (levels ! j) = j \<and> bucket_ok (mCurr (levels ! j)) \<and> bucket_ok (mSnap (levels ! j))) \<and>
     mNextCurr (levels ! 0) = FB_CLEAR \<and> mSnap (levels ! 10) = [] \<and>
     (\<forall>i. 1 \<le> i \<and> i < 11 \<longrightarrow> pending_ok n levels i)"

lemma newBucketList_nth: "j < 11 \<Longrightarrow> newBucketList ! j = newBucketLevel j"
  by (simp add: newBucketList_def kNumLevels_def)

lemma newBucketList_ok: "bucketList_ok 0 newBucketList"
  by (auto simp: bucketList_ok_def newBucketList_nth newBucketLevel_def pending_ok_def)
    (simp add: newBucketList_def kNumLevels_def)

lemma nextChange_step:
  assumes "1 \<le> i"
  shows "nextChange (n + 1) i = (if 2 ^ (2 * i - 1) dvd n + 1 then n + 1 + 2 ^ (2 * i - 1) else nextChange n i)"
    and "2 ^ (2 * i - 1) dvd n + 1 \<Longrightarrow> nextChange n i = n + 1"
proof -
  define h :: nat where "h = 2 ^ (2 * i - 1)"
  have h: "0 < h" by (simp add: h_def)
  show "nextChange n i = n + 1" if d: "2 ^ (2 * i - 1) dvd n + 1"
  proof -
    obtain q where q: "n + 1 = h * q" using d unfolding h_def by (elim dvdE)
    then have "0 < q" using h by (cases q) auto
    then have "n div h = q - 1" using q h by (intro div_nat_eqI) (auto simp: algebra_simps)
    then show ?thesis unfolding nextChange_def h_def [symmetric] using q \<open>0 < q\<close> by (simp add: mult.commute)
  qed
  show "nextChange (n + 1) i = (if 2 ^ (2 * i - 1) dvd n + 1 then n + 1 + 2 ^ (2 * i - 1) else nextChange n i)"
  proof (cases "h dvd n + 1")
    case True
    then have "(n + 1) div h * h = n + 1" by simp
    then show ?thesis using True unfolding nextChange_def h_def [symmetric] add_mult_distrib by simp
  next
    case False
    then have "(n + 1) div h = n div h" by (simp add: div_Suc dvd_eq_mod_eq_0)
    then show ?thesis using False unfolding nextChange_def h_def [symmetric] by simp
  qed
qed

section \<open>One ledger in closed form\<close>

text \<open>The bucket that a commit of level \<open>i\<close> at ledger \<open>L\<close> installs.\<close>

definition committed :: "nat \<Rightarrow> BucketLevel list \<Rightarrow> nat \<Rightarrow> Bucket" where
  "committed L levels i =
     (case mNextCurr (levels ! i) of
        FB_LIVE_INPUTS c s shadows keep \<Rightarrow> mergedBucket c s shadows keep
      | _ \<Rightarrow> if spills L i then [] else mCurr (levels ! i))"

definition snapped :: "nat \<Rightarrow> BucketLevel list \<Rightarrow> nat \<Rightarrow> BucketLevel" where
  "snapped L levels j = (if spills L j then level_snap (levels ! j) else levels ! j)"

text \<open>Level \<open>j\<close> after the loop.\<close>

definition spilled :: "nat \<Rightarrow> BucketLevel list \<Rightarrow> nat \<Rightarrow> BucketLevel" where
  "spilled L levels j =
     (if 1 \<le> j \<and> spills L (j - 1)
      then (snapped L levels j)\<lparr>mCurr := committed L levels j,
        mNextCurr := FB_LIVE_INPUTS (if spills (L + 2 ^ (2 * j - 1)) j then [] else committed L levels j)
          (mCurr (levels ! (j - 1))) (take (2 * (j - 1)) (levelBuckets levels)) (j < 10)\<rparr>
      else snapped L levels j)"

lemma snapped_simps [simp]:
  "mLevel (snapped L levels j) = mLevel (levels ! j)" "mNextCurr (snapped L levels j) = mNextCurr (levels ! j)"
  "mCurr (snapped L levels j) = (if spills L j then [] else mCurr (levels ! j))"
  "mSnap (snapped L levels j) = (if spills L j then mCurr (levels ! j) else mSnap (levels ! j))"
  by (simp_all add: snapped_def level_snap_def)

lemma bucketList_okD:
  assumes "bucketList_ok n levels" "j < 11"
  shows "mLevel (levels ! j) = j" "bucket_ok (mCurr (levels ! j))" "bucket_ok (mSnap (levels ! j))" "length levels = 11"
    "1 \<le> j \<Longrightarrow> pending_ok n levels j"
  using assms by (simp_all add: bucketList_ok_def)

lemma commit_spilled:
  assumes ok: "bucketList_ok n levels" and j: "1 \<le> j" "j < 11"
  shows "level_commit (snapped L levels j) = Inr ((snapped L levels j)\<lparr>mNextCurr := FB_CLEAR, mCurr := committed L levels j\<rparr>)"
    and "bucket_ok (committed L levels j)"
proof -
  have p: "pending_ok n levels j" and s: "bucket_ok (mSnap (levels ! (j - 1)))" and c: "bucket_ok (mCurr (levels ! j))"
    using bucketList_okD [OF ok, of j] bucketList_okD [OF ok, of "j - 1"] j by auto
  have m: "merge c s sh k = Inr (mergedBucket c s sh k) \<and> bucket_ok (mergedBucket c s sh k)"
    if "mNextCurr (levels ! j) = FB_LIVE_INPUTS c s sh k" for c s sh k
    using that p \<open>bucket_ok (mSnap _)\<close> \<open>bucket_ok (mCurr _)\<close>
    by (auto simp: pending_ok_def merge_computes mergedBucket_ok)
  show "level_commit (snapped L levels j) = Inr ((snapped L levels j)\<lparr>mNextCurr := FB_CLEAR, mCurr := committed L levels j\<rparr>)"
    using p m by (auto simp: level_commit_def pending_ok_def committed_def isLive_def isMerging_def resolve_def setCurr_def
        split: FutureBucket.splits)
  show "bucket_ok (committed L levels j)"
    using p m c by (auto simp: committed_def pending_ok_def split: FutureBucket.splits)
qed

lemma prepare_spilled:
  assumes "mLevel l = j" "1 \<le> j" "j < 11" "mNextCurr l = FB_CLEAR"
  shows "level_prepare w snap shadows l =
    Inr (l\<lparr>mNextCurr := FB_LIVE_INPUTS (if spills (unat w + 2 ^ (2 * j - 1)) j then [] else mCurr l) snap shadows (j < 10)\<rparr>)"
proof -
  have e: "2 * (j - 1) + 1 = 2 * j - 1" using assms(2) by simp
  have half: "levelHalf (j - 1) = Inr (2 ^ (2 * j - 1))" using level_numbers(2) [of "j - 1"] assms(3) unfolding e by simp
  have "spills (unat (w + 2 ^ (2 * j - 1))) j = spills (unat w + 2 ^ (2 * j - 1)) j"
    using spills_word [of "j - 1" w j] assms(3) unfolding e by simp
  then have spill: "levelShouldSpill (w + 2 ^ (2 * j - 1)) j = Inr (spills (unat w + 2 ^ (2 * j - 1)) j)"
    using levelShouldSpill_spills [OF assms(3)] by simp
  show ?thesis
    using assms(2) unfolding level_prepare_def assms(1,4) half Let_def bindR_simps spill
    by (simp add: isMerging_def newFutureBucket_def keepDeadEntries_def kNumLevels_def)
qed

lemma length_levelBuckets [simp]: "length (levelBuckets levels) = 2 * length levels"
  by (induction levels) (simp_all add: levelBuckets_def)

lemma pop_shadows:
  assumes "j < length levels"
  shows "butlast (butlast (take (2 * Suc j) (levelBuckets levels))) = take (2 * j) (levelBuckets levels)"
  using assms by (simp add: butlast_take butlast_conv_take)

lemma spillLoop_closed:
  assumes ok: "bucketList_ok n levels" and i: "i \<le> 10"
    and lv: "length lv = 11" "lv ! i = snapped (unat w) levels i" "\<And>j. j < i \<Longrightarrow> lv ! j = levels ! j"
  shows "\<exists>lv'. spillLoop w i (take (2 * i) (levelBuckets levels)) lv = Inr ([], lv') \<and> length lv' = 11 \<and>
    (\<forall>j. i < j \<and> j < 11 \<longrightarrow> lv' ! j = lv ! j) \<and> (\<forall>j \<le> i. lv' ! j = spilled (unat w) levels j)"
  using i lv
proof (induction i arbitrary: lv)
  case 0
  then show ?case by (auto simp: spilled_def)
next
  case (Suc j)
  have len: "length levels = 11" using bucketList_okD(4) [OF ok, of 0] by simp
  have pop: "butlast (butlast (take (2 * Suc j) (levelBuckets levels))) = take (2 * j) (levelBuckets levels)"
    using pop_shadows [of j levels] len Suc.prems(1) by simp
  have two: "2 \<le> length (take (2 * Suc j) (levelBuckets levels))" using len Suc.prems(1) by simp
  have sp: "levelShouldSpill w j = Inr (spills (unat w) j)" using Suc.prems(1) by (simp add: levelShouldSpill_spills)
  show ?case
  proof (cases "spills (unat w) j")
    case True
    define lv1 where "lv1 = lv[j := level_snap (lv ! j)]"
    define lv2 where "lv2 = lv1[Suc j := spilled (unat w) levels (Suc j)]"
    have at: "lv1 ! j = level_snap (levels ! j)" "lv1 ! Suc j = snapped (unat w) levels (Suc j)"
      using Suc.prems by (simp_all add: lv1_def)
    have com: "level_commit (lv1 ! Suc j) = Inr ((snapped (unat w) levels (Suc j))
        \<lparr>mNextCurr := FB_CLEAR, mCurr := committed (unat w) levels (Suc j)\<rparr>)"
      unfolding at(2) using Suc.prems(1) by (intro commit_spilled(1) [OF ok]) auto
    have prep: "level_prepare w (mSnap (lv1 ! j)) (take (2 * j) (levelBuckets levels))
        ((snapped (unat w) levels (Suc j))\<lparr>mNextCurr := FB_CLEAR, mCurr := committed (unat w) levels (Suc j)\<rparr>)
      = Inr (spilled (unat w) levels (Suc j))"
      using Suc.prems(1) True bucketList_okD(1) [OF ok, of "Suc j"] unfolding at(1)
      by (subst prepare_spilled [where j = "Suc j"]) (simp_all add: spilled_def level_snap_def)
    have "spillLoop w (Suc j) (take (2 * Suc j) (levelBuckets levels)) lv = spillLoop w j (take (2 * j) (levelBuckets levels)) lv2"
      unfolding spillLoop.simps pop Let_def using two sp True
      by (simp add: lv1_def [symmetric] com prep lv2_def)
    moreover obtain lv' where "spillLoop w j (take (2 * j) (levelBuckets levels)) lv2 = Inr ([], lv')" "length lv' = 11"
        "\<forall>k. j < k \<and> k < 11 \<longrightarrow> lv' ! k = lv2 ! k" "\<forall>k \<le> j. lv' ! k = spilled (unat w) levels k"
      using Suc.IH [of lv2] Suc.prems True by (auto simp: lv2_def lv1_def snapped_def)
    ultimately show ?thesis using Suc.prems by (auto simp: lv2_def lv1_def le_Suc_eq)
  next
    case False
    have "spillLoop w (Suc j) (take (2 * Suc j) (levelBuckets levels)) lv = spillLoop w j (take (2 * j) (levelBuckets levels)) lv"
      unfolding spillLoop.simps pop Let_def using two sp False by simp
    moreover obtain lv' where "spillLoop w j (take (2 * j) (levelBuckets levels)) lv = Inr ([], lv')" "length lv' = 11"
        "\<forall>k. j < k \<and> k < 11 \<longrightarrow> lv' ! k = lv ! k" "\<forall>k \<le> j. lv' ! k = spilled (unat w) levels k"
      using Suc.IH [of lv] Suc.prems False by (auto simp: snapped_def)
    ultimately show ?thesis using Suc.prems False by (auto simp: le_Suc_eq spilled_def)
  qed
qed

text \<open>The list after a whole batch.\<close>

definition nextLevel :: "nat \<Rightarrow> Bucket \<Rightarrow> BucketLevel list \<Rightarrow> nat \<Rightarrow> BucketLevel" where
  "nextLevel L b levels j =
     (if j = 0 then (snapped L levels 0)\<lparr>mNextCurr := FB_CLEAR,
        mCurr := mergedBucket (mCurr (snapped L levels 0)) b [] True\<rparr>
      else spilled L levels j)"

lemma addBatch_closed:
  assumes ok: "bucketList_ok n levels" and w: "unat w = n + 1" and b: "batch_ok live dead"
  shows "addBatch w live dead levels =
    Inr (map (nextLevel (n + 1) (freshBucket live dead) levels) [0..<11])"
proof -
  have len: "length levels = 11" using bucketList_okD(4) [OF ok, of 0] by simp
  have pos: "0 < w" using w by (metis add_is_0 neq0_conv one_neq_zero unsigned_0 word_neq_0_conv)
  have last: "levels ! 10 = snapped (unat w) levels 10" by (simp add: snapped_def spills_def)
  obtain lv' where lv': "spillLoop w 10 (take 20 (levelBuckets levels)) levels = Inr ([], lv')" "length lv' = 11"
      "\<forall>j \<le> 10. lv' ! j = spilled (n + 1) levels j"
    using spillLoop_closed [OF ok, of 10 levels w] len last w by auto
  have pop: "butlast (butlast (levelBuckets levels)) = take 20 (levelBuckets levels)"
    using len by (simp add: butlast_conv_take)
  have first: "lv' ! 0 = snapped (n + 1) levels 0" using lv'(3) by (simp add: spilled_def)
  define f where "f = freshBucket live dead"
  have ok0: "bucket_ok (mCurr (snapped (n + 1) levels 0))" "mLevel (levels ! 0) = 0" "mNextCurr (levels ! 0) = FB_CLEAR"
    using bucketList_okD [OF ok, of 0] ok by (simp_all add: bucketList_ok_def)
  have prep: "level_prepare w f [] (lv' ! 0) =
      Inr ((lv' ! 0)\<lparr>mNextCurr := FB_LIVE_INPUTS (mCurr (lv' ! 0)) f [] True\<rparr>)"
    using ok0 by (simp add: level_prepare_def first isMerging_def newFutureBucket_def keepDeadEntries_def kNumLevels_def)
  have com: "level_commit ((lv' ! 0)\<lparr>mNextCurr := FB_LIVE_INPUTS (mCurr (lv' ! 0)) f [] True\<rparr>) =
      Inr (nextLevel (n + 1) f levels 0)"
    using merge_computes [OF ok0(1) freshBucket_ok [OF b], of "[]" True]
    by (simp add: level_commit_def isLive_def isMerging_def resolve_def setCurr_def first nextLevel_def f_def)
  have "lv'[0 := nextLevel (n + 1) f levels 0] = map (nextLevel (n + 1) f levels) [0..<11]"
    using lv'(2,3) by (intro nth_equalityI) (auto simp: nth_list_update nextLevel_def)
  then show ?thesis
    using len pos lv' prep com fresh_computes [OF b] by (simp add: addBatch_def pop f_def Let_def)
qed

section \<open>No entry is lost\<close>

lemma newerKeys_Suc:
  "1 \<le> i \<Longrightarrow> newerKeys levels (Suc i) =
    newerKeys levels i \<union> bucketKeys (mSnap (levels ! (i - 1))) \<union> bucketKeys (mCurr (levels ! i))"
  by (cases i) (auto simp: newerKeys_def lessThan_Suc)

lemma newerKeys_1 [simp]: "newerKeys levels (Suc 0) = bucketKeys (mCurr (levels ! 0))"
  by (simp add: newerKeys_def)

lemma spills_dvd: "1 \<le> i \<Longrightarrow> spills L (i - 1) \<longleftrightarrow> i < 11 \<and> 2 ^ (2 * i - 1) dvd L"
  by (cases i) (auto simp: spills_def)

text \<open>What a commit takes in: what was left in the level, overridden by what spills into it.\<close>

definition incoming :: "nat \<Rightarrow> BucketLevel list \<Rightarrow> nat \<Rightarrow> LedgerKey \<rightharpoonup> BucketEntry" where
  "incoming L levels i =
     (if spills L i then Map.empty else bucketMap (mCurr (levels ! i))) ++ bucketMap (mSnap (levels ! (i - 1)))"

lemma committed_incoming:
  assumes ok: "bucketList_ok n levels" and i: "1 \<le> i" "spills (n + 1) (i - 1)" and k: "k \<notin> newerKeys levels i"
  shows "bucketMap (committed (n + 1) levels i) k = incoming (n + 1) levels i k \<or>
    i = 10 \<and> bucketMap (committed (n + 1) levels i) k = None \<and> (\<exists>e. incoming (n + 1) levels i k = Some e \<and> isDead e)"
proof -
  have i11: "i < 11" and d: "2 ^ (2 * i - 1) dvd n + 1" using i spills_dvd by blast+
  have nc: "nextChange n i = n + 1" using nextChange_step(2) [OF i(1) d] .
  have p: "pending_ok n levels i" and okc: "bucket_ok (mCurr (levels ! i))" "bucket_ok (mSnap (levels ! (i - 1)))"
    using bucketList_okD [OF ok, of i] bucketList_okD [OF ok, of "i - 1"] i11 i(1) by auto
  show ?thesis
  proof (cases "mNextCurr (levels ! i)")
    case (FB_LIVE_INPUTS c s shadows keep)
    then have eq: "s = mSnap (levels ! (i - 1))" "c = (if spills (n + 1) i then [] else mCurr (levels ! i))" "keep = (i < 10)"
      and sh: "\<forall>b \<in> set shadows. bucketKeys b \<subseteq> newerKeys levels i" using p by (simp_all add: pending_ok_def nc)
    have inc: "incoming (n + 1) levels i = bucketMap c ++ bucketMap s" by (simp add: incoming_def eq)
    have "\<not> shadowed shadows k" using sh k by (auto simp: shadowed_def)
    moreover have "bucket_ok c" "bucket_ok s" using okc eq by auto
    ultimately have "bucketMap (committed (n + 1) levels i) k =
        (case incoming (n + 1) levels i k of Some e \<Rightarrow> if keep \<or> \<not> isDead e then Some e else None | None \<Rightarrow> None)"
      unfolding inc by (simp add: committed_def FB_LIVE_INPUTS mergedBucket_map)
    then show ?thesis using eq(3) i11 by (auto split: option.splits)
  qed (use p in \<open>simp_all add: pending_ok_def committed_def incoming_def\<close>)
qed

lemma committed_keys:
  assumes "bucketList_ok n levels" "1 \<le> i" "i < 10" "spills (n + 1) (i - 1)"
  shows "dom (incoming (n + 1) levels i) \<subseteq> newerKeys levels i \<union> bucketKeys (committed (n + 1) levels i)"
proof
  fix k
  assume k: "k \<in> dom (incoming (n + 1) levels i)"
  then show "k \<in> newerKeys levels i \<union> bucketKeys (committed (n + 1) levels i)"
    using committed_incoming [OF assms(1,2,4), of k] assms(3) bucketMap_None [of "committed (n + 1) levels i" k]
    by (cases "k \<in> newerKeys levels i") auto
qed

definition ledgerOf :: "BucketLevel list \<Rightarrow> LedgerKey \<rightharpoonup> LedgerEntry" where
  "ledgerOf levels =
     foldr (\<lambda>l ls. overlay (bucketMap (mCurr l)) (overlay (bucketMap (mSnap l)) ls)) levels Map.empty"

lemma ledgerOf_drop:
  "i < length levels \<Longrightarrow> ledgerOf (drop i levels) =
    overlay (bucketMap (mCurr (levels ! i))) (overlay (bucketMap (mSnap (levels ! i))) (ledgerOf (drop (Suc i) levels)))"
  by (subst Cons_nth_drop_Suc [symmetric]) (simp_all add: ledgerOf_def)

abbreviation nextLevels :: "nat \<Rightarrow> Bucket \<Rightarrow> BucketLevel list \<Rightarrow> BucketLevel list" where
  "nextLevels L b levels \<equiv> map (nextLevel L b levels) [0..<11]"

lemma nextLevels_nth: "j < 11 \<Longrightarrow> nextLevels L b levels ! j = nextLevel L b levels j"
  by simp

lemma spills_le: "spills L j \<Longrightarrow> i \<le> j \<Longrightarrow> spills L i"
  by (induction j) (auto simp: le_Suc_eq dest: spills_Suc)

lemma unspilled_drop:
  assumes "length levels = 11" "\<not> spills L i"
  shows "drop (Suc i) (nextLevels L b levels) = drop (Suc i) levels"
proof (rule nth_equalityI)
  fix j
  assume "j < length (drop (Suc i) (nextLevels L b levels))"
  then have j: "Suc i + j < 11" by simp
  have "\<not> spills L (Suc i + j)" "\<not> spills L (i + j)" using assms(2) spills_le by (meson le_add1 le_add_same_cancel1 order_trans add_leD1 Suc_leD)+
  then show "drop (Suc i) (nextLevels L b levels) ! j = drop (Suc i) levels ! j"
    using j assms(1) by (simp add: nextLevel_def spilled_def snapped_def)
qed (use assms in simp)

lemma overlay_cong: "m k = m' k \<Longrightarrow> (m k = None \<Longrightarrow> ls k = ls' k) \<Longrightarrow> overlay m ls k = overlay m' ls' k"
  by (auto simp: overlay_def split: option.splits)

text \<open>From the oldest level up: where nothing newer hides a key, the levels from \<open>i\<close> on hold after the loop
  what they held before together with the bucket that spilled into level \<open>i\<close>.\<close>

lemma older_levels_kept:
  assumes ok: "bucketList_ok n levels" and i: "1 \<le> i" "spills (n + 1) (i - 1)" and k: "k \<notin> newerKeys levels i"
  shows "ledgerOf (drop i (nextLevels (n + 1) b levels)) k =
    overlay (bucketMap (mSnap (levels ! (i - 1)))) (ledgerOf (drop i levels)) k"
  using i k
proof (induction "11 - i" arbitrary: i rule: less_induct)
  case less
  note i = less.prems(1,2) and k = less.prems(3)
  let ?L = "n + 1" and ?lv = "nextLevels (n + 1) b levels"
  let ?X = "ledgerOf (drop (Suc i) levels)" and ?X' = "ledgerOf (drop (Suc i) ?lv)"
  have i11: "i < 11" using i spills_dvd by blast
  have len: "length levels = 11" using bucketList_okD(4) [OF ok i11] .
  have new: "ledgerOf (drop i ?lv) = overlay (bucketMap (committed ?L levels i))
      (overlay (bucketMap (if spills ?L i then mCurr (levels ! i) else mSnap (levels ! i))) ?X')"
    using i i11 by (subst ledgerOf_drop) (simp_all add: nextLevel_def spilled_def)
  have old: "ledgerOf (drop i levels) = overlay (bucketMap (mCurr (levels ! i))) (overlay (bucketMap (mSnap (levels ! i))) ?X)"
    using len i11 by (simp add: ledgerOf_drop)
  note inc = committed_incoming [OF ok i k]
  show ?case
  proof (cases "spills ?L i")
    case True
    then have i10: "i < 10" by (simp add: spills_def)
    have IH: "?X' k = overlay (bucketMap (mSnap (levels ! i))) ?X k" if "k \<notin> newerKeys levels (Suc i)"
      using less.hyps [of "Suc i"] True i11 that by simp
    have same: "bucketMap (committed ?L levels i) k = bucketMap (mSnap (levels ! (i - 1))) k"
      using inc True i10 by (auto simp: incoming_def)
    have "?X' k = overlay (bucketMap (mSnap (levels ! i))) ?X k"
      if "bucketMap (mSnap (levels ! (i - 1))) k = None" "bucketMap (mCurr (levels ! i)) k = None"
      using IH that k i by (simp add: newerKeys_Suc bucketMap_None)
    then show ?thesis unfolding new old using True same by (auto intro!: overlay_cong)
  next
    case False
    then have X: "?X' = ?X" using unspilled_drop [OF len] by simp
    have old': "overlay (bucketMap (mSnap (levels ! (i - 1)))) (ledgerOf (drop i levels)) =
        overlay (incoming ?L levels i) (overlay (bucketMap (mSnap (levels ! i))) ?X)"
      unfolding old using False by (simp add: incoming_def overlay_add)
    have top: "overlay (bucketMap (mSnap (levels ! i))) ?X k = None" if "i = 10"
      using that ok len by (simp add: bucketList_ok_def ledgerOf_def)
    show ?thesis (is ?goal) using inc
    proof
      assume "bucketMap (committed ?L levels i) k = incoming ?L levels i k"
      then show ?goal unfolding new old' X using False by (auto intro: overlay_cong)
    next
      assume a: "i = 10 \<and> bucketMap (committed ?L levels i) k = None \<and> (\<exists>e. incoming ?L levels i k = Some e \<and> isDead e)"
      then obtain d where "incoming ?L levels i k = Some (DEADENTRY d)" by (metis isDead.elims(2))
      then show ?goal unfolding new old' X using False conjunct1 [OF a] conjunct1 [OF conjunct2 [OF a]] top
        by (simp add: overlay_def)
    qed
  qed
qed

lemma nextLevel_fields:
  "mCurr (nextLevel L b levels 0) = mergedBucket (if spills L 0 then [] else mCurr (levels ! 0)) b [] True"
  "1 \<le> j \<Longrightarrow> mCurr (nextLevel L b levels j) = (if spills L (j - 1) then committed L levels j else mCurr (levels ! j))"
  "mSnap (nextLevel L b levels j) = (if spills L j then mCurr (levels ! j) else mSnap (levels ! j))"
  "mLevel (nextLevel L b levels j) = mLevel (levels ! j)"
  using spills_Suc [of L "j - 1"] by (cases "j = 0"; auto simp: nextLevel_def spilled_def)+

lemma ledgerOf_nextLevels:
  assumes ok: "bucketList_ok n levels" and b: "bucket_ok b"
  shows "ledgerOf (nextLevels (n + 1) b levels) = overlay (bucketMap b) (ledgerOf levels)"
proof -
  let ?lv = "nextLevels (n + 1) b levels"
  have len: "length levels = 11" and c0: "bucket_ok (mCurr (levels ! 0))" using bucketList_okD [OF ok, of 0] by auto
  have m: "bucketMap (mergedBucket c b [] True) = bucketMap c ++ bucketMap b" if "bucket_ok c" for c
  proof
    fix k
    show "bucketMap (mergedBucket c b [] True) k = (bucketMap c ++ bucketMap b) k"
      using mergedBucket_map [OF that b, of "[]" True k]
      by (cases "(bucketMap c ++ bucketMap b) k") (simp_all del: map_add_None)
  qed
  have rest: "overlay (bucketMap (mCurr (levels ! 0))) (ledgerOf (drop (Suc 0) ?lv)) =
      overlay (bucketMap (mCurr (levels ! 0))) (overlay (bucketMap (mSnap (levels ! 0))) (ledgerOf (drop (Suc 0) levels)))"
    if "spills (n + 1) 0"
    using older_levels_kept [OF ok, of 1 _ b] that
    by (intro ext overlay_cong) (auto simp: bucketMap_None)
  have new: "ledgerOf ?lv = overlay (bucketMap (mCurr (?lv ! 0))) (overlay (bucketMap (mSnap (?lv ! 0))) (ledgerOf (drop (Suc 0) ?lv)))"
    using ledgerOf_drop [of 0 ?lv] by simp
  have old: "ledgerOf levels = overlay (bucketMap (mCurr (levels ! 0)))
      (overlay (bucketMap (mSnap (levels ! 0))) (ledgerOf (drop (Suc 0) levels)))"
    using ledgerOf_drop [of 0 levels] len by simp
  show ?thesis
  proof (cases "spills (n + 1) 0")
    case True
    then show ?thesis unfolding new old using m [of "[]"] rest by (simp add: nextLevel_fields overlay_add)
  next
    case False
    then show ?thesis unfolding new old using m [OF c0] unspilled_drop [OF len, of "n + 1" 0 b]
      by (simp add: nextLevel_fields overlay_add)
  qed
qed

section \<open>The invariant is kept\<close>

definition keysBelow :: "BucketLevel list \<Rightarrow> nat \<Rightarrow> LedgerKey set" where
  "keysBelow levels i = (\<Union>j < i. bucketKeys (mCurr (levels ! j)) \<union> bucketKeys (mSnap (levels ! j)))"

lemma keysBelow_simps [simp]:
  "keysBelow levels 0 = {}"
  "keysBelow levels (Suc i) = keysBelow levels i \<union> bucketKeys (mCurr (levels ! i)) \<union> bucketKeys (mSnap (levels ! i))"
  by (auto simp: keysBelow_def lessThan_Suc)

lemma newerKeys_below: "newerKeys levels (Suc i) = keysBelow levels i \<union> bucketKeys (mCurr (levels ! i))"
  by (simp add: newerKeys_def keysBelow_def)

lemma committed_takes:
  assumes "bucketList_ok n levels" "Suc i < 10" "spills (n + 1) i"
  shows "bucketKeys (mSnap (levels ! i)) \<subseteq> newerKeys levels (Suc i) \<union> bucketKeys (committed (n + 1) levels (Suc i))"
    and "\<not> spills (n + 1) (Suc i) \<Longrightarrow>
      bucketKeys (mCurr (levels ! Suc i)) \<subseteq> newerKeys levels (Suc i) \<union> bucketKeys (committed (n + 1) levels (Suc i))"
proof -
  have d: "dom (incoming (n + 1) levels (Suc i)) \<subseteq> newerKeys levels (Suc i) \<union> bucketKeys (committed (n + 1) levels (Suc i))"
    using committed_keys [OF assms(1), of "Suc i"] assms by simp
  have "bucketKeys (mSnap (levels ! i)) \<subseteq> dom (incoming (n + 1) levels (Suc i))"
    "\<not> spills (n + 1) (Suc i) \<Longrightarrow> bucketKeys (mCurr (levels ! Suc i)) \<subseteq> dom (incoming (n + 1) levels (Suc i))"
    by (simp_all add: incoming_def)
  then show "bucketKeys (mSnap (levels ! i)) \<subseteq> newerKeys levels (Suc i) \<union> bucketKeys (committed (n + 1) levels (Suc i))"
    "\<not> spills (n + 1) (Suc i) \<Longrightarrow>
      bucketKeys (mCurr (levels ! Suc i)) \<subseteq> newerKeys levels (Suc i) \<union> bucketKeys (committed (n + 1) levels (Suc i))"
    using d by blast+
qed

lemma newer_kept_below:
  assumes ok: "bucketList_ok n levels" and i: "spills (n + 1) i"
  shows "newerKeys levels (Suc i) \<subseteq> keysBelow (nextLevels (n + 1) b levels) (Suc i)"
  using i
proof (induction i)
  case 0
  then show ?case by (auto simp: nextLevel_fields)
next
  case (Suc i)
  have i10: "Suc i < 10" using Suc.prems by (simp add: spills_def)
  have sp: "spills (n + 1) i" using Suc.prems by (rule spills_Suc)
  let ?B = "keysBelow (nextLevels (n + 1) b levels)"
  have "?B (Suc (Suc i)) = ?B (Suc i) \<union> bucketKeys (committed (n + 1) levels (Suc i)) \<union> bucketKeys (mCurr (levels ! Suc i))"
    using Suc.prems sp i10 by (simp add: nextLevel_fields del: keysBelow_simps) (simp add: nextLevel_fields)
  then show ?case using Suc.IH [OF sp] committed_takes(1) [OF ok i10 sp] newerKeys_Suc [of "Suc i" levels] by auto
qed

lemma shadows_kept:
  assumes ok: "bucketList_ok n levels" and i: "spills (n + 1) i"
  shows "keysBelow levels i \<subseteq> newerKeys (nextLevels (n + 1) b levels) (Suc i)"
proof (cases i)
  case (Suc m)
  have m10: "Suc m < 10" using i Suc by (simp add: spills_def)
  have sp: "spills (n + 1) m" using i Suc by (simp add: spills_Suc)
  have "keysBelow levels (Suc m) = newerKeys levels (Suc m) \<union> bucketKeys (mSnap (levels ! m))"
    by (auto simp: newerKeys_below)
  then show ?thesis
    using newer_kept_below [OF ok sp, of b] committed_takes(1) [OF ok m10 sp] sp m10
    unfolding Suc newerKeys_below [of _ "Suc m"] by (auto simp: nextLevel_fields simp del: keysBelow_simps)
qed simp

lemma newer_kept:
  assumes ok: "bucketList_ok n levels" and b: "bucket_ok b" and i: "\<not> spills (n + 1) i" "i < 10"
  shows "newerKeys levels (Suc i) \<subseteq> newerKeys (nextLevels (n + 1) b levels) (Suc i)"
  using i
proof (induction i)
  case 0
  then show ?case by (auto simp: nextLevel_fields mergedBucket_def bucketKeys_def [of "filter _ _"])
next
  case (Suc i)
  show ?case
  proof (cases "spills (n + 1) i")
    case True
    then show ?thesis
      using newer_kept_below [OF ok True, of b] committed_takes [OF ok Suc.prems(2) True] Suc.prems
      by (auto simp: newerKeys_Suc newerKeys_below [of "nextLevels _ _ _" "Suc i"] nextLevel_fields simp del: keysBelow_simps)
  next
    case False
    then show ?thesis using Suc.IH Suc.prems by (auto simp: newerKeys_Suc nextLevel_fields)
  qed
qed

lemma shadow_buckets:
  assumes ok: "bucketList_ok n levels" and i: "i \<le> 10" and s: "s \<in> set (take (2 * i) (levelBuckets levels))"
  shows "bucket_ok s \<and> bucketKeys s \<subseteq> keysBelow levels i"
proof -
  have "take (2 * i) (levelBuckets levels) = levelBuckets (take i levels)"
    unfolding levelBuckets_def
  proof (induction levels arbitrary: i)
    case (Cons l levels)
    then show ?case by (cases i) simp_all
  qed simp
  then obtain l where l: "l \<in> set (take i levels)" "s = mCurr l \<or> s = mSnap l"
    using s by (auto simp: levelBuckets_def)
  then obtain j where "j < i" "l = levels ! j" by (auto simp: in_set_conv_nth)
  with l(2) show ?thesis using bucketList_okD [OF ok, of j] i by (auto simp: keysBelow_def)
qed

lemma pending_kept:
  assumes ok: "bucketList_ok n levels" and b: "bucket_ok b" and i: "1 \<le> i" "i < 11"
  shows "pending_ok (n + 1) (nextLevels (n + 1) b levels) i"
proof (cases "spills (n + 1) (i - 1)")
  case True
  have d: "2 ^ (2 * i - 1) dvd n + 1" using True spills_dvd [OF i(1)] by blast
  have sh: "\<forall>s \<in> set (take (2 * (i - 1)) (levelBuckets levels)).
      bucket_ok s \<and> bucketKeys s \<subseteq> newerKeys (nextLevels (n + 1) b levels) i"
    using shadow_buckets [OF ok, of "i - 1"] shadows_kept [OF ok True, of b] i by fastforce
  have new: "mNextCurr (nextLevel (n + 1) b levels i) =
      FB_LIVE_INPUTS (if spills (n + 1 + 2 ^ (2 * i - 1)) i then [] else committed (n + 1) levels i)
        (mCurr (levels ! (i - 1))) (take (2 * (i - 1)) (levelBuckets levels)) (i < 10)"
    using True i by (simp add: nextLevel_def spilled_def)
  show ?thesis using True i sh nextChange_step(1) [OF i(1), of n] d new
    by (simp add: pending_ok_def nextLevel_fields)
next
  case False
  have nd: "\<not> 2 ^ (2 * i - 1) dvd n + 1" using False spills_dvd [OF i(1)] i(2) by blast
  have p: "pending_ok n levels i" using bucketList_okD [OF ok i(2)] i by simp
  have same: "mNextCurr (nextLevel (n + 1) b levels i) = mNextCurr (levels ! i)"
    using False i by (simp add: nextLevel_def spilled_def)
  have "newerKeys levels i \<subseteq> newerKeys (nextLevels (n + 1) b levels) i"
    using newer_kept [OF ok b False] i by simp
  then show ?thesis using p False i same nextChange_step(1) [OF i(1), of n] nd
    by (auto simp: pending_ok_def nextLevel_fields split: FutureBucket.splits)
qed

lemma bucketList_ok_next:
  assumes ok: "bucketList_ok n levels" and b: "bucket_ok b"
  shows "bucketList_ok (n + 1) (nextLevels (n + 1) b levels)"
proof -
  have "bucket_ok (mCurr (nextLevel (n + 1) b levels j)) \<and> bucket_ok (mSnap (nextLevel (n + 1) b levels j))" if "j < 11" for j
    using bucketList_okD [OF ok that] b commit_spilled(2) [OF ok _ that, of "n + 1"]
    by (cases "j = 0") (auto simp: nextLevel_fields mergedBucket_ok)
  then show ?thesis
    using bucketList_okD(1) [OF ok] pending_kept [OF ok b] ok unfolding bucketList_ok_def
    by (auto simp: nextLevel_fields spills_def) (auto simp: nextLevel_def)
qed

section \<open>The bucket list is the ledger\<close>

text \<open>A node closes ledgers one after the other and adds the changes of each to its bucket list.\<close>

type_synonym Batch = "LedgerEntry list \<times> LedgerKey list"

fun closeLedgers :: "u32 \<Rightarrow> Batch list \<Rightarrow> BucketLevel list \<Rightarrow> ledger_error + BucketLevel list" where
  "closeLedgers ledger [] levels = Inr levels"
| "closeLedgers ledger ((live, dead) # batches) levels =
     bindR (addBatch ledger live dead levels) (closeLedgers (ledger + 1) batches)"

text \<open>A node that catches up applies the buckets to an empty ledger, from the last level to the first and the
  snap of a level before its curr (\<^verbatim>\<open>catchup/ApplyBucketsWork.cpp\<close>).\<close>

definition rebuildLedger :: "BucketLevel list \<Rightarrow> LedgerKey \<rightharpoonup> LedgerEntry" where
  "rebuildLedger levels = fold (\<lambda>l ls. applyBucket (mCurr l) (applyBucket (mSnap l) ls)) (rev levels) Map.empty"

lemma rebuild_ledgerOf:
  "\<forall>l \<in> set levels. bucket_ok (mCurr l) \<and> bucket_ok (mSnap l) \<Longrightarrow> rebuildLedger levels = ledgerOf levels"
  by (induction levels) (auto simp: rebuildLedger_def ledgerOf_def foldr_conv_fold applyBucket_overlay)

lemma addBatch_step:
  assumes "bucketList_ok n levels" "unat w = n + 1" "batch_ok live dead"
  shows "\<exists>levels'. addBatch w live dead levels = Inr levels' \<and> bucketList_ok (n + 1) levels' \<and>
    ledgerOf levels' = applyBatch live dead (ledgerOf levels)"
  using addBatch_closed [OF assms] bucketList_ok_next [OF assms(1) freshBucket_ok [OF assms(3)]]
    ledgerOf_nextLevels [OF assms(1) freshBucket_ok [OF assms(3)]] freshBucket_overlay [OF assms(3)]
  by simp

lemma closeLedgers_run:
  assumes "bucketList_ok n levels" "unat w = n + 1" "\<forall>(live, dead) \<in> set batches. batch_ok live dead"
    "n + length batches < 2 ^ 32"
  shows "\<exists>levels'. closeLedgers w batches levels = Inr levels' \<and> bucketList_ok (n + length batches) levels' \<and>
    ledgerOf levels' = fold (\<lambda>(live, dead). applyBatch live dead) batches (ledgerOf levels)"
  using assms
proof (induction batches arbitrary: n levels w)
  case (Cons b batches)
  obtain live dead where b: "b = (live, dead)" by (cases b)
  obtain lv where lv: "addBatch w live dead levels = Inr lv" "bucketList_ok (n + 1) lv"
      "ledgerOf lv = applyBatch live dead (ledgerOf levels)"
    using addBatch_step [OF Cons.prems(1,2), of live dead] Cons.prems(3) b by auto
  have "unat (w + 1) = n + 1 + 1 \<or> batches = []"
    using Cons.prems(2,4) unat_word_ariths(1) [of w 1] by (cases batches) simp_all
  with Cons.IH [OF lv(2), of "w + 1"] Cons.prems(3,4) lv b show ?case
    by (cases "batches = []") auto
qed auto

lemma bucketList_ok_set: "bucketList_ok n levels \<Longrightarrow> \<forall>l \<in> set levels. bucket_ok (mCurr l) \<and> bucket_ok (mSnap l)"
  by (auto simp: bucketList_ok_def in_set_conv_nth)

text \<open>C38: The bucket list always represents the ledger. However many ledgers are closed, adding their changes
  never trips an assertion, and applying the buckets from the oldest to the newest to an empty ledger gives the
  ledger that results from applying the changes one after the other: spilling, merging in the background,
  dropping shadowed entries and dropping tombstones at the last level lose nothing and revive nothing.\<close>

theorem bucket_list_represents_ledger:
  assumes "\<forall>(live, dead) \<in> set batches. batch_ok live dead" "length batches < 2 ^ 32"
  shows "\<exists>levels. closeLedgers 1 batches newBucketList = Inr levels \<and>
    rebuildLedger levels = fold (\<lambda>(live, dead). applyBatch live dead) batches Map.empty"
proof -
  have "ledgerOf newBucketList = Map.empty"
    by (simp add: ledgerOf_def newBucketList_def newBucketLevel_def kNumLevels_def upt_rec)
  then show ?thesis
    using closeLedgers_run [OF newBucketList_ok, of 1 batches] assms rebuild_ledgerOf [OF bucketList_ok_set] by fastforce
qed

theorem bucket_list_represents_ledger_witness:
  "(let entry = (\<lambda>n x. \<lparr>lastModifiedLedgerSeq = n, le_data = DATA \<lparr>dt_accountID = x, dt_dataName = ''a'', dt_dataValue = []\<rparr>\<rparr>);
        batches = [([entry 1 1, entry 1 2], []), ([entry 2 1], [DataKey 2 ''a''])] in
    case closeLedgers 1 batches newBucketList of
      Inr levels \<Rightarrow> rebuildLedger levels (DataKey 1 ''a'') = Some (entry 2 1) \<and> rebuildLedger levels (DataKey 2 ''a'') = None
    | Inl _ \<Rightarrow> False)"
proof -
  let ?e = "\<lambda>n x. \<lparr>lastModifiedLedgerSeq = n, le_data = DATA \<lparr>dt_accountID = x, dt_dataName = ''a'', dt_dataValue = []\<rparr>\<rparr>"
  let ?bs = "[([?e 1 1, ?e 1 2], []), ([?e 2 1], [DataKey 2 ''a''])]"
  have ok: "\<forall>(live, dead) \<in> set ?bs. batch_ok live dead" by (simp add: batch_ok_def LedgerEntryKey_def)
  obtain levels where "closeLedgers 1 ?bs newBucketList = Inr levels"
      "rebuildLedger levels = fold (\<lambda>(live, dead). applyBatch live dead) ?bs Map.empty"
    using bucket_list_represents_ledger [OF ok] by auto
  then show ?thesis by (simp add: Let_def applyBatch_def LedgerEntryKey_def)
qed

section \<open>Restarts\<close>

definition futureInputs :: "FutureBucket \<Rightarrow> Bucket set" where
  "futureInputs fb = (case fb of FB_LIVE_INPUTS c s shadows _ \<Rightarrow> insert c (insert s (set shadows)) | _ \<Rightarrow> {})"

definition referencedBuckets :: "BucketLevel list \<Rightarrow> Bucket set" where
  "referencedBuckets levels = (\<Union>l \<in> set levels. insert (mCurr l) (insert (mSnap l) (futureInputs (mNextCurr l))))"

lemma findBuckets_saved:
  "\<forall>b \<in> set bs. g (h b) = Some b \<Longrightarrow> findBuckets g (map h bs) = Inr bs"
  by (induction bs) auto

lemma makeLive_saved:
  assumes "\<forall>b \<in> insert c (insert s (set shadows)). g (h b) = Some b"
  shows "makeLive g keep (saveFuture h (FB_LIVE_INPUTS c s shadows keep)) = Inr (FB_LIVE_INPUTS c s shadows keep)"
  using assms by (simp add: makeLive_def saveFuture_def findBuckets_saved)

lemma assumeLevels_saved:
  assumes "length ls = length levels" "\<And>j. j < length levels \<Longrightarrow> mLevel (ls ! j) = mLevel (levels ! j)"
    "\<forall>b \<in> referencedBuckets levels. g (h b) = Some b"
  shows "assumeLevels g (saveState h (archiveState h levels)) ls =
    Inr (map (\<lambda>l. l\<lparr>mNextCurr := saveFuture h (mNextCurr l)\<rparr>) levels)"
  using assms
proof (induction ls levels rule: list_induct2)
  case (Cons l ls l' levels)
  have "assumeLevels g (saveState h (archiveState h levels)) ls =
      Inr (map (\<lambda>l. l\<lparr>mNextCurr := saveFuture h (mNextCurr l)\<rparr>) levels)"
    using Cons.prems(1) [of "Suc _"] Cons.prems(2) by (intro Cons.IH) (auto simp: referencedBuckets_def)
  moreover have "mLevel l = mLevel l'" using Cons.prems(1) [of 0] by simp
  ultimately show ?case using Cons.prems(2) by (simp add: saveState_def archiveState_def referencedBuckets_def setCurr_def)
qed (simp add: saveState_def archiveState_def)

lemma restartFrom_saved:
  assumes "\<forall>b \<in> referencedBuckets levels. g (h b) = Some b"
    and "\<And>j. j < length levels \<Longrightarrow> mNextCurr (levels ! j) = FB_CLEAR \<or>
      (\<exists>c s shadows. mNextCurr (levels ! j) = FB_LIVE_INPUTS c s shadows (keepDeadEntries (i + j)))"
  shows "restartFrom g i (map (\<lambda>l. l\<lparr>mNextCurr := saveFuture h (mNextCurr l)\<rparr>) levels) = Inr levels"
  using assms
proof (induction levels arbitrary: i)
  case (Cons l levels)
  have IH: "restartFrom g (i + 1) (map (\<lambda>l. l\<lparr>mNextCurr := saveFuture h (mNextCurr l)\<rparr>) levels) = Inr levels"
    using Cons.prems(1) Cons.prems(2) [of "Suc _"] by (intro Cons.IH) (auto simp: referencedBuckets_def)
  from Cons.prems(2) [of 0] consider "mNextCurr l = FB_CLEAR"
    | c s shadows where "mNextCurr l = FB_LIVE_INPUTS c s shadows (keepDeadEntries i)" by auto
  then show ?case
  proof cases
    case 1
    then show ?thesis using IH by (simp add: saveFuture_def hasHashes_def)
  next
    case 2
    then have "makeLive g (keepDeadEntries i) (saveFuture h (mNextCurr l)) = Inr (mNextCurr l)"
      using Cons.prems(1) by (auto simp: referencedBuckets_def futureInputs_def intro!: makeLive_saved)
    then show ?thesis using 2 IH by (simp add: saveFuture_def hasHashes_def isLive_def)
  qed
qed simp

text \<open>C39: A node that restarts takes up its bucket list where it left it: from the hashes that were saved it
  finds the same buckets and restarts the same merges, provided the files of the referenced buckets are still
  there.\<close>

theorem bucket_list_survives_restart:
  assumes "\<forall>(live, dead) \<in> set batches. batch_ok live dead" "length batches < 2 ^ 32"
    "closeLedgers 1 batches newBucketList = Inr levels"
    "\<forall>b \<in> referencedBuckets levels. getBucketByHash (getHash b) = Some b"
  shows "assumeState getBucketByHash (saveState getHash (archiveState getHash levels)) newBucketList = Inr levels"
proof -
  have ok: "bucketList_ok (length batches) levels"
    using closeLedgers_run [OF newBucketList_ok, of 1 batches] assms(1-3) by auto
  then have len: "length levels = 11" and lev: "\<And>j. j < 11 \<Longrightarrow> mLevel (levels ! j) = j"
    and pend: "\<And>j. 1 \<le> j \<Longrightarrow> j < 11 \<Longrightarrow> pending_ok (length batches) levels j" and zero: "mNextCurr (levels ! 0) = FB_CLEAR"
    by (auto simp: bucketList_ok_def)
  have "mNextCurr (levels ! j) = FB_CLEAR \<or>
      (\<exists>c s shadows. mNextCurr (levels ! j) = FB_LIVE_INPUTS c s shadows (keepDeadEntries (0 + j)))" if "j < length levels" for j
    using pend [of j] zero that len
    by (cases "j = 0") (auto simp: pending_ok_def keepDeadEntries_def kNumLevels_def split: FutureBucket.splits)
  moreover have "length newBucketList = length levels" "\<And>j. j < length levels \<Longrightarrow> mLevel (newBucketList ! j) = mLevel (levels ! j)"
    using len lev by (simp_all add: newBucketList_def kNumLevels_def newBucketLevel_def)
  ultimately show ?thesis
    using assumeLevels_saved [OF _ _ assms(4)] restartFrom_saved [OF assms(4)]
    by (simp add: assumeState_def restartMerges_def)
qed

definition exampleEntry :: LedgerEntry where
  "exampleEntry =
     \<lparr>lastModifiedLedgerSeq = 1, le_data = DATA \<lparr>dt_accountID = 1, dt_dataName = ''a'', dt_dataValue = [7]\<rparr>\<rparr>"

definition exampleBatches :: "Batch list" where
  "exampleBatches = [([exampleEntry], []), ([], [DataKey 1 ''a''])]"

definition exampleLevels :: "BucketLevel list" where
  "exampleLevels =
     \<lparr>mLevel = 0, mNextCurr = FB_CLEAR, mCurr = [DEADENTRY (DataKey 1 ''a'')], mSnap = [LIVEENTRY exampleEntry]\<rparr> #
     \<lparr>mLevel = 1, mNextCurr = FB_LIVE_INPUTS [] [LIVEENTRY exampleEntry] [] True, mCurr = [], mSnap = []\<rparr> #
     map newBucketLevel [2..<11]"

fun exampleHash :: "Bucket \<Rightarrow> BucketHash" where
  "exampleHash [] = 0"
| "exampleHash (LIVEENTRY _ # _) = 1"
| "exampleHash (DEADENTRY _ # _) = 2"

definition exampleStore :: "BucketHash \<Rightarrow> Bucket option" where
  "exampleStore h =
     (if h = 0 then Some [] else if h = 1 then Some [LIVEENTRY exampleEntry]
      else if h = 2 then Some [DEADENTRY (DataKey 1 ''a'')] else None)"

lemma example_run: "closeLedgers 1 exampleBatches newBucketList = Inr exampleLevels"
  by code_simp

theorem bucket_list_survives_restart_witness:
  "isMerging (mNextCurr (exampleLevels ! 1)) \<and>
   assumeState exampleStore (saveState exampleHash (archiveState exampleHash exampleLevels)) newBucketList = Inr exampleLevels"
proof -
  have "\<forall>b \<in> referencedBuckets exampleLevels. exampleStore (exampleHash b) = Some b"
    by (auto simp: referencedBuckets_def exampleLevels_def newBucketLevel_def futureInputs_def exampleStore_def)
  moreover have "\<forall>(live, dead) \<in> set exampleBatches. batch_ok live dead" "length exampleBatches < 2 ^ 32"
    by (simp_all add: exampleBatches_def batch_ok_def)
  ultimately have "assumeState exampleStore (saveState exampleHash (archiveState exampleHash exampleLevels)) newBucketList =
      Inr exampleLevels"
    using bucket_list_survives_restart [OF _ _ example_run] by blast
  then show ?thesis by (simp add: exampleLevels_def isMerging_def)
qed

end
