(* ===== verification/Spec2Isabelle.thy ===== *)
theory Spec2Isabelle
  imports Prelude Numeric SCPTypes QuorumSetUtils LocalNode QuorumProofs ClosestBlocking SlotState BallotProtocol
    SlotSteps BallotRefinement BallotTermination BallotRuns Nomination NodeSteps SCP
    NominationRuns SlotRuns Agreement NominationTermination
    TransitiveQuorum SlotMap Election Restart BallotBehaviour Examples OfferExchange
    LedgerEntries Balances Buckets BucketList
begin

text \<open>
  Verification of \<^verbatim>\<open>spn-core\<close>, a node of a federated Byzantine agreement network written in C++. Paths
  below are relative to \<^verbatim>\<open>src/src\<close>.

  \<^bold>\<open>The program.\<close> A node takes part in one consensus instance per ledger, a \<^emph>\<open>slot\<close>. The application (the
  herder) hands the \<^verbatim>\<open>SCP\<close> object envelopes from the network and values to nominate; \<^verbatim>\<open>SCP\<close> keeps a map of
  slots; each slot runs a nomination protocol, which produces a candidate value, and a ballot protocol, which
  makes all nodes decide for one value. Both protocols count votes with the quorum logic of \<^verbatim>\<open>LocalNode\<close>. A
  decided value is a set of transactions; applying them changes ledger entries, orders are matched by the
  offer exchange, whose arithmetic rests on \<^verbatim>\<open>util/numeric\<close>, and the changes of every ledger go into the bucket
  list, from which a node that catches up rebuilds the ledger.

  \<^bold>\<open>Theories and sources.\<close>
  \<^item> \<open>Prelude\<close>: machine integers as words, \<^verbatim>\<open>std::map\<close> and \<^verbatim>\<open>std::set\<close> as sorted lists (the locale
    \<open>ordered_map\<close> is the contract of the map), results with errors (\<open>bindR\<close>).
  \<^item> \<open>Numeric\<close> (\<^verbatim>\<open>util/numeric.cpp\<close>): all overloads of \<open>bigDivide\<close> and \<open>bigMultiply\<close>, exact and never
    wrapping unseen.
  \<^item> \<open>SCPTypes\<close> (\<^verbatim>\<open>xdr/Stellar-SCP.x\<close>): ballots, statements, envelopes, quorum sets.
  \<^item> \<open>QuorumSetUtils\<close>, \<open>LocalNode\<close> (\<^verbatim>\<open>scp/QuorumSetUtils.cpp\<close>, \<^verbatim>\<open>scp/LocalNode.cpp\<close>): sanity and normal form of
    quorum sets, slices, v-blocking sets, quorums, weights, closest v-blocking sets. \<open>QuorumProofs\<close> proves what
    they compute; the locale \<open>monotone_pruning\<close> is the loop of \<open>isQuorum\<close>. \<open>ClosestBlocking\<close>: the closest v-blocking
    set blocks, and none is smaller.
  \<^item> \<open>SlotState\<close> (\<^verbatim>\<open>scp/Slot.cpp\<close>, \<^verbatim>\<open>scp/SCPDriver.cpp\<close>): the record \<open>Slot\<close> joins the members of \<^verbatim>\<open>Slot\<close>,
    \<^verbatim>\<open>BallotProtocol\<close> and \<^verbatim>\<open>NominationProtocol\<close>; federated voting; timeouts.
  \<^item> \<open>BallotProtocol\<close> (\<^verbatim>\<open>scp/BallotProtocol.cpp\<close>), \<open>Nomination\<close> (\<^verbatim>\<open>scp/NominationProtocol.cpp\<close>), \<open>SCP\<close>
    (\<^verbatim>\<open>scp/Slot.cpp\<close>, \<^verbatim>\<open>scp/SCP.cpp\<close>, \<^verbatim>\<open>LocalNode::isNodeInQuorum\<close>): one definition per function, with the same name;
    a prefix \<open>nom_\<close>, \<open>slot_\<close>, \<open>scp_\<close> or \<open>ln_\<close> tells apart functions of the same name.
  \<^item> \<open>SlotSteps\<close>, \<open>NodeSteps\<close>: the abstract machine, a step relation in which ballots are only accepted and
    confirmed on the votes of quorums and blocking sets, and its invariants. \<open>BallotRefinement\<close>, \<open>BallotRuns\<close>,
    \<open>NominationRuns\<close>, \<open>SlotRuns\<close>: the functions refine it; the locales \<open>self_processing\<close>, \<open>bump_body\<close> and
    \<open>nomination_relation\<close> are the contracts by which a protocol processes its own statements.
  \<^item> \<open>BallotTermination\<close>, \<open>NominationTermination\<close>: every call returns (locales \<open>level_bounded\<close>, \<open>sound_body\<close>).
  \<^item> \<open>Agreement\<close>: a network of slots in which other nodes may send anything; no two well-behaved nodes decide
    differently.
  \<^item> \<open>TransitiveQuorum\<close>, \<open>SlotMap\<close>, \<open>Election\<close>, \<open>Restart\<close>, \<open>BallotBehaviour\<close>: the search of the transitive
    quorum; sequences of calls of the SCP object, in which slots do not interfere; round leaders; restarts from the
    last message; the search for the commit interval, and that the bump loop catches up with the peers.
  \<^item> \<open>LedgerEntries\<close> (\<^verbatim>\<open>xdr/Stellar-ledger-entries.x\<close>, \<^verbatim>\<open>bucket/LedgerCmp.h\<close>, \<^verbatim>\<open>util/types.cpp\<close>): accounts, trust
    lines, offers, data, their keys, and the order of keys, which is an instance of \<open>linorder\<close>.
  \<^item> \<open>OfferExchange\<close> (\<^verbatim>\<open>transactions/OfferExchange.cpp\<close>): amounts exchanged when two offers cross, in the
    protocol versions 2, 3 and 10, and the adjustment of offers: results within all limits, a bounded price
    error, adjustment idempotent.
  \<^item> \<open>Balances\<close> (\<^verbatim>\<open>transactions/TransactionUtils.cpp\<close>, \<^verbatim>\<open>util/types.cpp\<close>): balances, liabilities and reserves of
    one entry; every change leaves them covered.
  \<^item> \<open>Buckets\<close> (\<^verbatim>\<open>bucket/Bucket.cpp\<close>, \<^verbatim>\<open>bucket/BucketOutputIterator.cpp\<close>): buckets as sorted lists of entries and
    tombstones, their merge with shadows, and their application to a ledger (\<^verbatim>\<open>bucket/BucketApplicator.cpp\<close>).
  \<^item> \<open>BucketList\<close> (\<^verbatim>\<open>bucket/BucketList.cpp\<close>, \<^verbatim>\<open>bucket/FutureBucket.cpp\<close>, \<^verbatim>\<open>bucket/BucketManagerImpl.cpp\<close>,
    \<^verbatim>\<open>history/HistoryArchive.cpp\<close>): levels, spills, merges in progress, saving and restoring. The invariant
    \<open>bucketList_ok\<close> relates every merge in progress to the buckets around it; with it the list represents the
    ledger after any number of ledgers.
  \<^item> \<open>Examples\<close>: concrete nodes and networks on which the hypotheses of the theorems hold.

  \<^bold>\<open>Conventions and bounds.\<close> Errors are values: an exception or a failed assertion is an \<open>Inl\<close>, and the state
  that was partly changed at that point is dropped with it. \<^verbatim>\<open>SCPDriver\<close>, which the application implements, is
  the record \<open>SCPContext\<close> of functions, an argument of every definition that uses it; calls that tell the
  driver something are logged in \<open>mDriverCalls\<close>. What the theorems ask of the driver is stated as hypotheses
  (\<open>extractContract\<close>, \<open>federation\<close>). The recursion of \<open>advanceSlot\<close> has the depth bound of the code,
  \<open>MAX_ADVANCE_SLOT_RECURSION\<close> = 50, as its fuel, and \<open>slot_input_returns\<close> shows that the fuel is never what ends
  a run; \<open>nom_processEnvelope\<close> is a partial function, \<open>None\<close> when the code would not return. \<^verbatim>\<open>mRoundNumber\<close> is
  an unbounded integer, 64-bit amounts are integers with their bounds written out, and in a network the local
  quorum sets stay fixed: a slot is reachable (\<open>slot_reachable\<close>) by its own messages, timers and calls, without a
  restored state and with one quorum set, and the driver answers a question always in the same way. Where the ballot
  code aborts on a nomination statement the model has a default value: \<open>slot_processEnvelope\<close> never hands it one. The
  reserve of an account is computed without a bound, where the code multiplies in 64 bits and overflows, with the
  largest base reserve, from about \<open>2 ^ 31\<close> subentries on. A bucket is the content of its file; a background merge has fixed inputs, so its result
  is the same function of them whenever the thread runs. The bucket list has the eleven levels of the code and
  the theorems hold for every number of ledgers below \<open>2 ^ 32\<close>, the range of the sequence number. The hash of a
  bucket and the store of bucket files are parameters; what a restart asks of them is a hypothesis.

  \<^bold>\<open>Not modelled.\<close> JSON and string output, logging and metrics of the modelled classes. Of the bucket code, the
  size estimates of levels, the hash of the list and the collection of unused files. Of the transactions, the
  functions that go through the ledger state: loading entries, acquiring and releasing the liabilities of offers,
  crossing the offers of the order book (\<^verbatim>\<open>crossOffer\<close>, \<^verbatim>\<open>convertWithOffers\<close>) and the operation frames. The ledger
  state, the herder, ledger closing, overlay, catchup, history, database, process and configuration code are
  dominated by SQL, sockets, timers and external processes; cryptography is a wrapper of a library and enters as
  parameters of the driver; tests, simulation and vendored libraries are not part of the node.
\<close>

section \<open>Agreement\<close>

text \<open>C1: Two well-behaved nodes of a network never externalize different values for a slot, whatever the
  other nodes send and in whatever order messages, timers and calls of the application arrive, provided the
  quorums of the well-behaved nodes intersect in well-behaved nodes.\<close>

theorem externalized_values_agree:
  assumes "federation W ctx" "quorum_intersection W ctx" "network_reachable W ctx i \<sigma>" "v \<in> W" "w \<in> W"
    "ValueExternalized j x \<in> set (mDriverCalls (\<sigma> v))" "ValueExternalized k y \<in> set (mDriverCalls (\<sigma> w))"
  shows "x = y \<and> j = i \<and> k = i"
proof -
  have good: "goodNetwork W ctx i \<sigma>" using assms(1,3) by (simp add: reachable_goodNetwork)
  then have inv: "fullInv (ctx v) i (\<sigma> v)" "fullInv (ctx w) i (\<sigma> w)" using assms(4,5) by (simp_all add: goodNetwork_def)
  show ?thesis
    using goodNetwork_agreement [OF assms(2) good assms(4,5)] externalized_locked [OF inv(1) assms(6)]
      externalized_locked [OF inv(2) assms(7)] by simp
qed

theorem externalized_values_agree_witness:
  "\<exists>\<sigma> x y. network_reachable {1, 2} pairCtx 5 \<sigma> \<and> ValueExternalized 5 x \<in> set (mDriverCalls (\<sigma> 1)) \<and>
     ValueExternalized 5 y \<in> set (mDriverCalls (\<sigma> 2)) \<and> x = y"
proof -
  obtain \<sigma> where \<sigma>: "network_reachable {1, 2} pairCtx 5 \<sigma>"
    "ValueExternalized 5 [7] \<in> set (mDriverCalls (\<sigma> 1))" "ValueExternalized 5 [7] \<in> set (mDriverCalls (\<sigma> 2))"
    by (rule pair_network)
  have "[7] = [7 :: 8 word] \<and> (5 :: u64) = 5 \<and> (5 :: u64) = 5"
    using externalized_values_agree [OF pair_federation pair_quorum_intersection \<sigma>(1) _ _ \<sigma>(2,3)] by simp
  then show ?thesis using \<sigma> by blast
qed

section \<open>One slot\<close>

text \<open>C2: The functions of the slot implement the state machine: every call that the slot survives, with all
  the recursive processing it causes, is a sequence of steps of the machine, in which a ballot or a commit is
  only accepted or confirmed on the votes of a quorum or of a blocking set.\<close>

theorem slot_input_refines_machine:
  assumes "slot_reachable S i s" "trustworthy S inp s" "slot_input S inp s = Some (Inr s')"
  shows "node_steps S (received inp) s s'"
  using fullInv_input(2) [OF reachable_fullInv [OF assms(1)] assms(2,3)]
  by (simp add: nominationRun_def nodeRun_def)

theorem slot_input_refines_machine_witness:
  "\<exists>s. node_steps soloCtx {} (newSlot soloCtx 5) s \<and> mPhase s = SCP_PHASE_EXTERNALIZE"
proof -
  obtain s where s: "slot_input soloCtx (Nominate [7] [1]) (newSlot soloCtx 5) = Some (Inr s)"
    "mPhase s = SCP_PHASE_EXTERNALIZE" by (rule solo_slot)
  have "node_steps soloCtx (received (Nominate [7] [1])) (newSlot soloCtx 5) s"
    by (rule slot_input_refines_machine [OF slot_reachable.created _ s(1)]) (simp add: trustworthy_def)
  then show ?thesis using s(2) by auto
qed

text \<open>C3: Every call of a reachable slot returns, provided the application extracts only valid values, and
  fails only by an assertion, a null pointer or one of two exceptions of the code: neither the bump loop nor the
  mutual recursion of the protocols runs on, and the model never runs out of fuel.\<close>

theorem slot_input_returns:
  assumes "extractContract S i" "slot_reachable S i s" "trustworthy S inp s"
  shows "\<exists>res. slot_input S inp s = Some res \<and>
    (\<forall>e. res = Inl e \<longrightarrow> e = DbgAbort \<or> e = NullDeref \<or>
       e = RuntimeError ''moved to a bad state (ballot protocol)'' \<or>
       e = RuntimeError ''maximum number of transitions reached in advanceSlot'')"
  using slot_input_total [OF assms(1) reachable_fullInv [OF assms(2)] assms(3)] by (simp add: genuine_def)

theorem slot_input_returns_witness:
  "\<exists>res. slot_input (pairCtx 1) (Nominate [7] [1]) (newSlot (pairCtx 1) 5) = Some res \<and>
     res \<noteq> Inl OutOfFuel \<and> res \<noteq> Inl LoopDiverges"
proof -
  have "extractContract (pairCtx 1) 5" by (simp add: pairCtx_def extract_example)
  from slot_input_returns [OF this slot_reachable.created, of "Nominate [7] [1]"]
  show ?thesis by (auto simp: trustworthy_def)
qed

text \<open>C4: In every reachable state the assertions of \<^verbatim>\<open>checkInvariants\<close> hold, no processing is pending, and the
  recorded statements are indexed by their authors and belong to this slot.\<close>

theorem reachable_slot_invariant:
  assumes "slot_reachable S i s"
  shows "checkInvariants s = Inr () \<and> mCurrentMessageLevel s = 0 \<and> mSlotIndex s = i \<and>
    map_invar (mLatestEnvelopes s) \<and>
    (\<forall>n e. map_of (mLatestEnvelopes s) n = Some e \<longrightarrow>
       nodeID (statement e) = n \<and> slotIndex (statement e) = i \<and> \<not> isNominate (pledges (statement e)))"
proof -
  have inv: "wellFormed s" "latestInv s" "mCurrentMessageLevel s = 0" "mSlotIndex s = i"
    using reachable_fullInv [OF assms] by (simp_all add: fullInv_def slotInv_def)
  have "\<not> isNominate (pledges st)" if "\<not> isNomination st" for st
    using that by (cases "pledges st") (simp_all add: isNomination_def)
  then show ?thesis using inv by (simp add: wellFormed_def latestInv_def)
qed

theorem reachable_slot_invariant_witness:
  "\<exists>s. slot_reachable soloCtx 5 s \<and> mPhase s = SCP_PHASE_EXTERNALIZE \<and> checkInvariants s = Inr () \<and> mSlotIndex s = 5"
proof -
  obtain s where "slot_reachable soloCtx 5 s" "mPhase s = SCP_PHASE_EXTERNALIZE" by (rule solo_slot)
  then show ?thesis using reachable_slot_invariant by blast
qed

text \<open>C5: No call undoes progress: the phase never goes back, the value of a commit that was accepted never
  changes, and once the slot has externalized its ballots stay as they are.\<close>

theorem commitment_is_final:
  assumes "slot_reachable S i s" "trustworthy S inp s" "slot_input S inp s = Some (Inr s')"
  shows "phaseNo (mPhase s) \<le> phaseNo (mPhase s') \<and> mPrepared s \<le> mPrepared s' \<and>
    (\<forall>v. locked s v \<longrightarrow> locked s' v) \<and>
    (mPhase s = SCP_PHASE_EXTERNALIZE \<longrightarrow>
       mPhase s' = SCP_PHASE_EXTERNALIZE \<and> mCommit s' = mCommit s \<and> mHighBallot s' = mHighBallot s \<and>
       mCurrentBallot s' = mCurrentBallot s)"
proof -
  have inv: "fullInv S i s" "wellFormed s"
    using reachable_fullInv [OF assms(1)] by (simp_all add: fullInv_def slotInv_def)
  have run: "node_steps S (received inp) s s'"
    using fullInv_input(2) [OF inv(1) assms(2,3)] by (simp add: nominationRun_def nodeRun_def)
  show ?thesis
    using progress_nodes [OF run] locked_nodes [OF run inv(2)] phaseNo_le_2 [of "mPhase s'"]
    by (auto simp: progress_def)
qed

theorem commitment_is_final_witness:
  "\<exists>s. slot_reachable soloCtx 5 s \<and> locked s [7] \<and> locked (stopNomination s) [7] \<and>
     mPhase (stopNomination s) = SCP_PHASE_EXTERNALIZE"
proof -
  obtain s where s: "slot_reachable soloCtx 5 s" "mPhase s = SCP_PHASE_EXTERNALIZE" "locked s [7]" by (rule solo_slot)
  have "trustworthy soloCtx StopNomination s" "slot_input soloCtx StopNomination s = Some (Inr (stopNomination s))"
    by (simp_all add: trustworthy_def)
  from commitment_is_final [OF s(1) this] show ?thesis using s by blast
qed

text \<open>C6: The driver is told of a decision exactly when the slot externalizes: once, with the index of the slot
  and the value of the commit.\<close>

theorem externalized_exactly_once:
  assumes "slot_reachable S i s"
  shows "externalizedValues s =
    (if mPhase s = SCP_PHASE_EXTERNALIZE then [(i, bvalue (the (mCommit s)))] else [])"
proof -
  have inv: "notifyInv s" "notified s" "mSlotIndex s = i"
    using reachable_fullInv [OF assms] by (simp_all add: fullInv_def slotInv_def)
  show ?thesis
    using inv by (cases "externalizedValues s") (auto simp: notifyInv_def notified_def locked_def)
qed

theorem externalized_exactly_once_witness:
  "\<exists>s. slot_reachable soloCtx 5 s \<and> externalizedValues s = [(5, [7])]"
proof -
  obtain s where s: "slot_reachable soloCtx 5 s" "mPhase s = SCP_PHASE_EXTERNALIZE" "locked s [7]" by (rule solo_slot)
  then show ?thesis using externalized_exactly_once [OF s(1)] by (auto simp: locked_def)
qed

text \<open>C7: A node never contradicts itself: the ballot messages it sends for a slot are its own and strictly newer
  one after the other, in the order in which a peer compares them.\<close>

theorem emitted_ballots_increase:
  assumes "slot_reachable S i s"
  shows "sorted_wrt (\<lambda>a b. isNewerStatement (statement a) (statement b)) (emittedBallots s) \<and>
    (\<forall>e \<in> set (emittedBallots s). nodeID (statement e) = localNodeID S)"
  using reachable_fullInv [OF assms] by (auto simp: fullInv_def slotInv_def emitInv_def ownEmitted_def)

theorem emitted_ballots_increase_witness:
  "\<exists>s. slot_reachable (pairCtx 1) 5 s \<and> 3 \<le> length (emittedBallots s) \<and>
     isNewerStatement (statement (emittedBallots s ! 0)) (statement (emittedBallots s ! 2))"
proof -
  obtain \<sigma> where \<sigma>: "slot_reachable (pairCtx 1) 5 (\<sigma> 1)" "3 \<le> length (emittedBallots (\<sigma> 1))" by (rule pair_network)
  then show ?thesis
    using emitted_ballots_increase [OF \<sigma>(1)] sorted_wrt_nth_less [of _ "emittedBallots (\<sigma> 1)" 0 2] by auto
qed

text \<open>C8: The nominations that a node sends for a slot are its own and grow: each has all the votes and accepted
  values of the ones before it, and at least one more.\<close>

theorem emitted_nominations_grow:
  assumes "slot_reachable S i s"
  shows "sorted_wrt (\<lambda>a b. nomLess (pledges (statement a)) (pledges (statement b))) (emittedNominations s) \<and>
    (\<forall>e \<in> set (emittedNominations s). nodeID (statement e) = localNodeID S \<and>
       set (nomVotes (pledges (statement e))) \<subseteq> set (mVotes s) \<and>
       set (nomAccepted (pledges (statement e))) \<subseteq> set (mAccepted s))"
proof -
  have "nomOk S s" using reachable_fullInv [OF assms] by (simp add: fullInv_def)
  then show ?thesis using nomOkD(4,5) by (auto simp: ownNomination_def belowSlot_def)
qed

theorem emitted_nominations_grow_witness:
  "\<exists>s. slot_reachable (pairCtx 1) 5 s \<and> 2 \<le> length (emittedNominations s) \<and>
     nomLess (pledges (statement (emittedNominations s ! 0))) (pledges (statement (emittedNominations s ! 1)))"
proof -
  obtain \<sigma> where \<sigma>: "slot_reachable (pairCtx 1) 5 (\<sigma> 1)" "2 \<le> length (emittedNominations (\<sigma> 1))"
    by (rule pair_network)
  then show ?thesis
    using emitted_nominations_grow [OF \<sigma>(1)] sorted_wrt_nth_less [of _ "emittedNominations (\<sigma> 1)" 0 1] by auto
qed

text \<open>C9: The sets of the nomination protocol are nested and sound: a candidate has been accepted, an accepted
  value is voted for, and every accepted value is one that the application validates in full.\<close>

theorem nomination_sets_nested:
  assumes "slot_reachable S i s"
  shows "set (mCandidates s) \<subseteq> set (mAccepted s) \<and> set (mAccepted s) \<subseteq> set (mVotes s) \<and>
    (\<forall>v \<in> set (mAccepted s). validateValue S i v True = kFullyValidatedValue) \<and>
    set_invar (mVotes s) \<and> set_invar (mAccepted s) \<and> set_invar (mCandidates s)"
proof -
  have "nomInv S s" "mSlotIndex s = i" using reachable_fullInv [OF assms] nomOkD(1) by (auto simp: fullInv_def)
  then show ?thesis by (simp add: nomInv_def nom_validateValue_def)
qed

theorem nomination_sets_nested_witness:
  "\<exists>s. slot_reachable soloCtx 5 s \<and> [7] \<in> set (mCandidates s) \<and> [7] \<in> set (mVotes s)"
proof -
  obtain s where s: "slot_reachable soloCtx 5 s" "mCandidates s = [[7]]" by (rule solo_slot)
  then show ?thesis using nomination_sets_nested [OF s(1)] by auto
qed

text \<open>C10: What a slot knows of its peers only becomes newer: a call replaces the latest statement of a node at
  most by one that supersedes it, and never forgets a recorded statement.\<close>

theorem latest_statements_superseded:
  assumes "slot_reachable S i s" "trustworthy S inp s" "slot_input S inp s = Some (Inr s')"
  shows "supersedes (mLatestEnvelopes s) (mLatestEnvelopes s') \<and>
    prefix (mStatementsHistory s) (mStatementsHistory s') \<and> prefix (mDriverCalls s) (mDriverCalls s')"
proof -
  have inv: "fullInv S i s" "latestInv s"
    using reachable_fullInv [OF assms(1)] by (simp_all add: fullInv_def slotInv_def)
  have run: "node_steps S (received inp) s s'"
    using fullInv_input(2) [OF inv(1) assms(2,3)] by (simp add: nominationRun_def nodeRun_def)
  show ?thesis using supersedes_nodes [OF run inv(2)] progress_nodes [OF run] by (simp add: progress_def)
qed

theorem latest_statements_superseded_witness:
  "\<exists>s. slot_reachable soloCtx 5 s \<and> length (mLatestEnvelopes s) = 1 \<and>
     supersedes (mLatestEnvelopes s) (mLatestEnvelopes (stopNomination s))"
proof -
  obtain s where s: "slot_reachable soloCtx 5 s" "length (mLatestEnvelopes s) = 1" by (rule solo_slot)
  have "trustworthy soloCtx StopNomination s" "slot_input soloCtx StopNomination s = Some (Inr (stopNomination s))"
    by (simp_all add: trustworthy_def)
  from latest_statements_superseded [OF s(1) this] show ?thesis using s by blast
qed

section \<open>Restarting a node\<close>

text \<open>C11: A slot that is restored from the statement of its state makes the same statement, in the same phase
  and with the same lock, and does not send it again.\<close>

theorem ballot_state_roundtrip:
  assumes "createStatement S s = Inr pl" "mCurrentBallot s \<noteq> None"
  shows "\<exists>s'. slot_setStateFromEnvelope S (createEnvelope S pl s) (newSlot S (mSlotIndex s)) = Inr s' \<and>
    createStatement S s' = Inr pl \<and> mPhase s' = mPhase s \<and> (\<forall>v. locked s' v \<longleftrightarrow> locked s v) \<and>
    sendLatestEnvelope s' = s'"
  using assms ballot_restart by blast

theorem ballot_state_roundtrip_witness:
  "\<exists>s'. slot_setStateFromEnvelope soloCtx
      (createEnvelope soloCtx (SCP_ST_CONFIRM (SCPBallot 3 [7]) 2 1 2 9) (newSlot soloCtx 5)) (newSlot soloCtx 5) = Inr s' \<and>
    createStatement soloCtx s' = Inr (SCP_ST_CONFIRM (SCPBallot 3 [7]) 2 1 2 9) \<and> locked s' [7]"
proof -
  let ?s = "(newSlot soloCtx 5)\<lparr>mPhase := SCP_PHASE_CONFIRM, mCurrentBallot := Some (SCPBallot 3 [7]),
    mPrepared := Some (SCPBallot 2 [7]), mHighBallot := Some (SCPBallot 2 [7]), mCommit := Some (SCPBallot 1 [7])\<rparr>"
  have "createStatement soloCtx ?s = Inr (SCP_ST_CONFIRM (SCPBallot 3 [7]) 2 1 2 9)"
    by (simp add: createStatement_def checkInvariants_def dbgAssert_def deref_def newSlot_def soloCtx_def exampleContext_def)
  moreover have "mCurrentBallot ?s \<noteq> None" "mSlotIndex ?s = 5" "locked ?s [7]"
    "createEnvelope soloCtx pl ?s = createEnvelope soloCtx pl (newSlot soloCtx 5)" for pl
    by (simp_all add: locked_def createEnvelope_def newSlot_def)
  ultimately show ?thesis using ballot_state_roundtrip [of soloCtx ?s] by fastforce
qed

text \<open>C12: A slot that is restored from the node's last nomination has the same votes and accepted values, and would
  make the same nomination.\<close>

theorem nomination_state_roundtrip:
  assumes "slot_reachable S i s"
  shows "\<exists>s'. slot_setStateFromEnvelope S (nominationEnvelope S s) (newSlot S i) = Inr s' \<and>
    mVotes s' = mVotes s \<and> mAccepted s' = mAccepted s \<and> nominationEnvelope S s' = nominationEnvelope S s \<and>
    mNominationLastEnvelope s' = Some (nominationEnvelope S s)"
proof -
  have inv: "nomInv S s" "mSlotIndex s = i"
    using reachable_fullInv [OF assms] nomOkD(1) by (auto simp: fullInv_def)
  show ?thesis using nomination_restart [of s S] inv by (simp add: nomInv_def)
qed

theorem nomination_state_roundtrip_witness:
  "\<exists>s s'. slot_reachable soloCtx 5 s \<and>
     slot_setStateFromEnvelope soloCtx (nominationEnvelope soloCtx s) (newSlot soloCtx 5) = Inr s' \<and> mVotes s' = [[7]]"
proof -
  obtain s where s: "slot_reachable soloCtx 5 s" "mVotes s = [[7]]" by (rule solo_slot)
  then show ?thesis using nomination_state_roundtrip [OF s(1)] by metis
qed

section \<open>Nomination\<close>

text \<open>C13: The leaders of a round are the voters of maximal priority among the local node and the nodes of its
  quorum set, where a priority of zero makes only the local node a leader; a round is never without a leader, and
  the election fails only when the previous value is missing.\<close>

theorem round_leaders_elected:
  "updateRoundLeaders S s =
     (if mPreviousValue s = [] then Inl DbgAbort
      else Inr (s\<lparr>mRoundLeaders := sorted_list_of_set (leading (priority S s) (localNodeID S) (voters S))\<rparr>)) \<and>
   leading (priority S s) (localNodeID S) (voters S) \<noteq> {}"
proof -
  have ne: "leading (priority S s) (localNodeID S) (voters S) \<noteq> {}"
    by (rule leading_nonempty) (simp_all add: voters_def)
  show ?thesis
  proof (cases "mPreviousValue s = []")
    case True
    then show ?thesis using ne
      by (simp add: updateRoundLeaders_def getNodePriority_def hashNode_def dbgAssert_def Let_def)
  next
    case False
    then obtain L where L: "updateRoundLeaders S s = Inr (s\<lparr>mRoundLeaders := L\<rparr>)" "set_invar L"
      "set L = leading (priority S s) (localNodeID S) (voters S)"
      using updateRoundLeaders_leading by blast
    have "L = sorted_list_of_set (set L)"
      using L(2) by (intro set_invar_unique) (simp_all add: set_invar_iff)
    then show ?thesis using L(1,3) False ne by simp
  qed
qed

text \<open>C14: From the nomination of a leader a node takes up a value of maximal hash among those that the application
  accepts and the node has not voted for yet, and nothing when there is none.\<close>

theorem new_value_is_best:
  assumes "mPreviousValue s \<noteq> []"
  shows "\<exists>x. getNewValueFromNomination S nom s = Inr x \<and>
    (if offered S s (applyAll nom) = {} then x = []
     else x \<in> offered S s (applyAll nom) \<and> (\<forall>y \<in> offered S s (applyAll nom). rank S s y \<le> rank S s x))"
  using getNewValue_best [OF assms] .

theorem new_value_is_best_witness:
  "\<exists>x. getNewValueFromNomination soloCtx (SCP_ST_NOMINATE 9 [[3], [7]] []) ((newSlot soloCtx 5)\<lparr>mPreviousValue := [1]\<rparr>) = Inr x \<and>
     x \<in> {[3], [7]}"
proof -
  let ?s = "(newSlot soloCtx 5)\<lparr>mPreviousValue := [1]\<rparr>" and ?nom = "SCP_ST_NOMINATE 9 [[3], [7]] []"
  have "offered soloCtx ?s (applyAll ?nom) = {[3], [7]}"
    by (auto simp: offered_def applyAll_def valueToNominate_def nom_validateValue_def soloCtx_def exampleContext_def newSlot_def)
  then show ?thesis using new_value_is_best [of ?s soloCtx ?nom] by auto
qed

section \<open>The SCP object\<close>

text \<open>C15: The search for a node in the transitive quorum ends, whatever order the unordered sets have, and its
  answer is determined by the quorum sets alone: yes when the node is reachable from the local node, no when it is
  not and every reachable node is known, and otherwise maybe.\<close>

theorem isNodeInQuorum_decides:
  assumes "picksMember pick"
  shows "ln_isNodeInQuorum pick mNodeID node qfun m =
    Some (if inQuorum qfun m mNodeID node then TB_TRUE
          else if \<forall>c. inQuorum qfun m mNodeID c \<longrightarrow> knownNode qfun m c then TB_FALSE else TB_MAYBE)"
  by (rule isNodeInQuorum_search [OF assms])

theorem isNodeInQuorum_decides_witness:
  "ln_isNodeInQuorum hd 1 2 (\<lambda>st. Some (SCPQuorumSet 2 [1, 2] []))
     [(1, [\<lparr>nodeID = 1, slotIndex = 5, pledges = SCP_ST_NOMINATE 9 [[7]] []\<rparr>])] = Some TB_TRUE"
proof -
  let ?q = "\<lambda>st :: SCPStatement. Some (SCPQuorumSet 2 [1, 2] [])"
    and ?m = "[(1, [\<lparr>nodeID = 1, slotIndex = 5, pledges = SCP_ST_NOMINATE 9 [[7]] []\<rparr>])]"
  have "2 \<in> set (forAllNodes (SCPQuorumSet 2 [1, 2] []))" by code_simp
  then have "inQuorum ?q ?m 1 2" by (intro r_into_rtranclp) (simp add: mentions_def)
  then show ?thesis using isNodeInQuorum_decides [of hd 1 2 ?q ?m] by (simp add: picksMember_def)
qed

text \<open>C16: The slots of an SCP object do not interfere: after any sequence of calls that the object survives (envelopes,
  nominations, stops, timers, purges, restored states and changes of the quorum set), the slot of an index is the one that
  the calls which concern this index lead to on their own. Where none of the calls changes the quorum set or restores this
  slot, and envelopes in the node's own name are among those that the slot has sent, the slot is a reachable one.\<close>

theorem scp_slots_do_not_interfere:
  assumes "scp_calls qsetHash cs (newSCP qsetHash driver n isValidator q) = Some (Inr scp)"
  shows "map_invar (mKnownSlots scp) \<and>
    (\<exists>own. scp_calls qsetHash (filter (concerns i) cs) (newSCP qsetHash driver n isValidator q) = Some (Inr own) \<and>
       map_of (mKnownSlots own) i = map_of (mKnownSlots scp) i \<and> mContext own = mContext scp) \<and>
    (trustworthyCalls qsetHash cs (newSCP qsetHash driver n isValidator q) \<and> \<not> list_ex (overrides i) cs \<longrightarrow>
       mContext scp = newLocalNode qsetHash n isValidator q driver \<and>
       (\<forall>s. map_of (mKnownSlots scp) i = Some s \<longrightarrow> slot_reachable (mContext scp) i s))"
proof -
  let ?scp0 = "newSCP qsetHash driver n isValidator q"
  have inv: "agree i ?scp0 ?scp0" "reachableAt i ?scp0" "mContext ?scp0 = newLocalNode qsetHash n isValidator q driver"
    by (simp_all add: agree_def reachableAt_def slotAt_def newSCP_def scpInv_def map_invar_def slot_reachable.created)
  obtain own where own: "scp_calls qsetHash (filter (concerns i) cs) ?scp0 = Some (Inr own)" "agree i scp own"
    using calls_agree [OF inv(1) assms] by blast
  have "mContext scp = mContext ?scp0 \<and> (\<forall>s. map_of (mKnownSlots scp) i = Some s \<longrightarrow> slot_reachable (mContext scp) i s)"
    if "trustworthyCalls qsetHash cs ?scp0" "\<not> list_ex (overrides i) cs"
    using calls_reachable [OF inv(2) assms that(2,1)] by (auto simp: reachableAt_def slotAt_def)
  then show ?thesis using own inv(3) by (auto simp: agree_def scpInv_def)
qed

theorem scp_slots_do_not_interfere_witness:
  "\<exists>scp own s. scp_calls (\<lambda>q. 9) [CallNominate 3 [6] [1], CallNominate 5 [7] [1], CallNominate 6 [8] [7], CallPurgeSlots 4]
       (newSCP (\<lambda>q. 9) soloCtx 1 True (SCPQuorumSet 1 [1] [])) = Some (Inr scp) \<and>
     scp_calls (\<lambda>q. 9) [CallNominate 5 [7] [1]] (newSCP (\<lambda>q. 9) soloCtx 1 True (SCPQuorumSet 1 [1] [])) = Some (Inr own) \<and>
     map_of (mKnownSlots scp) 5 = Some s \<and> map_of (mKnownSlots own) 5 = Some s \<and>
     mPhase s = SCP_PHASE_EXTERNALIZE \<and> slot_reachable (mContext scp) 5 s"
proof -
  let ?scp0 = "newSCP (\<lambda>q. 9) soloCtx 1 True (SCPQuorumSet 1 [1] [])"
    and ?cs = "[CallNominate 3 [6] [1], CallNominate 5 [7] [1], CallNominate 6 [8] [7], CallPurgeSlots 4]"
  have "case scp_calls (\<lambda>q. 9) ?cs ?scp0 of
      Some (Inr scp) \<Rightarrow> map_option mPhase (map_of (mKnownSlots scp) 5) = Some SCP_PHASE_EXTERNALIZE | _ \<Rightarrow> False"
    by code_simp
  then obtain scp s where scp: "scp_calls (\<lambda>q. 9) ?cs ?scp0 = Some (Inr scp)"
    "map_of (mKnownSlots scp) 5 = Some s" "mPhase s = SCP_PHASE_EXTERNALIZE"
    by (cases "scp_calls (\<lambda>q. 9) ?cs ?scp0") (auto split: sum.splits)
  have calls: "filter (concerns 5) ?cs = [CallNominate 5 [7] [1]]" "\<not> list_ex (overrides 5) ?cs" by simp_all
  have own: "trustworthyCalls (\<lambda>q. 9) ?cs ?scp0" by (auto split: option.split sum.split)
  show ?thesis
    using scp_slots_do_not_interfere [OF scp(1), of 5] scp own calls(2) unfolding calls(1) by metis
qed

text \<open>C17: An envelope acts on the slot it names and on no other: the slot, created if there is none, processes it,
  and all other entries stay; an envelope with a bad signature changes nothing.\<close>

theorem receive_envelope_frame:
  assumes "map_invar (mKnownSlots scp)" "receiveEnvelope env scp = Some (Inr (r, scp'))"
  shows "map_invar (mKnownSlots scp') \<and> mContext scp' = mContext scp \<and>
    (if verifyEnvelope (mContext scp) env
     then \<exists>s. slot_processEnvelope (mContext scp) env False (slotAt scp (slotIndex (statement env))) = Some (Inr (r, s)) \<and>
            map_of (mKnownSlots scp') = (map_of (mKnownSlots scp))(slotIndex (statement env) \<mapsto> s)
     else r = INVALID \<and> scp' = scp)"
proof (cases "verifyEnvelope (mContext scp) env")
  case True
  then have "onSlot (slotIndex (statement env)) (\<lambda>S. slot_processEnvelope S env False) scp = Some (Inr (r, scp'))"
    using assms(2) by (simp add: receiveEnvelope_def)
  from onSlot_slots [OF _ this] show ?thesis using assms(1) True by (simp add: scpInv_def)
qed (use assms in \<open>simp add: receiveEnvelope_def\<close>)

theorem receive_envelope_frame_witness:
  "\<exists>r scp'. receiveEnvelope (nominationEnvelope (pairCtx 2) ((newSlot (pairCtx 2) 5)\<lparr>mVotes := [[8]]\<rparr>))
      \<lparr>mContext = pairCtx 1, mKnownSlots = []\<rparr> = Some (Inr (r, scp')) \<and> mContext scp' = pairCtx 1 \<and>
    dom (map_of (mKnownSlots scp')) = {5}"
proof -
  let ?env = "nominationEnvelope (pairCtx 2) ((newSlot (pairCtx 2) 5)\<lparr>mVotes := [[8]]\<rparr>)"
    and ?scp = "\<lparr>mContext = pairCtx 1, mKnownSlots = []\<rparr>"
  have "case receiveEnvelope ?env ?scp of Some (Inr _) \<Rightarrow> True | _ \<Rightarrow> False" by code_simp
  then obtain r scp' where run: "receiveEnvelope ?env ?scp = Some (Inr (r, scp'))"
    by (auto split: option.splits sum.splits)
  have "verifyEnvelope (pairCtx 1) ?env" "slotIndex (statement ?env) = 5"
    by (simp_all add: pairCtx_def exampleContext_def nominationEnvelope_def createEnvelope_def newSlot_def Let_def)
  then show ?thesis using receive_envelope_frame [OF _ run] run by (auto simp: map_invar_def split: if_splits)
qed

text \<open>C18: Purging removes exactly the slots below the bound, and the lowest and the highest index that the object
  reports are the minimum and the maximum of its slots.\<close>

theorem purge_keeps_recent_slots:
  assumes "map_invar (mKnownSlots scp)"
  shows "map_invar (mKnownSlots (purgeSlots b scp)) \<and>
    (\<forall>i. map_of (mKnownSlots (purgeSlots b scp)) i = (if i < b then None else map_of (mKnownSlots scp) i)) \<and>
    getLowSlotIndex (purgeSlots b scp) =
      (if \<exists>i \<in> dom (map_of (mKnownSlots scp)). b \<le> i
       then Inr (Min {i \<in> dom (map_of (mKnownSlots scp)). b \<le> i}) else Inl DbgAbort) \<and>
    getHighSlotIndex scp =
      (if mKnownSlots scp \<noteq> [] then Inr (Max (dom (map_of (mKnownSlots scp)))) else Inl DbgAbort)"
proof -
  let ?p = "purgeSlots b scp"
  have inv: "scpInv scp" "scpInv ?p" using assms purge_inv [of scp b] by (simp_all add: scpInv_def)
  have dom: "dom (map_of (mKnownSlots ?p)) = {i \<in> dom (map_of (mKnownSlots scp)). b \<le> i}"
    by (auto simp: purge_map not_less split: if_splits)
  have empty: "getLowSlotIndex x = Inl DbgAbort \<and> getHighSlotIndex x = Inl DbgAbort" if "mKnownSlots x = []" for x
    using that by (simp add: getLowSlotIndex_def getHighSlotIndex_def scp_empty_def dbgAssert_def)
  have "mKnownSlots ?p = [] \<longleftrightarrow> \<not> (\<exists>i \<in> dom (map_of (mKnownSlots scp)). b \<le> i)"
    using dom by (metis (mono_tags, lifting) dom_eq_empty_conv empty_Collect_eq map_of_eq_empty_iff)
  then show ?thesis
    using low_high_index(1) [OF inv(2)] low_high_index(2) [OF inv(1)] dom empty [of ?p] empty [of scp] inv(2)
    by (simp add: purge_map scpInv_def)
qed

theorem purge_keeps_recent_slots_witness:
  "getLowSlotIndex (purgeSlots 4 \<lparr>mContext = soloCtx, mKnownSlots = [(3, newSlot soloCtx 3), (5, newSlot soloCtx 5)]\<rparr>) = Inr 5"
proof -
  let ?scp = "\<lparr>mContext = soloCtx, mKnownSlots = [(3, newSlot soloCtx 3), (5, newSlot soloCtx 5)]\<rparr>"
  have "{i \<in> dom (map_of (mKnownSlots ?scp)). 4 \<le> i} = {5}" "\<exists>i \<in> dom (map_of (mKnownSlots ?scp)). 4 \<le> i"
    by (auto split: if_splits)
  then show ?thesis using purge_keeps_recent_slots [of ?scp 4] by (simp add: map_invar_def)
qed

section \<open>The searches of the ballot protocol\<close>

text \<open>C19: The interval of counters that is committed is the topmost one: its upper end is the highest boundary that
  satisfies the predicate on its own, and it extends down over all boundaries until the first one that does not. The lower
  end is 0, which the callers read as no interval at all, if no boundary satisfies the predicate or if 0 is a boundary, as
  in a CONFIRM statement with \<^verbatim>\<open>nCommit = 0\<close>, and the interval extends down to it.\<close>

theorem commit_interval_is_topmost:
  assumes "set_invar bs"
  shows "case findExtendedInterval pred (rev bs) (0, 0) of (lo, hi) \<Rightarrow>
    if \<forall>b \<in> set bs. \<not> pred (b, b) then lo = 0 \<and> hi = 0
    else lo \<le> hi \<and> lo \<in> set bs \<and> hi = Max {b \<in> set bs. pred (b, b)} \<and>
      (\<forall>b \<in> set bs. lo \<le> b \<and> b \<le> hi \<longrightarrow> pred (b, hi)) \<and>
      (\<forall>b \<in> set bs. b < lo \<longrightarrow> (\<exists>x \<in> set bs. b \<le> x \<and> x < lo \<and> \<not> pred (x, hi))) \<and>
      (lo = 0 \<longleftrightarrow> 0 \<in> set bs \<and> (\<forall>b \<in> set bs. b \<le> hi \<longrightarrow> pred (b, hi)))"
proof (cases "\<forall>b \<in> set bs. \<not> pred (b, b)")
  case True
  then show ?thesis by (simp add: findExtendedInterval_none)
next
  case False
  then obtain b where "b \<in> set (rev bs)" "pred (b, b)" by auto
  moreover have "sorted_wrt (>) (rev bs)" using assms by (simp add: set_invar_def sorted_wrt_rev)
  ultimately obtain lo hi where i: "findExtendedInterval pred (rev bs) (0, 0) = (lo, hi)" "lo \<le> hi"
    "lo \<in> set bs" "hi \<in> set bs" "pred (hi, hi)" "\<forall>x \<in> set bs. pred (x, x) \<longrightarrow> x \<le> hi"
    "\<forall>x \<in> set bs. lo \<le> x \<and> x \<le> hi \<longrightarrow> pred (x, hi)"
    "\<forall>x \<in> set bs. x < lo \<longrightarrow> (\<exists>x' \<in> set bs. x \<le> x' \<and> x' < lo \<and> \<not> pred (x', hi))"
    using findExtendedInterval_found [of "rev bs" b pred] by auto
  have hi: "hi = Max {b \<in> set bs. pred (b, b)}" by (rule Max_eqI [symmetric]) (use i in auto)
  have "0 < lo" if "lo \<noteq> 0" using that by (simp add: word_neq_0_conv)
  then have "lo = 0 \<longleftrightarrow> 0 \<in> set bs \<and> (\<forall>b \<in> set bs. b \<le> hi \<longrightarrow> pred (b, hi))"
    using i(2,3,7,8) by (cases "lo = 0") force+
  then show ?thesis unfolding i(1) prod.case if_not_P [OF False] using i(2,3,7,8) hi by blast
qed

theorem commit_interval_is_topmost_witness:
  "findExtendedInterval (\<lambda>(lo, hi). 2 \<le> lo \<and> hi \<le> (5 :: u32)) (rev [1, 2, 4, 5, 7]) (0, 0) = (2, 5) \<and>
   Max {b \<in> set [1, 2, 4, 5, 7]. 2 \<le> b \<and> b \<le> (5 :: u32)} = 5 \<and>
   findExtendedInterval (\<lambda>i. True) (rev [0, 5]) (0, 0) = (0, 5)"
proof -
  let ?p = "\<lambda>(lo, hi). 2 \<le> lo \<and> hi \<le> (5 :: u32)"
  have run: "findExtendedInterval ?p (rev [1, 2, 4, 5, 7]) (0, 0) = (2, 5)" by code_simp
  have "set_invar [1, 2, 4, 5, 7 :: u32]" by code_simp
  with commit_interval_is_topmost [OF this, of ?p] have "Max {b \<in> set [1, 2, 4, 5, 7]. 2 \<le> b \<and> b \<le> (5 :: u32)} = 5"
    unfolding run by (auto split: if_splits)
  moreover have "findExtendedInterval (\<lambda>i. True) (rev [0, 5]) (0, 0) = (0, 5)" by code_simp
  ultimately show ?thesis using run by blast
qed

text \<open>C20: A node catches up with its peers: when a slot has processed a ballot message, its counter is above every
  counter that a blocking set of nodes has passed. This holds unless the slot has externalized, knows of a node at a lower
  counter than its own, or has no value to bump its ballot with that fits the commit it holds.\<close>

theorem left_behind_node_catches_up:
  assumes "slot_reachable S i s" "slot_processEnvelope S env False s = Some (Inr (VALID, s'))"
    "\<not> isNominate (pledges (statement env))" "mPhase s' \<noteq> SCP_PHASE_EXTERNALIZE"
    "\<forall>c \<in> peerCounters s'. currentCounter s' \<le> c" "canBump s'" "leftBehind S s' k"
  shows "k < currentCounter s'"
proof -
  have inv: "ready s" "mCurrentMessageLevel s = 0"
    using reachable_fullInv [OF assms(1)] by (auto simp: fullInv_def slotInv_def ready_def)
  have "processEnvelope S False env s = Inr (VALID, s')"
    using assms(2,3) by (auto simp: slot_processEnvelope_def split: if_splits)
  then have "\<not> leftBehind S s' (currentCounter s')"
    using processEnvelope_caughtUp [OF _ inv] assms(4,5,6) by (auto simp: caughtUp_def noLaggard_def)
  then show ?thesis using leftBehind_antimono [OF assms(7)] by (auto simp: not_le [symmetric])
qed

theorem left_behind_node_catches_up_witness:
  "\<exists>s s'. slot_reachable (pairCtx 1) 5 s \<and> currentCounter s = 1 \<and>
     slot_processEnvelope (pairCtx 1) aheadEnvelope False s = Some (Inr (VALID, s')) \<and>
     leftBehind (pairCtx 1) s' 3 \<and> 3 < currentCounter s'"
proof -
  obtain s s' where s: "slot_reachable (pairCtx 1) 5 s" "currentCounter s = 1"
    "slot_processEnvelope (pairCtx 1) aheadEnvelope False s = Some (Inr (VALID, s'))" "mPhase s' = SCP_PHASE_PREPARE"
    "noLaggard s'" "canBump s'" "leftBehind (pairCtx 1) s' 3" by (rule catch_up)
  have "\<not> isNominate (pledges (statement aheadEnvelope))" by (simp add: aheadEnvelope_def)
  then have "3 < currentCounter s'"
    using left_behind_node_catches_up [OF s(1,3) _ _ _ s(6,7)] s(4,5) by (simp add: noLaggard_def)
  then show ?thesis using s by blast
qed

text \<open>C21: One peer at a lower counter is enough to keep a node from catching up: the loop over the counters starts
  at the lowest one and stops there, whatever the blocking sets ahead of the node are.\<close>

theorem one_laggard_stops_catching_up:
  assumes "(n, env) \<in> set (mLatestEnvelopes s)" "mCurrentBallot s = Some b"
    "statementCounter (pledges (statement env)) < counter b"
  shows "attemptBump proc S s = Inr (False, s)"
  by (rule attemptBump_behind [of "statementCounter (pledges (statement env))"])
    (use assms in \<open>force simp: peerCounters_def currentCounter_def\<close>)+

theorem one_laggard_stops_catching_up_witness:
  "leftBehind soloCtx laggardSlot 3 \<and> attemptBump (\<lambda>env s. Inr (VALID, s)) soloCtx laggardSlot = Inr (False, laggardSlot)"
proof
  show "leftBehind soloCtx laggardSlot 3" by code_simp
  show "attemptBump (\<lambda>env s. Inr (VALID, s)) soloCtx laggardSlot = Inr (False, laggardSlot)"
    by (rule one_laggard_stops_catching_up [where n = 2]) (auto simp: laggardSlot_def)
qed

text \<open>The values of a ballot statement are reported as fully validated exactly when the application validates
  each of them in full.\<close>

theorem validateValues_full_iff:
  "validateValues S st s = kFullyValidatedValue \<longleftrightarrow>
     \<not> isNominate (pledges st) \<and>
     {validateValue S (mSlotIndex s) v False | v. v \<in> set (checkedValues (pledges st))} \<subseteq> {kFullyValidatedValue}"
proof (cases "isNominate (pledges st)")
  case True
  then show ?thesis by (cases "pledges st") (simp_all add: validateValues_def)
next
  case False
  then show ?thesis by (auto simp: validateValues_eq foldl_worse_valid)
qed

text \<open>C22: A value that the application rejects can be masked: when a later value of the same statement may be valid,
  the statement as a whole is reported as one that may be valid, and is processed.\<close>

theorem validateValues_masks_invalid:
  assumes "pledges st = SCP_ST_PREPARE h b (Some p) p' c hi" "counter b \<noteq> 0" "bvalue b < bvalue p"
    "validateValue S (mSlotIndex s) (bvalue b) False = kInvalidValue"
    "validateValue S (mSlotIndex s) (bvalue p) False = kMaybeValidValue"
  shows "validateValues S st s = kMaybeValidValue"
  using assms by (auto simp: validateValues_def insort_insert_key_def)

theorem validateValues_masks_invalid_witness:
  "validateValues (soloCtx\<lparr>validateValue := (\<lambda>i v n. if v = [1] then kInvalidValue else kMaybeValidValue)\<rparr>)
     \<lparr>nodeID = 2, slotIndex = 5, pledges = SCP_ST_PREPARE 9 (SCPBallot 2 [1]) (Some (SCPBallot 1 [2])) None 0 0\<rparr>
     (newSlot soloCtx 5) = kMaybeValidValue"
  by (rule validateValues_masks_invalid) auto

section \<open>Orders\<close>

text \<open>C23: The comparison of ballots is the comparison function of a linear order.\<close>

theorem compareBallots_linear_order:
  "class.linorder (\<lambda>a b. compareBallots a b \<le> 0) (\<lambda>a b. compareBallots a b < 0) \<and>
   compareBallots a b = - compareBallots b a \<and> (compareBallots a b = 0 \<longleftrightarrow> a = b)"
proof -
  have "class.linorder (\<lambda>a b. compareBallots a b \<le> 0) (\<lambda>a b. compareBallots a b < 0)"
    by standard auto
  moreover have "compareBallots a b = - compareBallots b a" by (auto simp: compareBallots_def)
  ultimately show ?thesis using compareBallots_iff(3) by blast
qed

text \<open>C24: The comparison of the statements of a node is a strict order, so that no statement counts as newer than
  itself or than one that is newer than it.\<close>

theorem newer_statement_strict_order:
  "irreflp isNewerStatement \<and> transp isNewerStatement \<and> asymp isNewerStatement"
proof -
  have "irreflp isNewerStatement" "transp isNewerStatement"
    by (simp add: irreflp_def) (rule transpI, rule isNewerStatement_trans)
  moreover have "asymp isNewerStatement"
    by (rule asympI) (use isNewerStatement_trans isNewerStatement_irrefl in blast)
  ultimately show ?thesis by simp
qed

end
